(* ===== verification/Monya_Prelude.thy ===== *)
theory Monya_Prelude
  imports Main "HOL-Library.Multiset" "HOL-Library.Word"
begin

text \<open>
  Shared vocabulary of the development: the integer widths of \<^verbatim>\<open>src/src/common/types.hpp\<close>,
  the exceptions of \<^verbatim>\<open>src/src/common/exception.hpp\<close> as an error type, results as
  sums, a heap of nodes addressed by natural numbers with pointers that may be null, and
  the list, multiset and sorting lemmas that several components use.
\<close>

named_theorems heap_simps \<open>reading and writing nodes of a heap\<close>
named_theorems res_simps \<open>the result type and its sequencing\<close>

section \<open>Integers\<close>

type_synonym sample_id_t = "32 word"
type_synonym size_t = "64 word"
type_synonym unsigned = "32 word"

section \<open>Errors and results\<close>

text \<open>
  Every way an operation of the program can fail to return normally: the exception
  classes of the program (with the message of the throw site), the failing
  \<^verbatim>\<open>assert\<close>, and an access the C++ standard leaves undefined (a null or
  dangling pointer, an index past the end of a vector).
\<close>

datatype error =
    not_implemented_exception
  | abstract_exception string
  | io_exception string
  | parameter_exception string
  | concurrency_exception string
  | runtime_error string
  | assert_failure
  | undefined_behaviour

type_synonym 'a result = "error + 'a"

text \<open>
  Sequencing of fallible steps: the first error ends the computation, as an exception does.
\<close>

definition bindE :: "'a result \<Rightarrow> ('a \<Rightarrow> 'b result) \<Rightarrow> 'b result" where
  "bindE m f = (case m of Inl e \<Rightarrow> Inl e | Inr a \<Rightarrow> f a)"

lemma bindE_simps [simp, res_simps]:
  "bindE (Inl e) f = Inl e"
  "bindE (Inr a) f = f a"
  by (simp_all add: bindE_def)

lemma bindE_eq_Inr [res_simps]:
  "bindE m f = Inr b \<longleftrightarrow> (\<exists>a. m = Inr a \<and> f a = Inr b)"
  by (cases m) simp_all

lemma bindE_assoc: "bindE (bindE m f) g = bindE m (\<lambda>a. bindE (f a) g)"
  by (cases m) simp_all

definition guardE :: "bool \<Rightarrow> error \<Rightarrow> unit result" where
  "guardE b e = (if b then Inr () else Inl e)"

lemma guardE_simps [simp, res_simps]:
  "guardE True e = Inr ()"
  "guardE False e = Inl e"
  by (simp_all add: guardE_def)

lemma guardE_eq_Inr [res_simps]: "guardE b e = Inr u \<longleftrightarrow> b"
  by (simp add: guardE_def)

text \<open>
  A computation with a loop that may not end: \<open>None\<close> when it does not return,
  \<open>Some\<close> of its result otherwise.
\<close>

type_synonym 'a exec = "'a result option"

definition bindX :: "'a exec \<Rightarrow> ('a \<Rightarrow> 'b exec) \<Rightarrow> 'b exec" where
  "bindX m f = Option.bind m (\<lambda>r. case r of Inl e \<Rightarrow> Some (Inl e) | Inr a \<Rightarrow> f a)"

lemma bindX_simps [simp, res_simps]:
  "bindX None f = None"
  "bindX (Some (Inl e)) f = Some (Inl e)"
  "bindX (Some (Inr a)) f = f a"
  by (simp_all add: bindX_def)

lemma bindX_eq_Some_Inr [res_simps]:
  "bindX m f = Some (Inr b) \<longleftrightarrow> (\<exists>a. m = Some (Inr a) \<and> f a = Some (Inr b))"
  by (cases m) (auto simp: bindX_def split: sum.splits)

lemma bindX_assoc: "bindX (bindX m f) g = bindX m (\<lambda>a. bindX (f a) g)"
  by (cases m) (auto simp: bindX_def split: sum.splits)

lemma bindX_mono [partial_function_mono]:
  assumes "mono_option B" and "\<And>y. mono_option (\<lambda>f. C y f)"
  shows "mono_option (\<lambda>f. bindX (B f) (\<lambda>y. C y f))"
proof -
  have "mono_option (\<lambda>f. case r of Inl e \<Rightarrow> Some (Inl e) | Inr a \<Rightarrow> C a f)" for r
    using assms(2) by (cases r) (auto intro: partial_function_mono)
  with assms(1) show ?thesis
    unfolding bindX_def by (rule bind_mono)
qed

text \<open>A loop over a list that threads a state through a fallible step.\<close>

fun foldX :: "('a \<Rightarrow> 's \<Rightarrow> 's exec) \<Rightarrow> 'a list \<Rightarrow> 's \<Rightarrow> 's exec" where
  "foldX f [] s = Some (Inr s)"
| "foldX f (x # xs) s = bindX (f x s) (foldX f xs)"

lemma foldX_append: "foldX f (xs @ ys) s = bindX (foldX f xs s) (foldX f ys)"
proof (induction xs arbitrary: s)
  case (Cons x xs)
  then show ?case by (auto simp: bindX_def split: option.splits sum.splits bind_splits)
qed simp

section \<open>The heap\<close>

text \<open>
  Objects made by \<^verbatim>\<open>new\<close> live in a heap from addresses to nodes; a pointer is
  \<open>None\<close> (null) or \<open>Some\<close> address. \<open>deref\<close> is a read through a pointer and
  \<open>mutate\<close> a write through it; both are undefined behaviour on a null or dangling
  pointer.
\<close>

type_synonym addr = nat
type_synonym ptr = "addr option"
type_synonym 'n heap = "addr \<rightharpoonup> 'n"

definition deref :: "'n heap \<Rightarrow> ptr \<Rightarrow> 'n result" where
  "deref h p =
     (case p of
        None \<Rightarrow> Inl undefined_behaviour
      | Some a \<Rightarrow> (case h a of None \<Rightarrow> Inl undefined_behaviour | Some n \<Rightarrow> Inr n))"

definition mutate :: "('n \<Rightarrow> 'n) \<Rightarrow> ptr \<Rightarrow> 'n heap \<Rightarrow> 'n heap result" where
  "mutate f p h = bindE (deref h p) (\<lambda>n. Inr (h(the p \<mapsto> f n)))"

lemma deref_None [simp, heap_simps]: "deref h None = Inl undefined_behaviour"
  by (simp add: deref_def)

lemma deref_Some [heap_simps]: "h a = Some n \<Longrightarrow> deref h (Some a) = Inr n"
  by (simp add: deref_def)

lemma deref_eq_Inr [heap_simps]:
  "deref h p = Inr n \<longleftrightarrow> (\<exists>a. p = Some a \<and> h a = Some n)"
  by (auto simp: deref_def split: option.splits)

lemma mutate_None [simp, heap_simps]: "mutate f None h = Inl undefined_behaviour"
  by (simp add: mutate_def)

lemma mutate_Some [heap_simps]:
  "h a = Some n \<Longrightarrow> mutate f (Some a) h = Inr (h(a \<mapsto> f n))"
  by (simp add: mutate_def deref_Some)

lemma mutate_eq_Inr [heap_simps]:
  "mutate f p h = Inr h' \<longleftrightarrow> (\<exists>a n. p = Some a \<and> h a = Some n \<and> h' = h(a \<mapsto> f n))"
  by (auto simp: mutate_def deref_def split: option.splits)

text \<open>\<^verbatim>\<open>delete\<close>; of a node that is not allocated it is undefined behaviour.\<close>

definition free_node :: "ptr \<Rightarrow> 'n heap \<Rightarrow> 'n heap result" where
  "free_node p h = bindE (deref h p) (\<lambda>_. Inr (h(the p := None)))"

lemma free_node_Some [heap_simps]: "h a = Some n \<Longrightarrow> free_node (Some a) h = Inr (h(a := None))"
  by (simp add: free_node_def deref_Some)

text \<open>A read of an array element; outside the array it is undefined behaviour.\<close>

definition read_at :: "'a list \<Rightarrow> nat \<Rightarrow> 'a result" where
  "read_at xs i = (if i < length xs then Inr (xs ! i) else Inl undefined_behaviour)"

lemma read_at_Inr [simp, heap_simps]: "i < length xs \<Longrightarrow> read_at xs i = Inr (xs ! i)"
  by (simp add: read_at_def)

section \<open>Lists and sorting\<close>

text \<open>
  Insertion into a list after every element whose key is not greater: the place where a
  scan for the first strictly greater element stops.
\<close>

fun insert_gt :: "('a \<Rightarrow> 'd::linorder) \<Rightarrow> 'a \<Rightarrow> 'a list \<Rightarrow> 'a list" where
  "insert_gt f x [] = [x]"
| "insert_gt f x (y # ys) = (if f x < f y then x # y # ys else y # insert_gt f x ys)"

lemma mset_insert_gt [simp]: "mset (insert_gt f x ys) = add_mset x (mset ys)"
  by (induction ys) auto

lemma set_insert_gt [simp]: "set (insert_gt f x ys) = insert x (set ys)"
  by (induction ys) auto

lemma length_insert_gt [simp]: "length (insert_gt f x ys) = Suc (length ys)"
  by (induction ys) auto

lemma sorted_insert_gt: "sorted (map f ys) \<Longrightarrow> sorted (map f (insert_gt f x ys))"
proof (induction ys)
  case (Cons y ys)
  then show ?case by (cases "f x < f y") (auto simp: order.strict_implies_order order.trans[OF less_imp_le])
qed simp

lemma insert_gt_append:
  "\<forall>y \<in> set ys. f y \<le> f x \<Longrightarrow> insert_gt f x (ys @ zs) = ys @ insert_gt f x zs"
  by (induction ys) auto

lemma insert_gt_all_le: "\<forall>y \<in> set ys. f y \<le> f x \<Longrightarrow> insert_gt f x ys = ys @ [x]"
  using insert_gt_append[of ys f x "[]"] by simp

text \<open>The keys of the k smallest elements depend on the multiset of keys alone.\<close>

lemma sorted_keys_unique:
  assumes "sorted (map f xs)" and "mset (map f xs) = mset ks"
  shows "map f xs = sort ks"
  using assms properties_for_sort by metis

lemma map_sort_key: "map f (sort_key f xs) = sort (map f xs)"
  by (rule sorted_keys_unique) simp_all

lemma map_key_insert_gt:
  assumes "sorted (map f ys)"
  shows "map f (insert_gt f x ys) = insort (f x) (map f ys)"
proof -
  have "map f (insert_gt f x ys) = sort (f x # map f ys)"
    by (rule sorted_keys_unique) (simp_all add: sorted_insert_gt assms)
  also have "\<dots> = insort (f x) (sort (map f ys))" by simp
  also have "\<dots> = insort (f x) (map f ys)" by (simp add: assms sorted_sort_id)
  finally show ?thesis .
qed

lemma take_insort_take:
  fixes xs :: "'a::linorder list"
  shows "take k (insort x (take k xs)) = take k (insort x xs)"
proof (induction xs arbitrary: k)
  case (Cons y ys)
  then show ?case by (cases k) (auto simp: take_Cons')
qed simp

lemma mset_eq_sort: "mset xs = mset ys \<Longrightarrow> sort xs = sort ys"
  by (metis sorted_list_of_multiset_mset)

lemma sort_snoc:
  fixes xs :: "'a::linorder list"
  shows "sort (xs @ [x]) = insort x (sort xs)"
proof -
  have "sort (xs @ [x]) = sort (x # xs)" by (rule mset_eq_sort) simp
  then show ?thesis by simp
qed

lemma unat_Suc_word:
  fixes w :: "'a::len word"
  assumes "w \<noteq> - 1"
  shows "unat (w + 1) = Suc (unat w)"
  using assms by (metis add.commute add_eq_0_iff2 unatSuc)

lemma split_at:
  assumes "i < length xs"
  obtains as bs where "xs = as @ xs ! i # bs" "length as = i"
  using id_take_nth_drop [OF assms] assms that [of "take i xs" "drop (Suc i) xs"] by simp

end
