(* ===== verification/Common_Types.thy ===== *)
theory Common_Types
  imports Monya_Prelude
begin

text \<open>
  \<^verbatim>\<open>src/src/common/types.hpp\<close>: the enumerations and \<open>Params\<close>, the pair
  \<open>IndexVal\<close> of a sample id and a value ordered by the value alone, the vector
  \<open>IndexVector\<close> of such pairs with its lazily sorted lookup, and the circular counter
  \<open>cunsigned\<close>. Values (\<^verbatim>\<open>data_t\<close>, a C++ float) are elements of any linear
  order: every float but NaN.
\<close>

section \<open>Enumerations and parameters\<close>

datatype file_t = BIN | FVECS | IVECS | BVECS | HDF5

datatype bchild_t = LEFT | RIGHT

datatype io_t = MEM | SEM | SYNC

datatype mat_orient_t = ROW | COL | BAND | INVALID

record Params =
  nsamples :: nat
  nfeatures :: nat
  fn :: string
  iotype :: io_t
  ntree :: nat
  nthread :: nat
  orientation :: mat_orient_t
  fanout :: nat
  max_depth :: nat
  filetype :: file_t

definition Params_ctor ::
  "nat \<Rightarrow> nat \<Rightarrow> string \<Rightarrow> io_t \<Rightarrow> nat \<Rightarrow> nat \<Rightarrow> mat_orient_t \<Rightarrow> nat \<Rightarrow> nat \<Rightarrow> file_t \<Rightarrow> Params result"
where
  "Params_ctor ns nf f io nt nthr ori fo md ft =
     (let p = \<lparr>nsamples = ns, nfeatures = nf, fn = f, iotype = io, ntree = nt,
               nthread = nthr, orientation = ori, fanout = fo, max_depth = md,
               filetype = ft\<rparr>
      in if io \<noteq> MEM \<and> 1 < nthr
         then Inl (parameter_exception
                     (''Multithreading only support for in memory mode currently!'' @ [CHR 0x0A]))
         else Inr p)"

section \<open>IndexVal\<close>

datatype 'd IndexVal = IndexVal (get_index: sample_id_t) (get_val: 'd)

text \<open>The comparison operators look at the value alone.\<close>

instantiation IndexVal :: (linorder) preorder
begin

definition less_IndexVal :: "'a IndexVal \<Rightarrow> 'a IndexVal \<Rightarrow> bool" where
  "less_IndexVal a b \<longleftrightarrow> get_val a < get_val b"

definition less_eq_IndexVal :: "'a IndexVal \<Rightarrow> 'a IndexVal \<Rightarrow> bool" where
  "less_eq_IndexVal a b \<longleftrightarrow> get_val a \<le> get_val b"

instance
  by standard (auto simp: less_IndexVal_def less_eq_IndexVal_def)

end

lemmas iv_order = less_IndexVal_def less_eq_IndexVal_def

definition IndexVal_eq :: "'d IndexVal \<Rightarrow> 'd IndexVal \<Rightarrow> bool" where
  "IndexVal_eq a b \<longleftrightarrow> get_val a = get_val b"

definition IndexVal_neq :: "'d IndexVal \<Rightarrow> 'd IndexVal \<Rightarrow> bool" where
  "IndexVal_neq a b \<longleftrightarrow> get_val a \<noteq> get_val b"

section \<open>IndexVector\<close>

record 'd IndexVector =
  items :: "'d IndexVal list"
  sorted_flag :: bool

definition IndexVector_new :: "'d IndexVector" where
  "IndexVector_new = \<lparr>items = [], sorted_flag = False\<rparr>"

text \<open>
  \<^verbatim>\<open>resize\<close> pushes one place holder per iteration and re-reads
  \<^verbatim>\<open>size()\<close> in the loop condition.
\<close>

function resize_loop :: "nat \<Rightarrow> nat \<Rightarrow> 'd::zero IndexVal list \<Rightarrow> 'd IndexVal list" where
  "resize_loop i nelem xs =
     (if i < nelem - length xs then resize_loop (i + 1) nelem (xs @ [IndexVal 0 0]) else xs)"
  by pat_completeness auto
termination by (relation "measure (\<lambda>(i, nelem, xs). nelem - length xs)") auto

declare resize_loop.simps [simp del]

definition IndexVector_resize :: "nat \<Rightarrow> 'd::zero IndexVector \<Rightarrow> 'd IndexVector result" where
  "IndexVector_resize nelem v =
     (if nelem \<ge> length (items v)
      then Inr (v\<lparr>items := resize_loop 0 nelem (items v)\<rparr>)
      else Inl assert_failure)"

definition IndexVector_of_size :: "nat \<Rightarrow> 'd::zero IndexVector result" where
  "IndexVector_of_size nelem = IndexVector_resize nelem IndexVector_new"

fun index_from :: "nat \<Rightarrow> 'd list \<Rightarrow> 'd IndexVal list" where
  "index_from i [] = []"
| "index_from i (x # xs) = IndexVal (word_of_nat i) x # index_from (i + 1) xs"

definition IndexVector_of_vals :: "'d list \<Rightarrow> 'd IndexVector" where
  "IndexVector_of_vals vals = \<lparr>items = index_from 0 vals, sorted_flag = False\<rparr>"

definition IndexVector_of_ids :: "sample_id_t list \<Rightarrow> 'd::zero IndexVector" where
  "IndexVector_of_ids ids = \<lparr>items = map (\<lambda>i. IndexVal i 0) ids, sorted_flag = False\<rparr>"

text \<open>The loop over the items never stores the concatenation it computes.\<close>

definition IndexVector_to_string :: "'d IndexVector \<Rightarrow> string" where
  "IndexVector_to_string v = foldl (\<lambda>repr item. repr) '''' (items v)"

definition set_indexes_ids ::
  "sample_id_t list \<Rightarrow> 'd::zero IndexVector \<Rightarrow> 'd IndexVector" where
  "set_indexes_ids ids v = v\<lparr>items := map (\<lambda>i. IndexVal i 0) ids\<rparr>"

definition set_indexes_vals :: "'d list \<Rightarrow> 'd IndexVector \<Rightarrow> 'd IndexVector" where
  "set_indexes_vals vals v = v\<lparr>items := index_from 0 vals\<rparr>"

definition get_indexes :: "'d IndexVector \<Rightarrow> sample_id_t list \<Rightarrow> sample_id_t list result" where
  "get_indexes v out =
     (if out = [] then Inr (map get_index (items v)) else Inl assert_failure)"

definition IndexVector_append :: "'d IndexVal \<Rightarrow> 'd IndexVector \<Rightarrow> 'd IndexVector" where
  "IndexVector_append iv v = v\<lparr>items := items v @ [iv]\<rparr>"

definition IndexVector_nth :: "'d IndexVector \<Rightarrow> nat \<Rightarrow> 'd IndexVal result" where
  "IndexVector_nth v i =
     (if i < length (items v) then Inr (items v ! i) else Inl undefined_behaviour)"

definition IndexVector_insert ::
  "'d IndexVal \<Rightarrow> nat \<Rightarrow> 'd IndexVector \<Rightarrow> 'd IndexVector result" where
  "IndexVector_insert item offset v =
     (if offset \<le> length (items v)
      then Inr (v\<lparr>items := take offset (items v) @ item # drop offset (items v)\<rparr>)
      else Inl undefined_behaviour)"

text \<open>
  \<^verbatim>\<open>trim\<close> is \<^verbatim>\<open>std::vector::resize\<close>; an element it adds has the
  indeterminate value \<open>g\<close> of the default constructor.
\<close>

definition IndexVector_trim :: "'d \<Rightarrow> nat \<Rightarrow> 'd IndexVector \<Rightarrow> 'd IndexVector" where
  "IndexVector_trim g nelem v =
     v\<lparr>items := take nelem (items v) @ replicate (nelem - length (items v)) (IndexVal 0 g)\<rparr>"

definition IndexVector_sort :: "'d::linorder IndexVector \<Rightarrow> 'd IndexVector" where
  "IndexVector_sort v = \<lparr>items = sort_key get_val (items v), sorted_flag = True\<rparr>"

text \<open>\<^verbatim>\<open>std::lower_bound\<close> and \<^verbatim>\<open>std::binary_search\<close> by halving.\<close>

function lower_bound ::
  "'d::linorder IndexVal list \<Rightarrow> 'd IndexVal \<Rightarrow> nat \<Rightarrow> nat \<Rightarrow> nat" where
  "lower_bound xs v first len =
     (if len = 0 then first
      else if xs ! (first + len div 2) < v
           then lower_bound xs v (first + len div 2 + 1) (len - len div 2 - 1)
           else lower_bound xs v first (len div 2))"
  by pat_completeness auto
termination by (relation "measure (\<lambda>(xs, v, first, len). len)") auto

declare lower_bound.simps [simp del]

definition binary_search :: "'d::linorder IndexVal list \<Rightarrow> 'd IndexVal \<Rightarrow> bool" where
  "binary_search xs v =
     (let i = lower_bound xs v 0 (length xs) in i \<noteq> length xs \<and> \<not> v < xs ! i)"

definition IndexVector_find ::
  "'d::linorder IndexVal \<Rightarrow> 'd IndexVector \<Rightarrow> bool \<times> 'd IndexVector" where
  "IndexVector_find iv v =
     (let v' = (if sorted_flag v then v else IndexVector_sort v)
      in (binary_search (items v') iv, v'))"

section \<open>cunsigned\<close>

record cunsigned =
  cval :: unsigned
  cmax :: unsigned

definition cunsigned_new :: "unsigned \<Rightarrow> cunsigned result" where
  "cunsigned_new m =
     (if m = 0 then Inl (parameter_exception ''max must be > 0'')
      else Inr \<lparr>cval = 0, cmax = m\<rparr>)"

definition cunsigned_at :: "unsigned \<Rightarrow> unsigned \<Rightarrow> cunsigned result" where
  "cunsigned_at v m =
     (if m = 0 then Inl (parameter_exception ''max must be > 0'')
      else if v \<ge> m then Inl (parameter_exception ''val must be < max'')
      else Inr \<lparr>cval = v, cmax = m\<rparr>)"

text \<open>\<^verbatim>\<open>set\<close> stores the value before it checks it: the state is changed either way.\<close>

definition cunsigned_set :: "unsigned \<Rightarrow> cunsigned \<Rightarrow> unit result \<times> cunsigned" where
  "cunsigned_set v c =
     (let c' = c\<lparr>cval := v\<rparr>
      in (if v \<ge> cmax c then Inl (parameter_exception ''val must be < max'') else Inr (), c'))"

definition cunsigned_inc :: "cunsigned \<Rightarrow> unsigned \<times> cunsigned" where
  "cunsigned_inc c =
     (let v = (if cval c = cmax c - 1 then 0 else cval c + 1) in (v, c\<lparr>cval := v\<rparr>))"

definition cunsigned_dec :: "cunsigned \<Rightarrow> unsigned \<times> cunsigned" where
  "cunsigned_dec c =
     (let v = (if cval c = 0 then cmax c - 1 else cval c - 1) in (v, c\<lparr>cval := v\<rparr>))"

definition cunsigned_ok :: "cunsigned \<Rightarrow> bool" where
  "cunsigned_ok c \<longleftrightarrow> cval c < cmax c"

section \<open>Lemmas on IndexVector\<close>

lemma length_index_from [simp]: "length (index_from i xs) = length xs"
  by (induction i xs rule: index_from.induct) auto

lemma map_get_val_index_from [simp]: "map get_val (index_from i xs) = xs"
  by (induction i xs rule: index_from.induct) auto

lemma map_get_index_index_from:
  "map get_index (index_from i xs) = map word_of_nat [i..<i + length xs]"
  by (induction i xs rule: index_from.induct) (auto simp: upt_rec)

lemma nth_index_from:
  "j < length xs \<Longrightarrow> index_from i xs ! j = IndexVal (word_of_nat (i + j)) (xs ! j)"
proof (induction i xs arbitrary: j rule: index_from.induct)
  case (2 i x xs)
  then show ?case by (cases j) auto
qed simp

lemma length_resize_loop:
  assumes "i + length xs \<le> nelem + i"
  shows "length (resize_loop i nelem xs) = length xs + (nelem - length xs - i + 1) div 2"
  using assms
proof (induction i nelem xs rule: resize_loop.induct)
  case (1 i nelem xs)
  show ?case
  proof (cases "i < nelem - length xs")
    case True
    with 1 have "length (resize_loop (i + 1) nelem (xs @ [IndexVal 0 0]))
        = length xs + 1 + (nelem - (length xs + 1) - (i + 1) + 1) div 2"
      by simp
    also have "\<dots> = length xs + (nelem - length xs - i + 1) div 2"
    proof -
      from True obtain d where "nelem = length xs + i + Suc d"
        by (metis add.commute less_diff_conv less_imp_Suc_add add_Suc_right)
      then show ?thesis by (cases d) simp_all
    qed
    finally show ?thesis using True by (simp add: resize_loop.simps [of i nelem xs])
  next
    case False
    then show ?thesis by (simp add: resize_loop.simps [of i nelem xs])
  qed
qed

lemma lower_bound_partition:
  assumes "sorted (map get_val xs)" and "first + len \<le> length xs"
    and "\<forall>j < first. get_val (xs ! j) < get_val v"
    and "\<forall>j. first + len \<le> j \<and> j < length xs \<longrightarrow> get_val v \<le> get_val (xs ! j)"
  shows "lower_bound xs v first len \<le> length xs \<and>
    (\<forall>j < lower_bound xs v first len. get_val (xs ! j) < get_val v) \<and>
    (\<forall>j. lower_bound xs v first len \<le> j \<and> j < length xs \<longrightarrow> get_val v \<le> get_val (xs ! j))"
  using assms
proof (induction xs v first len rule: lower_bound.induct)
  case (1 xs v first len)
  let ?m = "first + len div 2"
  have mono: "get_val (xs ! i) \<le> get_val (xs ! j)" if "i \<le> j" "j < length xs" for i j
    using sorted_nth_mono[OF "1.prems"(1), of i j] that by simp
  show ?case
  proof (cases "len = 0")
    case True
    with "1.prems" show ?thesis by (simp add: lower_bound.simps [of xs v first 0])
  next
    case nz: False
    then have m: "?m < first + len" by auto
    show ?thesis
    proof (cases "xs ! ?m < v")
      case True
      then have v: "get_val (xs ! ?m) < get_val v" by (simp add: iv_order)
      have below: "\<forall>j < ?m + 1. get_val (xs ! j) < get_val v"
        using mono[of _ ?m] v m "1.prems"(2)
        by (metis Suc_eq_plus1 le_less_trans less_Suc_eq_le order_less_le_trans)
      have eq: "?m + 1 + (len - len div 2 - 1) = first + len"
        using nz by auto
      show ?thesis
        using "1.IH"(1)[OF nz True "1.prems"(1)] below "1.prems"(2,4) nz True
        unfolding eq by (simp add: lower_bound.simps [of xs v first len])
    next
      case False
      then have v: "get_val v \<le> get_val (xs ! ?m)" by (simp add: iv_order)
      have above: "\<forall>j. first + len div 2 \<le> j \<and> j < length xs \<longrightarrow> get_val v \<le> get_val (xs ! j)"
        using mono[of ?m] v order_trans by blast
      show ?thesis
        using "1.IH"(2)[OF nz False "1.prems"(1)] above "1.prems"(2,3) m nz False
        by (simp add: lower_bound.simps [of xs v first len])
    qed
  qed
qed

lemma binary_search_iff:
  assumes "sorted (map get_val xs)"
  shows "binary_search xs v \<longleftrightarrow> get_val v \<in> get_val ` set xs"
proof -
  let ?i = "lower_bound xs v 0 (length xs)"
  have out: "\<forall>j. 0 + length xs \<le> j \<and> j < length xs \<longrightarrow> get_val v \<le> get_val (xs ! j)"
    by auto
  have p: "?i \<le> length xs" "\<And>j. j < ?i \<Longrightarrow> get_val (xs ! j) < get_val v"
    "\<And>j. ?i \<le> j \<Longrightarrow> j < length xs \<Longrightarrow> get_val v \<le> get_val (xs ! j)"
    using lower_bound_partition[OF assms _ _ out] by simp_all
  show ?thesis
  proof
    assume "binary_search xs v"
    then have "?i < length xs" "get_val (xs ! ?i) \<le> get_val v"
      using p(1) by (auto simp: binary_search_def Let_def iv_order)
    moreover from this have "get_val v \<le> get_val (xs ! ?i)" using p(3) by blast
    ultimately show "get_val v \<in> get_val ` set xs" by (metis antisym imageI nth_mem)
  next
    assume "get_val v \<in> get_val ` set xs"
    then obtain j where j: "j < length xs" "get_val (xs ! j) = get_val v"
      by (auto simp: in_set_conv_nth)
    with p(2) have "?i \<le> j" by (metis less_irrefl not_le)
    moreover have "get_val (xs ! ?i) \<le> get_val (xs ! j)"
      using sorted_nth_mono[OF assms, of ?i j] \<open>?i \<le> j\<close> j(1) by simp
    ultimately show "binary_search xs v"
      using j by (auto simp: binary_search_def Let_def iv_order)
  qed
qed

lemma foldl_const: "foldl (\<lambda>a b. a) a xs = a"
  by (induction xs) auto

lemma IndexVector_to_string_empty: "IndexVector_to_string v = ''''"
  by (simp add: IndexVector_to_string_def foldl_const)

lemma IndexVector_of_vals_round_trip:
  "map get_val (items (IndexVector_of_vals vals)) = vals"
  "get_indexes (IndexVector_of_vals vals) [] = Inr (map word_of_nat [0..<length vals])"
  by (simp_all add: IndexVector_of_vals_def get_indexes_def map_get_index_index_from)

section \<open>Lemmas on cunsigned\<close>

lemma cunsigned_new_ok: "cunsigned_new m = Inr c \<Longrightarrow> cunsigned_ok c \<and> cval c = 0 \<and> cmax c = m"
  by (auto simp: cunsigned_new_def cunsigned_ok_def word_neq_0_conv split: if_splits)

lemma cunsigned_at_ok: "cunsigned_at v m = Inr c \<Longrightarrow> cunsigned_ok c \<and> cval c = v \<and> cmax c = m"
  by (auto simp: cunsigned_at_def cunsigned_ok_def split: if_splits)

lemma unat_pred_max: "cunsigned_ok c \<Longrightarrow> unat (cmax c - 1) = unat (cmax c) - 1"
  by (metis cunsigned_ok_def unat_minus_one word_not_simps(1))

lemma cunsigned_inc_mod:
  assumes "cunsigned_ok c"
  shows "unat (fst (cunsigned_inc c)) = (unat (cval c) + 1) mod unat (cmax c)"
proof -
  have lt: "unat (cval c) < unat (cmax c)" using assms by (simp add: cunsigned_ok_def word_less_nat_alt)
  show ?thesis
  proof (cases "cval c = cmax c - 1")
    case True
    then have "unat (cval c) + 1 = unat (cmax c)" using unat_pred_max [OF assms] lt by simp
    with True show ?thesis by (simp add: cunsigned_inc_def)
  next
    case False
    then have ne: "unat (cval c) + 1 \<noteq> unat (cmax c)"
      using unat_pred_max [OF assms] by (metis add_diff_cancel_right' word_unat_eq_iff)
    have "unat (cval c + 1) = unat (cval c) + 1"
    proof -
      have "unat (cmax c) < 2 ^ LENGTH(32)" by (rule unsigned_less)
      then have "unat (cval c) + 1 < 2 ^ LENGTH(32)" using lt by simp
      then show ?thesis by (simp add: unat_word_ariths)
    qed
    with False ne lt show ?thesis by (simp add: cunsigned_inc_def Let_def)
  qed
qed

lemma cunsigned_inc_ok: "cunsigned_ok c \<Longrightarrow> cunsigned_ok (snd (cunsigned_inc c))"
proof -
  assume ok: "cunsigned_ok c"
  then have "0 < unat (cmax c)" by (simp add: cunsigned_ok_def word_less_nat_alt)
  then have "unat (fst (cunsigned_inc c)) < unat (cmax c)"
    using cunsigned_inc_mod [OF ok] by simp
  then show ?thesis by (simp add: cunsigned_ok_def cunsigned_inc_def Let_def word_less_nat_alt)
qed

lemma cunsigned_inc_dec: "cunsigned_ok c \<Longrightarrow> snd (cunsigned_dec (snd (cunsigned_inc c))) = c"
proof -
  assume ok: "cunsigned_ok c"
  have "cval c + 1 \<noteq> 0" if "cval c \<noteq> cmax c - 1"
  proof
    assume "cval c + 1 = 0"
    then have "cval c = - 1" by (metis add_eq_0_iff2)
    with ok show False by (metis cunsigned_ok_def not_less word_n1_ge)
  qed
  then show ?thesis by (auto simp: cunsigned_dec_def cunsigned_inc_def Let_def)
qed

section \<open>Properties\<close>

text \<open>The sorted flag is honest: when it is set, the items are in ascending order.\<close>

definition IndexVector_ok :: "'d::linorder IndexVector \<Rightarrow> bool" where
  "IndexVector_ok v \<longleftrightarrow> (sorted_flag v \<longrightarrow> sorted (map get_val (items v)))"

lemma IndexVector_find_ok:
  assumes "IndexVector_ok v"
  obtains v' where "IndexVector_find iv v = (get_val iv \<in> get_val ` set (items v), v')"
    and "mset (items v') = mset (items v)" and "sorted_flag v'" and "IndexVector_ok v'"
proof -
  define v' where "v' = (if sorted_flag v then v else IndexVector_sort v)"
  have f: "IndexVector_find iv v = (binary_search (items v') iv, v')"
    by (simp add: IndexVector_find_def v'_def Let_def)
  have s: "sorted (map get_val (items v'))" "sorted_flag v'" "mset (items v') = mset (items v)"
    using assms by (auto simp: v'_def IndexVector_ok_def IndexVector_sort_def)
  then have "set (items v') = set (items v)" by (metis set_mset_mset)
  with s f that show thesis by (simp add: binary_search_iff IndexVector_ok_def)
qed

text \<open>
  C22. On a vector whose sorted flag is honest, \<^verbatim>\<open>find\<close> returns whether some item has
  the value sought; it keeps the items, as a multiset, and leaves them sorted with the
  flag set.
\<close>

theorem IndexVector_find_correct:
  assumes "IndexVector_ok v" and "IndexVector_find iv v = (found, v')"
  shows "(found \<longleftrightarrow> get_val iv \<in> get_val ` set (items v)) \<and>
    mset (items v') = mset (items v) \<and> sorted_flag v' \<and> IndexVector_ok v'"
  by (rule IndexVector_find_ok [OF assms(1), of iv]) (use assms(2) in auto)

theorem IndexVector_find_correct_witness:
  "fst (IndexVector_find (IndexVal 0 2) (IndexVector_of_vals [3, 2, 5 :: int]))
   \<and> IndexVector_ok (snd (IndexVector_find (IndexVal 0 2) (IndexVector_of_vals [3, 2, 5 :: int])))"
proof -
  have "IndexVector_ok (IndexVector_of_vals [3, 2, 5 :: int])"
    by (simp add: IndexVector_ok_def IndexVector_of_vals_def)
  from IndexVector_find_correct [OF this, of "IndexVal 0 2"] show ?thesis
    by (simp add: IndexVector_of_vals_def prod_eq_iff)
qed

text \<open>
  C23. \<^verbatim>\<open>append\<close> leaves the sorted flag set: an item appended after \<^verbatim>\<open>sort\<close>
  can be in the vector and not be found.
\<close>

theorem IndexVector_append_after_sort_missed:
  "\<exists>v (iv :: int IndexVal). sorted_flag v \<and> IndexVector_ok v \<and>
     iv \<in> set (items (IndexVector_append iv v)) \<and>
     \<not> fst (IndexVector_find iv (IndexVector_append iv v))"
proof (intro exI conjI)
  let ?v = "IndexVector_sort (IndexVector_of_vals [3 :: int])" and ?iv = "IndexVal 1 (1 :: int)"
  show "sorted_flag ?v" "IndexVector_ok ?v" "?iv \<in> set (items (IndexVector_append ?iv ?v))"
    by (simp_all add: IndexVector_sort_def IndexVector_ok_def IndexVector_append_def)
  show "\<not> fst (IndexVector_find ?iv (IndexVector_append ?iv ?v))"
    by (simp add: IndexVector_find_def IndexVector_sort_def IndexVector_append_def
        IndexVector_of_vals_def binary_search_def lower_bound.simps iv_order)
qed

text \<open>
  \<^verbatim>\<open>resize\<close> compares its counter with a size that grows as it pushes: asked
  for \<open>nelem\<close> items it adds only half of those missing, rounded up.
\<close>

theorem IndexVector_resize_adds_half:
  assumes "length (items v) \<le> nelem"
  shows "\<exists>v'. IndexVector_resize nelem v = Inr v' \<and>
    length (items v') = length (items v) + (nelem - length (items v) + 1) div 2"
  using assms length_resize_loop [of 0 "items v" nelem] by (simp add: IndexVector_resize_def)

theorem IndexVector_resize_adds_half_witness:
  "\<exists>v' :: int IndexVector. IndexVector_of_size 10 = Inr v' \<and> length (items v') = 5"
  using IndexVector_resize_adds_half [of "IndexVector_new :: int IndexVector" 10]
  by (simp add: IndexVector_of_size_def IndexVector_new_def)

text \<open>
  A circular counter below its exclusive maximum stays below it, \<^verbatim>\<open>inc\<close> is
  addition of one modulo the maximum, and \<^verbatim>\<open>dec\<close> undoes \<^verbatim>\<open>inc\<close>.
\<close>

theorem cunsigned_circular:
  assumes "cunsigned_ok c"
  shows "unat (fst (cunsigned_inc c)) = (unat (cval c) + 1) mod unat (cmax c) \<and>
    cunsigned_ok (snd (cunsigned_inc c)) \<and> snd (cunsigned_dec (snd (cunsigned_inc c))) = c"
  using assms cunsigned_inc_mod cunsigned_inc_ok cunsigned_inc_dec by blast

theorem cunsigned_circular_witness:
  "fst (cunsigned_inc \<lparr>cval = 2, cmax = 3\<rparr>) = 0 \<and>
   unat (fst (cunsigned_inc \<lparr>cval = 2, cmax = 3\<rparr>)) = (2 + 1) mod 3"
  using cunsigned_circular [of "\<lparr>cval = 2, cmax = 3\<rparr>"]
  by (simp add: cunsigned_ok_def cunsigned_inc_def)

end
