(* ===== verification/NN_Vector.thy ===== *)
theory NN_Vector
  imports Common_Types
begin

text \<open>
  \<^verbatim>\<open>src/src/common/NNVector.hpp\<close>: the bounded list of the k nearest neighbours
  found so far, a circular doubly linked list around a sentinel node with a cached
  position for consecutive reads. The nodes live in a heap, every pointer write of the
  source is a write of the model, and the lemmas relate the heap to the plain list of
  neighbours it stands for.
\<close>

section \<open>Data\<close>

record 'd nn_node =
  prev :: ptr
  "next" :: ptr
  data :: "'d IndexVal"

record 'd NNVector =
  sentinel :: addr
  cache :: "size_t \<times> ptr"
  k :: sample_id_t
  nn_size :: nat
  nn_heap :: "'d nn_node heap"
  fresh :: addr

text \<open>\<open>new Node(iv)\<close>: both links are null.\<close>

definition new_Node :: "'d IndexVal \<Rightarrow> 'd NNVector \<Rightarrow> addr \<times> 'd NNVector" where
  "new_Node iv v =
     (fresh v, v\<lparr>nn_heap := (nn_heap v)(fresh v \<mapsto> \<lparr>prev = None, next = None, data = iv\<rparr>),
                 fresh := fresh v + 1\<rparr>)"

text \<open>The constructor; \<open>fmax\<close> is the largest value of the value type.\<close>

definition NNVector_new :: "'d \<Rightarrow> sample_id_t \<Rightarrow> 'd NNVector" where
  "NNVector_new fmax kk =
     \<lparr>sentinel = 0, cache = (0, None), k = kk, nn_size = 0,
      nn_heap = [0 \<mapsto> \<lparr>prev = Some 0, next = Some 0, data = IndexVal 0 fmax\<rparr>],
      fresh = 1\<rparr>"

section \<open>Operations\<close>

definition update_cache :: "size_t \<Rightarrow> ptr \<Rightarrow> 'd NNVector \<Rightarrow> 'd NNVector" where
  "update_cache index node v = v\<lparr>cache := (index, node)\<rparr>"

definition invalidate_cache :: "'d NNVector \<Rightarrow> 'd NNVector" where
  "invalidate_cache v =
     (if snd (cache v) \<noteq> None then v\<lparr>cache := (fst (cache v), None)\<rparr> else v)"

definition push_back :: "addr \<Rightarrow> 'd NNVector \<Rightarrow> 'd NNVector result" where
  "push_back nn v =
     (let s = Some (sentinel v); h = nn_heap v
      in bindE
        (if nn_size v = 0
         then
           bindE (mutate (\<lambda>n. n\<lparr>prev := s, next := s\<rparr>) (Some nn) h) (\<lambda>h.
           mutate (\<lambda>n. n\<lparr>prev := Some nn, next := Some nn\<rparr>) s h)
         else
           bindE (deref h s) (\<lambda>sn.
           let back = prev sn in
           bindE (mutate (\<lambda>n. n\<lparr>next := s\<rparr>) (Some nn) h) (\<lambda>h.
           bindE (mutate (\<lambda>n. n\<lparr>prev := back\<rparr>) (Some nn) h) (\<lambda>h.
           bindE (mutate (\<lambda>n. n\<lparr>next := Some nn\<rparr>) back h) (\<lambda>h.
           mutate (\<lambda>n. n\<lparr>prev := Some nn\<rparr>) s h)))))
        (\<lambda>h. Inr (v\<lparr>nn_heap := h, nn_size := nn_size v + 1\<rparr>)))"

definition pop_back :: "'d NNVector \<Rightarrow> 'd NNVector result" where
  "pop_back v =
     (if nn_size v = 0 then Inr v
      else let s = Some (sentinel v); h = nn_heap v
      in bindE (deref h s) (\<lambda>sn.
         let delnode = prev sn in
         if delnode = s then Inr v
         else
           bindE (deref h delnode) (\<lambda>dn.
           bindE (mutate (\<lambda>n. n\<lparr>next := s\<rparr>) (prev dn) h) (\<lambda>h.
           bindE (deref h delnode) (\<lambda>dn.
           bindE (mutate (\<lambda>n. n\<lparr>prev := prev dn\<rparr>) s h) (\<lambda>h.
           Inr (invalidate_cache
             (v\<lparr>nn_heap := h(the delnode := None), nn_size := nn_size v - 1\<rparr>))))))))"

text \<open>The links written when the list was empty.\<close>

definition link_first :: "'d IndexVal \<Rightarrow> 'd NNVector \<Rightarrow> 'd NNVector result" where
  "link_first iv v =
     (let (nn, v) = new_Node iv v; s = Some (sentinel v)
      in bindE (mutate (\<lambda>n. n\<lparr>next := Some nn\<rparr>) s (nn_heap v)) (\<lambda>h.
         bindE (mutate (\<lambda>n. n\<lparr>prev := s\<rparr>) (Some nn) h) (\<lambda>h.
         bindE (mutate (\<lambda>n. n\<lparr>prev := Some nn\<rparr>) s h) (\<lambda>h.
         bindE (mutate (\<lambda>n. n\<lparr>next := s\<rparr>) (Some nn) h) (\<lambda>h.
         Inr (v\<lparr>nn_heap := h, nn_size := nn_size v + 1\<rparr>))))))"

text \<open>The links written when the scan stops at \<open>cur\<close>.\<close>

definition link_before :: "'d IndexVal \<Rightarrow> ptr \<Rightarrow> 'd NNVector \<Rightarrow> 'd NNVector result" where
  "link_before iv cur v =
     (let (nn, v) = new_Node iv v
      in bindE (deref (nn_heap v) cur) (\<lambda>c.
         bindE (mutate (\<lambda>n. n\<lparr>next := Some nn\<rparr>) (prev c) (nn_heap v)) (\<lambda>h.
         bindE (deref h cur) (\<lambda>c.
         bindE (mutate (\<lambda>n. n\<lparr>prev := prev c\<rparr>) (Some nn) h) (\<lambda>h.
         bindE (mutate (\<lambda>n. n\<lparr>prev := Some nn\<rparr>) cur h) (\<lambda>h.
         bindE (mutate (\<lambda>n. n\<lparr>next := cur\<rparr>) (Some nn) h) (\<lambda>h.
         Inr (v\<lparr>nn_heap := h, nn_size := nn_size v + 1\<rparr>))))))))"

partial_function (option) eval_loop ::
  "'d::linorder IndexVal \<Rightarrow> ptr \<Rightarrow> 'd NNVector \<Rightarrow> (bool \<times> 'd NNVector) exec" where
  "eval_loop iv cur v =
     (if cur = Some (sentinel v) then Some (Inr (False, v))
      else if cur = None then Some (Inl assert_failure)
      else case deref (nn_heap v) cur of
        Inl e \<Rightarrow> Some (Inl e)
      | Inr c \<Rightarrow>
          if get_val iv < get_val (data c)
          then Some (bindE (link_before iv cur v) (\<lambda>v. Inr (True, v)))
          else eval_loop iv (next c) v)"

definition eval_insert :: "'d::linorder IndexVal \<Rightarrow> 'd NNVector \<Rightarrow> 'd NNVector exec" where
  "eval_insert iv v =
     (if nn_size v = 0 then Some (link_first iv v)
      else case deref (nn_heap v) (Some (sentinel v)) of
        Inl e \<Rightarrow> Some (Inl e)
      | Inr sn \<Rightarrow>
          bindX (eval_loop iv (next sn) v) (\<lambda>(insert_flag, v).
            if nn_size v < unat (k v) \<and> \<not> insert_flag
            then (let (nn, v) = new_Node iv v in Some (push_back nn v))
            else Some (Inr v)))"

definition NNVector_eval :: "'d::linorder IndexVal \<Rightarrow> 'd NNVector \<Rightarrow> 'd NNVector exec" where
  "NNVector_eval iv v =
     bindX (eval_insert iv v) (\<lambda>v.
     Some (bindE (if nn_size v > unat (k v) then pop_back v else Inr v) (\<lambda>v.
           Inr (invalidate_cache v))))"

text \<open>\<^verbatim>\<open>while (pos++ < index)\<close> and \<^verbatim>\<open>while (pos++ <= index)\<close> along \<open>next\<close>.\<close>

partial_function (option) walk_lt ::
  "'d nn_node heap \<Rightarrow> size_t \<Rightarrow> size_t \<Rightarrow> ptr \<Rightarrow> ptr exec" where
  "walk_lt h pos index cur =
     (if pos < index
      then case deref h cur of
             Inl e \<Rightarrow> Some (Inl e)
           | Inr n \<Rightarrow> walk_lt h (pos + 1) index (next n)
      else Some (Inr cur))"

partial_function (option) walk_le ::
  "'d nn_node heap \<Rightarrow> size_t \<Rightarrow> size_t \<Rightarrow> ptr \<Rightarrow> ptr exec" where
  "walk_le h pos index cur =
     (if pos \<le> index
      then case deref h cur of
             Inl e \<Rightarrow> Some (Inl e)
           | Inr n \<Rightarrow> walk_le h (pos + 1) index (next n)
      else Some (Inr cur))"

definition NNVector_locate :: "size_t \<Rightarrow> 'd NNVector \<Rightarrow> ptr exec" where
  "NNVector_locate index v =
     (case snd (cache v) of
        Some c \<Rightarrow>
          if fst (cache v) = index - 1
          then Some (bindE (deref (nn_heap v) (Some c)) (\<lambda>n. Inr (next n)))
          else if index \<ge> fst (cache v)
               then walk_lt (nn_heap v) (fst (cache v)) index (Some c)
               else walk_le (nn_heap v) 0 index (Some (sentinel v))
      | None \<Rightarrow> walk_le (nn_heap v) 0 index (Some (sentinel v)))"

definition NNVector_nth :: "size_t \<Rightarrow> 'd NNVector \<Rightarrow> ('d IndexVal \<times> 'd NNVector) exec" where
  "NNVector_nth index v =
     (if unat (index + 1) > nn_size v
      then Some (Inl (runtime_error ''Out of bounds index''))
      else bindX (NNVector_locate index v) (\<lambda>cur.
           let v = update_cache index cur v in
           if cur = None then Some (Inl assert_failure)
           else Some (bindE (deref (nn_heap v) cur) (\<lambda>n. Inr (data n, v)))))"

text \<open>
  \<^verbatim>\<open>operator==\<close> against a list of values indexed from 0, position by position;
  \<open>other\<close> reads the other operand. Comparison of entries is by value.
\<close>

fun NNVector_eq_loop ::
  "(nat \<Rightarrow> 'd IndexVal result) \<Rightarrow> nat \<Rightarrow> nat \<Rightarrow> 'd NNVector \<Rightarrow> (bool \<times> 'd NNVector) exec" where
  "NNVector_eq_loop other i 0 v = Some (Inr (True, v))"
| "NNVector_eq_loop other i (Suc n) v =
     (case other i of
        Inl e \<Rightarrow> Some (Inl e)
      | Inr o_i \<Rightarrow>
          bindX (NNVector_nth (word_of_nat i) v) (\<lambda>(t_i, v).
            if IndexVal_neq o_i t_i then Some (Inr (False, v))
            else NNVector_eq_loop other (i + 1) n v))"

definition NNVector_eq_IndexVector ::
  "'d IndexVector \<Rightarrow> 'd NNVector \<Rightarrow> (bool \<times> 'd NNVector) exec" where
  "NNVector_eq_IndexVector iv v =
     (if length (items iv) \<noteq> nn_size v then Some (Inr (False, v))
      else NNVector_eq_loop (IndexVector_nth iv) 0 (nn_size v) v)"

text \<open>\<^verbatim>\<open>operator==\<close> against another vector: both operands read through their caches.\<close>

fun NNVector_eq2_loop ::
  "nat \<Rightarrow> nat \<Rightarrow> 'd NNVector \<Rightarrow> 'd NNVector \<Rightarrow> (bool \<times> 'd NNVector \<times> 'd NNVector) exec" where
  "NNVector_eq2_loop i 0 w v = Some (Inr (True, w, v))"
| "NNVector_eq2_loop i (Suc n) w v =
     bindX (NNVector_nth (word_of_nat i) w) (\<lambda>(o_i, w).
     bindX (NNVector_nth (word_of_nat i) v) (\<lambda>(t_i, v).
       if IndexVal_neq o_i t_i then Some (Inr (False, w, v))
       else NNVector_eq2_loop (i + 1) n w v))"

definition NNVector_eq ::
  "'d NNVector \<Rightarrow> 'd NNVector \<Rightarrow> (bool \<times> 'd NNVector \<times> 'd NNVector) exec" where
  "NNVector_eq w v =
     (if nn_size w \<noteq> nn_size v then Some (Inr (False, w, v))
      else NNVector_eq2_loop 0 (nn_size v) w v)"

text \<open>The loops of \<^verbatim>\<open>to_IndexVector\<close> and \<^verbatim>\<open>find\<close>, which do not advance \<open>cur\<close>.\<close>

partial_function (option) to_IndexVector_loop ::
  "ptr \<Rightarrow> 'd IndexVector \<Rightarrow> 'd NNVector \<Rightarrow> 'd IndexVector exec" where
  "to_IndexVector_loop cur ret v =
     (if cur = Some (sentinel v) then Some (Inr ret)
      else case deref (nn_heap v) cur of
        Inl e \<Rightarrow> Some (Inl e)
      | Inr c \<Rightarrow> to_IndexVector_loop cur (IndexVector_append (data c) ret) v)"

definition to_IndexVector :: "'d NNVector \<Rightarrow> 'd IndexVector exec" where
  "to_IndexVector v =
     (case deref (nn_heap v) (Some (sentinel v)) of
        Inl e \<Rightarrow> Some (Inl e)
      | Inr sn \<Rightarrow> to_IndexVector_loop (next sn) IndexVector_new v)"

partial_function (option) NNVector_find_loop ::
  "'d IndexVal \<Rightarrow> ptr \<Rightarrow> 'd NNVector \<Rightarrow> bool exec" where
  "NNVector_find_loop iv cur v =
     (if cur = Some (sentinel v) then Some (Inr False)
      else case deref (nn_heap v) cur of
        Inl e \<Rightarrow> Some (Inl e)
      | Inr c \<Rightarrow>
          if IndexVal_eq (data c) iv then Some (Inr True) else NNVector_find_loop iv cur v)"

definition NNVector_find :: "'d IndexVal \<Rightarrow> 'd NNVector \<Rightarrow> bool exec" where
  "NNVector_find iv v =
     (case deref (nn_heap v) (Some (sentinel v)) of
        Inl e \<Rightarrow> Some (Inl e)
      | Inr sn \<Rightarrow> NNVector_find_loop iv (next sn) v)"

text \<open>The destructor.\<close>

partial_function (option) dtor_loop ::
  "addr \<Rightarrow> ptr \<Rightarrow> ptr \<Rightarrow> 'd nn_node heap \<Rightarrow> 'd nn_node heap exec" where
  "dtor_loop s cur cur_next h =
     (case free_node cur h of
        Inl e \<Rightarrow> Some (Inl e)
      | Inr h \<Rightarrow>
          if cur_next = Some s then Some (Inr h)
          else case deref h cur_next of
            Inl e \<Rightarrow> Some (Inl e)
          | Inr n \<Rightarrow> dtor_loop s cur_next (next n) h)"

definition NNVector_dtor :: "'d NNVector \<Rightarrow> 'd nn_node heap exec" where
  "NNVector_dtor v =
     bindX
       (if nn_size v \<noteq> 0
        then bindX (Some (deref (nn_heap v) (Some (sentinel v)))) (\<lambda>sn.
             bindX (Some (deref (nn_heap v) (next sn))) (\<lambda>c.
             dtor_loop (sentinel v) (next sn) (next c) (nn_heap v)))
        else Some (Inr (nn_heap v)))
       (\<lambda>h. Some (free_node (Some (sentinel v)) h))"

section \<open>The list a heap stands for\<close>

definition nx :: "'d nn_node heap \<Rightarrow> addr \<Rightarrow> ptr" where
  "nx h a = Option.bind (h a) next"

definition pv :: "'d nn_node heap \<Rightarrow> addr \<Rightarrow> ptr" where
  "pv h a = Option.bind (h a) prev"

definition dat :: "'d nn_node heap \<Rightarrow> addr \<rightharpoonup> 'd IndexVal" where
  "dat h a = map_option data (h a)"

lemmas field_defs = nx_def pv_def dat_def

text \<open>Consecutive nodes of a path point at each other.\<close>

fun linked :: "'d nn_node heap \<Rightarrow> addr list \<Rightarrow> bool" where
  "linked h (a # b # xs) \<longleftrightarrow> nx h a = Some b \<and> pv h b = Some a \<and> linked h (b # xs)"
| "linked h _ \<longleftrightarrow> True"

text \<open>
  The heap of \<open>v\<close> holds the sentinel and the nodes \<open>as\<close>, in this order around the
  ring, and nothing else.
\<close>

definition nn_rep :: "'d NNVector \<Rightarrow> addr list \<Rightarrow> bool" where
  "nn_rep v as \<longleftrightarrow>
     distinct (sentinel v # as) \<and>
     linked (nn_heap v) (sentinel v # as @ [sentinel v]) \<and>
     nn_size v = length as \<and>
     dom (nn_heap v) = insert (sentinel v) (set as) \<and>
     (\<forall>a \<in> insert (sentinel v) (set as). a < fresh v)"

definition nn_items :: "'d NNVector \<Rightarrow> addr list \<Rightarrow> 'd IndexVal list" where
  "nn_items v as = map (\<lambda>a. the (dat (nn_heap v) a)) as"

definition cache_ok :: "'d NNVector \<Rightarrow> addr list \<Rightarrow> bool" where
  "cache_ok v as \<longleftrightarrow>
     (case snd (cache v) of
        None \<Rightarrow> True
      | Some a \<Rightarrow> unat (fst (cache v)) < length as \<and> as ! unat (fst (cache v)) = a)"

text \<open>The abstraction: \<open>v\<close> is a well-formed vector that holds the entries \<open>xs\<close>.\<close>

definition nn_abs :: "'d NNVector \<Rightarrow> 'd IndexVal list \<Rightarrow> bool" where
  "nn_abs v xs \<longleftrightarrow>
     length xs \<le> unat (k v) \<and>
     (\<exists>as. nn_rep v as \<and> nn_items v as = xs \<and> cache_ok v as)"

text \<open>What \<open>eval\<close> does to the list of entries.\<close>

definition nn_eval_spec :: "nat \<Rightarrow> 'd::linorder IndexVal \<Rightarrow> 'd IndexVal list \<Rightarrow> 'd IndexVal list" where
  "nn_eval_spec kk iv xs = take kk (insert_gt get_val iv xs)"

lemma linked_append:
  "linked h (xs @ a # ys) \<longleftrightarrow> linked h (xs @ [a]) \<and> linked h (a # ys)"
  by (induction h xs rule: linked.induct) simp_all

lemma linked_cong:
  assumes "\<And>a. a \<in> set (butlast xs) \<Longrightarrow> nx h' a = nx h a"
    and "\<And>a. a \<in> set (tl xs) \<Longrightarrow> pv h' a = pv h a"
  shows "linked h' xs = linked h xs"
  using assms
proof (induction h xs rule: linked.induct)
  case (1 h a b xs)
  have "linked h' (b # xs) = linked h (b # xs)"
    by (rule "1.IH") (use "1.prems" in \<open>auto split: if_splits intro: in_set_butlastD\<close>)
  with "1.prems" show ?case by auto
qed auto

text \<open>
  \<open>h'\<close> is \<open>h\<close> with a new node \<open>n\<close> that holds \<open>iv\<close>, linked between \<open>p\<close> and \<open>c\<close>.
\<close>

definition spliced ::
  "'d nn_node heap \<Rightarrow> addr \<Rightarrow> addr \<Rightarrow> addr \<Rightarrow> 'd IndexVal \<Rightarrow> 'd nn_node heap \<Rightarrow> bool" where
  "spliced h n p c iv h' \<longleftrightarrow>
     nx h' = (nx h)(p := Some n, n := Some c) \<and>
     pv h' = (pv h)(c := Some n, n := Some p) \<and>
     dat h' = (dat h)(n \<mapsto> iv)"

lemma linked_splice:
  assumes "linked h (xs @ p # c # ys)" and "spliced h n p c iv h'"
    and "distinct (butlast (xs @ p # c # ys))" and "distinct (tl (xs @ p # c # ys))"
    and "n \<notin> set (xs @ p # c # ys)"
  shows "linked h' (xs @ p # n # c # ys)"
proof -
  have l: "linked h (xs @ [p])" "linked h (c # ys)"
    using assms(1) linked_append [of h xs p "c # ys"] by simp_all
  have "butlast (xs @ p # c # ys) = xs @ p # butlast (c # ys)"
    by (simp add: butlast_append)
  then have b: "p \<notin> set xs" "p \<notin> set (butlast (c # ys))" using assms(3) by auto
  have "tl (xs @ p # c # ys) = tl (xs @ [p]) @ c # ys" by (cases xs) simp_all
  then have t: "c \<notin> set (tl (xs @ [p]))" "c \<notin> set ys" using assms(4) by auto
  have n: "n \<notin> set xs" "n \<notin> set (tl (xs @ [p]))" "n \<notin> set (butlast (c # ys))" "n \<notin> set ys"
    using assms(5) by (auto dest!: in_set_butlastD list.set_sel(2) [rotated])
  have "linked h' (xs @ [p]) = linked h (xs @ [p])"
    by (rule linked_cong) (use assms(2) b t n in \<open>auto simp: spliced_def\<close>)
  moreover have "linked h' (c # ys) = linked h (c # ys)"
    by (rule linked_cong) (use assms(2) b t n in \<open>auto simp: spliced_def\<close>)
  moreover have "nx h' p = Some n" "nx h' n = Some c" "pv h' n = Some p" "pv h' c = Some n"
    using assms(2,5) by (auto simp: spliced_def)
  ultimately show ?thesis using l linked_append [of h' xs p "n # c # ys"] by simp
qed

lemma dom_dat: "dom (dat h) = dom h"
  by (auto simp: dat_def)

lemma linkedD:
  "linked h (xs @ a # b # ys) \<Longrightarrow> nx h a = Some b \<and> pv h b = Some a"
  using linked_append [of h xs a "b # ys"] by simp

lemma nn_rep_split:
  assumes "nn_rep v (as1 @ as2)"
  obtains p c where "p = last (sentinel v # as1)" and "c = hd (as2 @ [sentinel v])"
    and "sentinel v # (as1 @ as2) @ [sentinel v]
         = butlast (sentinel v # as1) @ p # c # tl (as2 @ [sentinel v])"
    and "nx (nn_heap v) p = Some c" and "pv (nn_heap v) c = Some p"
proof -
  let ?p = "last (sentinel v # as1)" and ?c = "hd (as2 @ [sentinel v])"
  have "sentinel v # (as1 @ as2) @ [sentinel v] = (sentinel v # as1) @ (as2 @ [sentinel v])"
    by simp
  also have "\<dots> = (butlast (sentinel v # as1) @ [?p]) @ (?c # tl (as2 @ [sentinel v]))"
    by (metis append_butlast_last_id append_is_Nil_conv list.collapse list.distinct(1))
  also have "\<dots> = butlast (sentinel v # as1) @ ?p # ?c # tl (as2 @ [sentinel v])"
    by (metis append.assoc append_Cons append_Nil)
  finally have e: "sentinel v # (as1 @ as2) @ [sentinel v]
      = butlast (sentinel v # as1) @ ?p # ?c # tl (as2 @ [sentinel v])" .
  have "linked (nn_heap v) (sentinel v # (as1 @ as2) @ [sentinel v])"
    using assms by (simp add: nn_rep_def)
  then have "nx (nn_heap v) ?p = Some ?c \<and> pv (nn_heap v) ?c = Some ?p"
    unfolding e by (rule linkedD)
  then show ?thesis using that [OF refl refl e] by blast
qed

lemma nn_rep_links:
  assumes "nn_rep v (as1 @ as2)"
  shows "nx (nn_heap v) (last (sentinel v # as1)) = Some (hd (as2 @ [sentinel v]))"
    and "pv (nn_heap v) (hd (as2 @ [sentinel v])) = Some (last (sentinel v # as1))"
  using nn_rep_split [OF assms] by metis+

lemma nn_rep_splice:
  assumes rep: "nn_rep v (as1 @ as2)"
    and sp: "spliced (nn_heap v) (fresh v) (last (sentinel v # as1)) (hd (as2 @ [sentinel v])) iv h'"
  defines "v' \<equiv> v\<lparr>fresh := fresh v + 1, nn_heap := h', nn_size := nn_size v + 1\<rparr>"
  shows "nn_rep v' (as1 @ fresh v # as2)"
    and "nn_items v' (as1 @ fresh v # as2) = nn_items v as1 @ iv # nn_items v as2"
proof -
  let ?s = "sentinel v" and ?n = "fresh v"
  obtain p c where p: "p = last (?s # as1)" and c: "c = hd (as2 @ [?s])"
    and e: "?s # (as1 @ as2) @ [?s] = butlast (?s # as1) @ p # c # tl (as2 @ [?s])"
    using nn_rep_split [OF rep] by metis
  have fr: "?n \<notin> set (?s # (as1 @ as2) @ [?s])"
    using rep by (auto simp: nn_rep_def)
  have "linked h' (butlast (?s # as1) @ p # ?n # c # tl (as2 @ [?s]))"
  proof (rule linked_splice)
    show "linked (nn_heap v) (butlast (?s # as1) @ p # c # tl (as2 @ [?s]))"
      using rep unfolding e [symmetric] by (simp add: nn_rep_def)
    show "spliced (nn_heap v) ?n p c iv h'" using sp p c by simp
    show "distinct (butlast (butlast (?s # as1) @ p # c # tl (as2 @ [?s])))"
      using rep unfolding e [symmetric] by (simp add: nn_rep_def butlast_append)
    show "distinct (tl (butlast (?s # as1) @ p # c # tl (as2 @ [?s])))"
      using rep unfolding e [symmetric] by (auto simp: nn_rep_def)
    show "?n \<notin> set (butlast (?s # as1) @ p # c # tl (as2 @ [?s]))"
      using fr unfolding e .
  qed
  moreover have "butlast (?s # as1) @ p # ?n # c # tl (as2 @ [?s])
      = ?s # (as1 @ ?n # as2) @ [?s]"
  proof -
    have "butlast (?s # as1) @ [p] = ?s # as1" using p by (metis append_butlast_last_id list.distinct(1))
    moreover have "c # tl (as2 @ [?s]) = as2 @ [?s]" using c by (cases as2) simp_all
    ultimately show ?thesis by (metis append.assoc append_Cons append_Nil)
  qed
  ultimately have lk: "linked h' (?s # (as1 @ ?n # as2) @ [?s])" by simp
  have dh: "dom h' = insert ?n (dom (nn_heap v))"
    using sp dom_dat [of h'] by (simp add: spliced_def dom_dat)
  show "nn_rep v' (as1 @ ?n # as2)"
    using rep fr lk dh by (auto simp: nn_rep_def v'_def less_Suc_eq)
  show "nn_items v' (as1 @ ?n # as2) = nn_items v as1 @ iv # nn_items v as2"
    using sp fr by (auto simp: nn_items_def v'_def spliced_def)
qed

section \<open>The pointer writes splice one node\<close>

lemma nn_rep_fresh: "nn_rep v as \<Longrightarrow> fresh v \<notin> dom (nn_heap v)"
  by (auto simp: nn_rep_def)

lemma nx_SomeD: "nx h a = Some b \<Longrightarrow> \<exists>n. h a = Some n \<and> next n = Some b"
  by (cases "h a") (auto simp: nx_def)

lemma pv_SomeD: "pv h a = Some b \<Longrightarrow> \<exists>n. h a = Some n \<and> prev n = Some b"
  by (cases "h a") (auto simp: pv_def)

lemma spliced_heap:
  assumes "h p = Some pn" and "h c = Some cn" and "p \<noteq> c" and "f \<noteq> p" and "f \<noteq> c"
  shows "spliced h f p c iv
    (h(p \<mapsto> pn\<lparr>next := Some f\<rparr>, c \<mapsto> cn\<lparr>prev := Some f\<rparr>,
       f \<mapsto> \<lparr>prev = Some p, next = Some c, data = iv\<rparr>))"
  using assms by (auto simp: spliced_def field_defs fun_eq_iff)

lemma spliced_heap_empty:
  assumes "h p = Some pn" and "f \<noteq> p"
  shows "spliced h f p p iv
    (h(p \<mapsto> pn\<lparr>next := Some f, prev := Some f\<rparr>,
       f \<mapsto> \<lparr>prev = Some p, next = Some p, data = iv\<rparr>))"
  using assms by (auto simp: spliced_def field_defs fun_eq_iff)

lemma link_first_spliced:
  assumes "nn_rep v []"
  shows "\<exists>h'. link_first iv v = Inr (v\<lparr>fresh := fresh v + 1, nn_heap := h', nn_size := nn_size v + 1\<rparr>)
    \<and> spliced (nn_heap v) (fresh v) (sentinel v) (sentinel v) iv h'"
proof -
  from assms have fr: "fresh v \<noteq> sentinel v" and s: "sentinel v \<in> dom (nn_heap v)"
    by (auto simp: nn_rep_def)
  from s obtain sn where sn: "nn_heap v (sentinel v) = Some sn" by blast
  show ?thesis
    by (rule exI, rule conjI [OF _ spliced_heap_empty [of "nn_heap v" "sentinel v", OF sn fr]])
       (use sn fr in \<open>simp add: link_first_def new_Node_def mutate_Some Let_def\<close>)
qed

lemma link_before_spliced:
  assumes "nx (nn_heap v) p = Some c" and "pv (nn_heap v) c = Some p"
    and "p \<noteq> c" and "fresh v \<notin> dom (nn_heap v)"
  shows "\<exists>h'. link_before iv (Some c) v
      = Inr (v\<lparr>fresh := fresh v + 1, nn_heap := h', nn_size := nn_size v + 1\<rparr>)
    \<and> spliced (nn_heap v) (fresh v) p c iv h'"
proof -
  obtain pn cn where n: "nn_heap v p = Some pn" "nn_heap v c = Some cn" "prev cn = Some p"
    using nx_SomeD [OF assms(1)] pv_SomeD [OF assms(2)] by blast
  with assms(4) have fr: "fresh v \<noteq> p" "fresh v \<noteq> c" by auto
  show ?thesis
    by (rule exI, rule conjI [OF _ spliced_heap [OF n(1,2) assms(3) fr]])
       (use n fr assms(3) in \<open>simp add: link_before_def new_Node_def mutate_Some deref_Some\<close>)
qed

lemma push_back_spliced:
  assumes rep: "nn_rep v as" and ne: "as \<noteq> []"
  shows "\<exists>h'. (let (nn, w) = new_Node iv v in push_back nn w)
      = Inr (v\<lparr>fresh := fresh v + 1, nn_heap := h', nn_size := nn_size v + 1\<rparr>)
    \<and> spliced (nn_heap v) (fresh v) (last as) (sentinel v) iv h'"
proof -
  obtain p c where p: "p = last (sentinel v # as)" and c: "c = sentinel v"
    and nx: "nx (nn_heap v) p = Some c" and pv: "pv (nn_heap v) c = Some p"
    using nn_rep_split [of v as "[]"] rep by auto
  obtain pn cn where n: "nn_heap v p = Some pn" "nn_heap v c = Some cn" "prev cn = Some p"
    using nx_SomeD [OF nx] pv_SomeD [OF pv] by blast
  have pl: "p = last as" "p \<in> set as" using p ne by auto
  with rep c have pc: "p \<noteq> c" by (auto simp: nn_rep_def)
  have fr: "fresh v \<noteq> p" "fresh v \<noteq> c" using nn_rep_fresh [OF rep] n(1,2) by auto
  have "nn_size v \<noteq> 0" using rep ne by (simp add: nn_rep_def)
  show ?thesis unfolding pl(1) [symmetric] c [symmetric]
    by (rule exI, rule conjI [OF _ spliced_heap [OF n(1,2) pc fr]])
       (use n fr pc c \<open>nn_size v \<noteq> 0\<close> in
         \<open>simp add: push_back_def new_Node_def mutate_Some deref_Some fun_upd_twist\<close>)
qed

section \<open>eval\<close>

lemma insert_gt_split:
  "insert_gt f x ys = takeWhile (\<lambda>y. f y \<le> f x) ys @ x # dropWhile (\<lambda>y. f y \<le> f x) ys"
  by (induction ys) auto

lemma nn_rep_next_sentinel:
  assumes "nn_rep v as"
  shows "\<exists>sn. nn_heap v (sentinel v) = Some sn \<and> next sn = Some (hd (as @ [sentinel v]))"
  using nn_rep_split [of v "[]" as] assms nx_SomeD by (metis append_Nil last_ConsL)

lemma eval_loop_scan:
  assumes "nn_rep v (as1 @ as2)"
  shows "eval_loop iv (Some (hd (as2 @ [sentinel v]))) v =
    (case dropWhile (\<lambda>a. get_val (the (dat (nn_heap v) a)) \<le> get_val iv) as2 of
       [] \<Rightarrow> Some (Inr (False, v))
     | c # _ \<Rightarrow> Some (bindE (link_before iv (Some c) v) (\<lambda>v. Inr (True, v))))"
  using assms
proof (induction as2 arbitrary: as1)
  case Nil
  show ?case by (simp add: eval_loop.simps)
next
  case (Cons a as2)
  have na: "a \<noteq> sentinel v" using Cons.prems by (auto simp: nn_rep_def)
  have "nx (nn_heap v) a = Some (hd (as2 @ [sentinel v]))"
    using nn_rep_split [of v "as1 @ [a]" as2] Cons.prems by auto
  then obtain n where n: "nn_heap v a = Some n" "next n = Some (hd (as2 @ [sentinel v]))"
    using nx_SomeD by blast
  have IH: "eval_loop iv (Some (hd (as2 @ [sentinel v]))) v =
    (case dropWhile (\<lambda>a. get_val (the (dat (nn_heap v) a)) \<le> get_val iv) as2 of
       [] \<Rightarrow> Some (Inr (False, v))
     | c # _ \<Rightarrow> Some (bindE (link_before iv (Some c) v) (\<lambda>v. Inr (True, v))))"
    using Cons.IH [of "as1 @ [a]"] Cons.prems by simp
  show ?case
    using na n IH by (auto simp: eval_loop.simps [of iv "Some a"] deref_Some dat_def not_less)
qed

lemma eval_insert_abs:
  assumes rep: "nn_rep v as" and len: "length as \<le> unat (k v)"
  obtains v' as' where "eval_insert iv v = Some (Inr v')" and "nn_rep v' as'"
    and "k v' = k v" and "cache v' = cache v"
    and "nn_items v' as' =
      (if length as < unat (k v) \<or> as = [] \<or> (\<exists>x \<in> set (nn_items v as). get_val iv < get_val x)
       then insert_gt get_val iv (nn_items v as) else nn_items v as)"
proof -
  let ?P = "\<lambda>a. get_val (the (dat (nn_heap v) a)) \<le> get_val iv"
  let ?v' = "\<lambda>h'. v\<lparr>fresh := fresh v + 1, nn_heap := h', nn_size := nn_size v + 1\<rparr>"
  define as1 where "as1 = takeWhile ?P as"
  define as2 where "as2 = dropWhile ?P as"
  have as: "as = as1 @ as2" by (simp add: as1_def as2_def)
  have ins: "insert_gt get_val iv (nn_items v as) = nn_items v as1 @ iv # nn_items v as2"
    by (simp add: insert_gt_split nn_items_def as1_def as2_def takeWhile_map dropWhile_map comp_def)
  have fr: "fresh v \<notin> dom (nn_heap v)" using rep by (rule nn_rep_fresh)
  note that' = that [of "?v' h'" "as1 @ fresh v # as2" for h']
  show ?thesis
  proof (cases "as = []")
    case True
    then have "nn_size v = 0" using rep by (simp add: nn_rep_def)
    moreover obtain h' where "link_first iv v = Inr (?v' h')"
      "spliced (nn_heap v) (fresh v) (sentinel v) (sentinel v) iv h'"
      using link_first_spliced rep True by blast
    ultimately show ?thesis
      using that' nn_rep_splice [of v as1 as2 iv h'] rep ins as True
      by (simp add: eval_insert_def)
  next
    case ne: False
    then have sz: "nn_size v \<noteq> 0" using rep by (simp add: nn_rep_def)
    obtain sn where sn: "nn_heap v (sentinel v) = Some sn" "next sn = Some (hd (as @ [sentinel v]))"
      using nn_rep_next_sentinel [OF rep] by blast
    note scan = eval_loop_scan [of v "[]" as iv, simplified, OF rep, folded as2_def]
    show ?thesis
    proof (cases as2)
      case (Cons c cs)
      obtain p where p: "p = last (sentinel v # as1)" "nx (nn_heap v) p = Some c"
        "pv (nn_heap v) c = Some p"
        using nn_rep_split [of v as1 as2] rep as Cons by auto
      have "p \<noteq> c" using rep as Cons p(1) by (auto simp: nn_rep_def split: if_splits)
      then obtain h' where h': "link_before iv (Some c) v = Inr (?v' h')"
        "spliced (nn_heap v) (fresh v) p c iv h'"
        using link_before_spliced p(2,3) fr by blast
      have "\<not> ?P c" using Cons unfolding as2_def by (metis hd_dropWhile list.distinct(1) list.sel(1))
      then have "\<exists>x \<in> set (nn_items v as). get_val iv < get_val x"
        using as Cons by (auto simp: nn_items_def)
      then show ?thesis
        using that' nn_rep_splice [of v as1 as2 iv h'] rep ins as Cons p(1) h' sz sn scan
        by (simp add: eval_insert_def deref_Some)
    next
      case Nil
      then have le: "\<forall>a \<in> set as. ?P a" and as1: "as1 = as"
        unfolding as2_def as1_def by (simp_all add: dropWhile_eq_Nil_conv)
      have nle: "\<not> (\<exists>x \<in> set (nn_items v as). get_val iv < get_val x)"
        using le by (auto simp: nn_items_def not_less)
      show ?thesis
      proof (cases "length as < unat (k v)")
        case True
        obtain h' where h': "(let (nn, w) = new_Node iv v in push_back nn w) = Inr (?v' h')"
          "spliced (nn_heap v) (fresh v) (last as) (sentinel v) iv h'"
          using push_back_spliced rep ne by blast
        have szl: "nn_size v = length as" using rep by (simp add: nn_rep_def)
        have ev: "eval_insert iv v = Some (Inr (?v' h'))"
          using h'(1) scan sn sz szl True Nil by (simp add: eval_insert_def deref_Some new_Node_def)
        have sp: "spliced (nn_heap v) (fresh v) (last (sentinel v # as1)) (hd (as2 @ [sentinel v])) iv h'"
          using h'(2) ne Nil as1 by simp
        note r = nn_rep_splice [of v as1 as2, OF rep [unfolded as] sp]
        show ?thesis
          by (rule that [OF ev r(1)]) (use r(2) ins True in simp_all)
      next
        case False
        moreover have "nn_size v = length as" using rep by (simp add: nn_rep_def)
        ultimately show ?thesis
          using that [of v as] rep ne Nil sz sn scan nle by (simp add: eval_insert_def deref_Some)
      qed
    qed
  qed
qed

lemma pop_back_abs:
  assumes rep: "nn_rep v (as @ [d])"
  obtains v' where "pop_back v = Inr v'" and "nn_rep v' as" and "nn_items v' as = nn_items v as"
    and "k v' = k v" and "snd (cache v') = None"
proof -
  let ?s = "sentinel v" and ?h = "nn_heap v"
  define p where "p = last (?s # as)"
  have d: "nx ?h p = Some d" "pv ?h d = Some p"
    using nn_rep_links [of v as "[d]", OF rep] by (simp_all only: p_def append_Cons list.sel)
  have s: "nx ?h d = Some ?s" "pv ?h ?s = Some d"
    using nn_rep_links [of v "as @ [d]" "[]"] rep by simp_all
  obtain pn dn sn where n: "?h p = Some pn" "?h d = Some dn" "prev dn = Some p"
    "?h ?s = Some sn" "prev sn = Some d"
    using nx_SomeD [OF d(1)] pv_SomeD [OF d(2)] pv_SomeD [OF s(2)] by blast
  have ne: "d \<noteq> ?s" "d \<noteq> p" "d \<notin> set as" "nn_size v \<noteq> 0"
    using rep by (auto simp: nn_rep_def p_def)
  define h' where "h' = (if p = ?s then ?h(?s \<mapsto> sn\<lparr>next := Some ?s, prev := Some ?s\<rparr>, d := None)
    else ?h(p \<mapsto> pn\<lparr>next := Some ?s\<rparr>, ?s \<mapsto> sn\<lparr>prev := Some p\<rparr>, d := None))"
  define v' where "v' = invalidate_cache (v\<lparr>nn_heap := h', nn_size := nn_size v - 1\<rparr>)"
  have fields: "nx h' = (nx ?h)(p := Some ?s, d := None)" "pv h' = (pv ?h)(?s := Some p, d := None)"
    "dat h' = (dat ?h)(d := None)"
    using n ne by (auto simp: h'_def field_defs fun_eq_iff)
  have "pop_back v = Inr v'"
    using n ne by (auto simp: pop_back_def deref_Some mutate_Some v'_def h'_def Let_def)
  moreover have "linked h' (?s # as @ [?s])"
  proof -
    define bs where "bs = butlast (?s # as)"
    have b: "?s # as = bs @ [p]"
      unfolding p_def bs_def by (rule append_butlast_last_id [symmetric]) simp
    have "distinct (bs @ [p])" using rep unfolding b [symmetric] by (simp add: nn_rep_def)
    then have db: "p \<notin> set bs" by simp
    have "linked ?h ((?s # as) @ [d, ?s])" using rep by (simp add: nn_rep_def)
    then have "linked ?h (bs @ [p])"
      unfolding b using linked_append [of ?h bs p "[d, ?s]"] by simp
    moreover have "linked h' (bs @ [p]) = linked ?h (bs @ [p])"
    proof (rule linked_cong)
      fix a assume "a \<in> set (butlast (bs @ [p]))"
      then have "a \<in> set bs" by simp
      moreover from this have "a \<in> set (?s # as)" unfolding b by simp
      ultimately show "nx h' a = nx ?h a" using db ne fields(1) by auto
    next
      fix a assume "a \<in> set (tl (bs @ [p]))"
      then have "a \<in> set as" unfolding b [symmetric] by simp
      then show "pv h' a = pv ?h a" using rep ne fields(2) by (auto simp: nn_rep_def)
    qed
    ultimately have "linked h' (bs @ p # [?s])"
      using linked_append [of h' bs p "[?s]"] fields ne by simp
    then have "linked h' ((bs @ [p]) @ [?s])" by simp
    then show ?thesis unfolding b [symmetric] by simp
  qed
  moreover have "dom h' = dom ?h - {d}"
    using n ne by (auto simp: h'_def)
  ultimately have "pop_back v = Inr v'" "nn_rep v' as"
    using rep ne by (auto simp: nn_rep_def v'_def invalidate_cache_def)
  moreover have "nn_items v' as = nn_items v as"
    using fields ne by (auto simp: nn_items_def v'_def invalidate_cache_def)
  ultimately show ?thesis
    using that by (simp add: v'_def invalidate_cache_def)
qed

lemma nn_abs_new: "nn_abs (NNVector_new fmax kk) []"
proof -
  let ?v = "NNVector_new fmax kk"
  have "nn_rep ?v [] \<and> nn_items ?v [] = [] \<and> cache_ok ?v []"
    by (simp add: nn_rep_def nn_items_def cache_ok_def NNVector_new_def nx_def pv_def)
  then show ?thesis by (auto simp: nn_abs_def)
qed

lemma k_NNVector_new [simp]: "k (NNVector_new fmax kk) = kk"
  by (simp add: NNVector_new_def)

lemma length_nn_items [simp]: "length (nn_items v as) = length as"
  by (simp add: nn_items_def)

lemma length_nn_eval_spec [simp]: "length (nn_eval_spec kk iv xs) = min kk (Suc (length xs))"
  by (simp add: nn_eval_spec_def)

lemma nn_abs_invalidate:
  assumes "nn_rep v as" and "nn_items v as = xs" and "length xs \<le> unat (k v)"
  shows "nn_abs (invalidate_cache v) xs"
proof -
  have "nn_rep (invalidate_cache v) as" "nn_items (invalidate_cache v) as = xs"
    "cache_ok (invalidate_cache v) as" "k (invalidate_cache v) = k v"
    using assms by (auto simp: invalidate_cache_def nn_rep_def nn_items_def cache_ok_def)
  with assms(3) show ?thesis unfolding nn_abs_def by auto
qed

lemma NNVector_eval_abs:
  assumes "nn_abs v xs"
  obtains v' where "NNVector_eval iv v = Some (Inr v')"
    and "nn_abs v' (nn_eval_spec (unat (k v)) iv xs)" and "k v' = k v"
proof -
  obtain as where rep: "nn_rep v as" and xs: "nn_items v as = xs" and len: "length as \<le> unat (k v)"
    using assms by (auto simp: nn_abs_def)
  obtain v1 as1 where v1: "eval_insert iv v = Some (Inr v1)" "nn_rep v1 as1" "k v1 = k v"
    and it: "nn_items v1 as1 =
      (if length as < unat (k v) \<or> as = [] \<or> (\<exists>x \<in> set (nn_items v as). get_val iv < get_val x)
       then insert_gt get_val iv (nn_items v as) else nn_items v as)"
    using eval_insert_abs [OF rep len] by metis
  have sz: "nn_size v1 = length as1" using v1(2) by (simp add: nn_rep_def)
  have keep: "nn_eval_spec (unat (k v)) iv xs = xs"
    if "\<not> (length as < unat (k v) \<or> as = [] \<or> (\<exists>x \<in> set (nn_items v as). get_val iv < get_val x))"
  proof -
    from that have "insert_gt get_val iv xs = xs @ [iv]"
      unfolding xs by (intro insert_gt_all_le) (auto simp: not_less)
    with that xs len show ?thesis by (auto simp: nn_eval_spec_def)
  qed
  show ?thesis
  proof (cases "nn_size v1 > unat (k v1)")
    case True
    then obtain bs d where as1: "as1 = bs @ [d]"
      using sz by (metis less_nat_zero_code list.size(3) rev_exhaust)
    obtain v2 where v2: "pop_back v1 = Inr v2" "nn_rep v2 bs" "nn_items v2 bs = nn_items v1 bs"
      "k v2 = k v1"
      using pop_back_abs [of v1 bs d] v1(2) as1 by metis
    let ?v' = "invalidate_cache v2"
    have "length (nn_items v1 as1) \<le> Suc (unat (k v))"
      unfolding it using len by (auto split: if_splits)
    then have lb: "length bs = unat (k v)" using True sz as1 v1(3) by simp
    have "nn_items v1 bs = take (unat (k v)) (nn_items v1 as1)"
      using lb by (simp add: as1 nn_items_def)
    also have "\<dots> = nn_eval_spec (unat (k v)) iv xs"
      using keep it xs len by (auto simp: nn_eval_spec_def)
    finally have "nn_items v2 bs = nn_eval_spec (unat (k v)) iv xs" using v2(3) by simp
    then have "nn_abs ?v' (nn_eval_spec (unat (k v)) iv xs)"
      by (rule nn_abs_invalidate [OF v2(2)]) (simp add: v2(4) v1(3))
    moreover have "NNVector_eval iv v = Some (Inr ?v')"
      using v1(1) v2(1) True by (simp add: NNVector_eval_def)
    moreover have "k ?v' = k v" using v1(3) v2(4) by (simp add: invalidate_cache_def)
    ultimately show ?thesis using that by blast
  next
    case False
    let ?v' = "invalidate_cache v1"
    have "length (nn_items v1 as1) \<le> unat (k v)" using False sz v1(3) by simp
    then have "nn_items v1 as1 = nn_eval_spec (unat (k v)) iv xs"
      using it keep unfolding xs by (auto simp: nn_eval_spec_def split: if_splits)
    then have "nn_abs ?v' (nn_eval_spec (unat (k v)) iv xs)"
      by (rule nn_abs_invalidate [OF v1(2)]) (simp add: v1(3))
    moreover have "NNVector_eval iv v = Some (Inr ?v')"
      using v1(1) False by (simp add: NNVector_eval_def)
    moreover have "k ?v' = k v" using v1(3) by (simp add: invalidate_cache_def)
    ultimately show ?thesis using that by blast
  qed
qed

section \<open>The specification keeps the k smallest values\<close>

lemma nn_eval_spec_vals:
  assumes "map get_val xs = take kk (sort ws)"
  shows "map get_val (nn_eval_spec kk iv xs) = take kk (sort (ws @ [get_val iv]))"
proof -
  have "sorted (map get_val xs)" using assms by (simp add: sorted_wrt_take)
  then have "map get_val (nn_eval_spec kk iv xs) = take kk (insort (get_val iv) (map get_val xs))"
    by (simp add: nn_eval_spec_def map_key_insert_gt flip: take_map)
  also have "\<dots> = take kk (insort (get_val iv) (sort ws))"
    by (simp add: assms take_insort_take)
  finally show ?thesis by (simp add: sort_snoc)
qed

lemma fold_nn_eval_spec_vals:
  assumes "map get_val xs = take kk (sort ws)"
  shows "map get_val (fold (nn_eval_spec kk) ivs xs) = take kk (sort (ws @ map get_val ivs))"
  using assms
proof (induction ivs arbitrary: xs ws)
  case (Cons iv ivs)
  from Cons.IH [OF nn_eval_spec_vals [OF Cons.prems]] show ?case by simp
qed simp

lemma fold_nn_eval_spec_mset:
  "mset (fold (nn_eval_spec kk) ivs xs) \<subseteq># mset (xs @ ivs)"
proof (induction ivs arbitrary: xs)
  case (Cons iv ivs)
  have "mset (nn_eval_spec kk iv xs) \<subseteq># add_mset iv (mset xs)"
    by (metis mset_insert_gt mset_subset_eq_add_left nn_eval_spec_def append_take_drop_id mset_append)
  then have "mset (nn_eval_spec kk iv xs @ ivs) \<subseteq># mset (xs @ iv # ivs)"
    by (simp add: mset_subset_eq_mono_add)
  with Cons.IH [of "nn_eval_spec kk iv xs"] show ?case
    using subset_mset.order_trans by fastforce
qed simp

section \<open>The interface of a collector of nearest neighbours\<close>

text \<open>
  What a query relies on: a state that holds a list of entries, and an \<open>eval\<close> that
  always returns and acts on the list as \<open>nn_eval_spec\<close> does.
\<close>

locale nn_collector =
  fixes holds :: "'v \<Rightarrow> 'd::linorder IndexVal list \<Rightarrow> bool"
    and capacity :: "'v \<Rightarrow> nat"
    and eval :: "'d IndexVal \<Rightarrow> 'v \<Rightarrow> 'v exec"
  assumes eval_holds: "holds v xs \<Longrightarrow>
    \<exists>v'. eval iv v = Some (Inr v') \<and> holds v' (nn_eval_spec (capacity v) iv xs) \<and>
         capacity v' = capacity v"
begin

lemma eval_all_holds:
  "holds v xs \<Longrightarrow>
    \<exists>v'. foldX eval ivs v = Some (Inr v') \<and> holds v' (fold (nn_eval_spec (capacity v)) ivs xs) \<and>
         capacity v' = capacity v"
proof (induction ivs arbitrary: v xs)
  case (Cons iv ivs)
  obtain v1 where v1: "eval iv v = Some (Inr v1)" "holds v1 (nn_eval_spec (capacity v) iv xs)"
    "capacity v1 = capacity v"
    using eval_holds [OF Cons.prems] by blast
  with Cons.IH [OF v1(2)] show ?case by auto
qed simp

lemma eval_all_nearest:
  assumes "holds v []"
  shows "\<exists>v' xs. foldX eval ivs v = Some (Inr v') \<and> holds v' xs \<and> mset xs \<subseteq># mset ivs \<and>
    map get_val xs = take (capacity v) (sort (map get_val ivs))"
proof -
  let ?xs = "fold (nn_eval_spec (capacity v)) ivs []"
  have "map get_val ?xs = take (capacity v) (sort ([] @ map get_val ivs))"
    by (rule fold_nn_eval_spec_vals) simp
  moreover have "mset ?xs \<subseteq># mset ([] @ ivs)" by (rule fold_nn_eval_spec_mset)
  ultimately show ?thesis using eval_all_holds [OF assms, of ivs] by auto
qed

end

interpretation nnv: nn_collector nn_abs "\<lambda>v. unat (k v)" NNVector_eval
proof unfold_locales
  fix v :: "'a NNVector" and xs iv
  assume "nn_abs v xs"
  then obtain v' where "NNVector_eval iv v = Some (Inr v')"
    "nn_abs v' (nn_eval_spec (unat (k v)) iv xs)" "k v' = k v"
    by (rule NNVector_eval_abs)
  then show "\<exists>v'. NNVector_eval iv v = Some (Inr v') \<and>
      nn_abs v' (nn_eval_spec (unat (k v)) iv xs) \<and> unat (k v') = unat (k v)"
    by auto
qed

section \<open>Reading by position\<close>

lemma nn_rep_nth:
  assumes rep: "nn_rep v as" and i: "i < length as"
  obtains n where "nn_heap v (as ! i) = Some n" and "next n = Some ((as @ [sentinel v]) ! Suc i)"
    and "data n = nn_items v as ! i"
proof -
  have "nn_rep v (take (Suc i) as @ drop (Suc i) as)" using rep by simp
  note l = nn_rep_links(1) [OF this]
  have "last (sentinel v # take (Suc i) as) = as ! i"
    using i by (auto simp: take_Suc_conv_app_nth)
  moreover have "hd (drop (Suc i) as @ [sentinel v]) = (as @ [sentinel v]) ! Suc i"
  proof (cases "Suc i < length as")
    case True
    then show ?thesis by (simp add: nth_append hd_append hd_drop_conv_nth)
  next
    case False
    with i have "Suc i = length as" by simp
    then show ?thesis by (simp add: nth_append)
  qed
  ultimately have "nx (nn_heap v) (as ! i) = Some ((as @ [sentinel v]) ! Suc i)"
    using l by simp
  then show ?thesis
    using that nx_SomeD i by (fastforce simp: nn_items_def dat_def)
qed

lemma walk_lt_abs:
  assumes rep: "nn_rep v as" and idx: "unat index < length as" and "pos \<le> index"
  shows "walk_lt (nn_heap v) pos index (Some (as ! unat pos)) = Some (Inr (Some (as ! unat index)))"
  using assms(3)
proof (induction "unat index - unat pos" arbitrary: pos)
  case 0
  then have "pos = index" by (simp add: word_le_nat_alt word_unat_eq_iff)
  then show ?case by (simp add: walk_lt.simps)
next
  case (Suc m)
  have lt: "pos < index" using Suc.hyps(2) by (simp add: word_less_nat_alt)
  have "pos \<noteq> - 1" using lt by (metis word_n1_ge not_less)
  note S = unat_Suc_word [OF this]
  have i: "unat pos < length as" "Suc (unat pos) < length as"
    using lt idx by (simp_all add: word_less_nat_alt)
  obtain n where n: "nn_heap v (as ! unat pos) = Some n"
    "next n = Some ((as @ [sentinel v]) ! Suc (unat pos))"
    using nn_rep_nth [OF rep i(1)] by metis
  have "walk_lt (nn_heap v) (pos + 1) index (Some (as ! unat (pos + 1)))
      = Some (Inr (Some (as ! unat index)))"
    using Suc.hyps(1) [of "pos + 1"] Suc.hyps(2) lt S
    by (simp add: word_le_nat_alt word_less_nat_alt)
  then show ?case
    using lt n i S by (simp add: walk_lt.simps [of _ pos] deref_Some nth_append)
qed

lemma walk_le_abs:
  assumes rep: "nn_rep v as" and idx: "unat index < length as" and big: "index \<noteq> - 1"
    and "unat pos \<le> Suc (unat index)"
  shows "walk_le (nn_heap v) pos index (Some ((sentinel v # as) ! unat pos))
    = Some (Inr (Some (as ! unat index)))"
  using assms(4)
proof (induction "Suc (unat index) - unat pos" arbitrary: pos)
  case 0
  then have "unat pos = Suc (unat index)" by simp
  then show ?case by (simp add: walk_le.simps word_le_nat_alt)
next
  case (Suc m)
  have le: "pos \<le> index" using Suc.hyps(2) by (simp add: word_le_nat_alt)
  have "pos \<noteq> - 1" using le big by (metis word_n1_ge antisym)
  note S = unat_Suc_word [OF this]
  have "unat pos \<le> unat index" using le by (simp add: word_le_nat_alt)
  have nxt: "\<exists>n. nn_heap v ((sentinel v # as) ! unat pos) = Some n \<and> next n = Some (as ! unat pos)"
  proof (cases "unat pos")
    case 0
    with idx nn_rep_next_sentinel [OF rep] show ?thesis
      by (metis append_is_Nil_conv gr_implies_not0 hd_append hd_conv_nth length_0_conv nth_Cons_0)
  next
    case (Suc j)
    with \<open>unat pos \<le> unat index\<close> idx have "j < length as" "Suc j < length as" by simp_all
    with Suc show ?thesis using nn_rep_nth [OF rep, of j] by (auto simp: nth_append)
  qed
  have "walk_le (nn_heap v) (pos + 1) index (Some ((sentinel v # as) ! unat (pos + 1)))
      = Some (Inr (Some (as ! unat index)))"
    using Suc.hyps(1) [of "pos + 1"] Suc.hyps(2) \<open>unat pos \<le> unat index\<close> S by simp
  then show ?case
    using le nxt S by (auto simp: walk_le.simps [of _ pos] deref_Some)
qed

lemma small_not_max: "unat w < 2 ^ 32 \<Longrightarrow> (w :: size_t) \<noteq> - 1"
  by (auto simp: unsigned_minus_1_eq_mask mask_eq_exp_minus_1)

lemma nn_abs_length:
  assumes "nn_abs v xs"
  shows "length xs < 2 ^ 32"
proof -
  have "unat (k v) < 2 ^ LENGTH(32)" by (rule unsigned_less)
  with assms show ?thesis by (simp add: nn_abs_def)
qed

lemma NNVector_locate_abs:
  assumes rep: "nn_rep v as" and c: "cache_ok v as"
    and idx: "unat index < length as" and bnd: "length as < 2 ^ 32"
  shows "NNVector_locate index v = Some (Inr (Some (as ! unat index)))"
proof -
  have big: "index \<noteq> - 1" using idx bnd by (intro small_not_max) simp
  have le0: "walk_le (nn_heap v) 0 index (Some (sentinel v)) = Some (Inr (Some (as ! unat index)))"
    using walk_le_abs [OF rep idx big, of 0] by simp
  show ?thesis
  proof (cases "snd (cache v)")
    case None
    with le0 show ?thesis by (simp add: NNVector_locate_def)
  next
    case (Some a)
    let ?f = "fst (cache v)"
    have a: "unat ?f < length as" "as ! unat ?f = a" using c Some by (simp_all add: cache_ok_def)
    show ?thesis
    proof (cases "?f = index - 1")
      case True
      then have f1: "index = ?f + 1" by simp
      have "?f \<noteq> - 1" using a(1) bnd by (intro small_not_max) simp
      then have "unat index = Suc (unat ?f)" using unat_Suc_word f1 by metis
      moreover obtain n where "nn_heap v (as ! unat ?f) = Some n"
        "next n = Some ((as @ [sentinel v]) ! Suc (unat ?f))"
        using nn_rep_nth [OF rep a(1)] by metis
      ultimately show ?thesis
        using Some True a(2) idx by (simp add: NNVector_locate_def deref_Some nth_append)
    next
      case False
      show ?thesis
        using walk_lt_abs [OF rep idx, of ?f] le0 Some False a(2)
        by (simp add: NNVector_locate_def)
    qed
  qed
qed

lemma NNVector_nth_abs:
  assumes abs: "nn_abs v xs" and idx: "unat index < length xs"
  obtains v' where "NNVector_nth index v = Some (Inr (xs ! unat index, v'))" and "nn_abs v' xs"
    and "nn_size v' = nn_size v"
proof -
  obtain as where rep: "nn_rep v as" and xs: "nn_items v as = xs" and c: "cache_ok v as"
    using abs by (auto simp: nn_abs_def)
  have idx': "unat index < length as" and len: "length as < 2 ^ 32"
    using idx nn_abs_length [OF abs] by (simp_all flip: xs)
  have "index \<noteq> - 1" using idx' len by (intro small_not_max) simp
  then have S: "unat (index + 1) = Suc (unat index)" by (rule unat_Suc_word)
  obtain n where n: "nn_heap v (as ! unat index) = Some n" "data n = xs ! unat index"
    using nn_rep_nth [OF rep idx'] xs by metis
  let ?v' = "update_cache index (Some (as ! unat index)) v"
  have "nn_size v = length as" using rep by (simp add: nn_rep_def)
  then have "NNVector_nth index v = Some (Inr (xs ! unat index, ?v'))"
    using NNVector_locate_abs [OF rep c idx' len] n S idx'
    by (simp add: NNVector_nth_def update_cache_def deref_Some)
  moreover have "nn_rep ?v' as" "nn_items ?v' as = xs" "cache_ok ?v' as" "k ?v' = k v"
    using rep xs idx' by (simp_all add: update_cache_def nn_rep_def nn_items_def cache_ok_def)
  then have "nn_abs ?v' xs" using abs by (auto simp: nn_abs_def)
  ultimately show ?thesis by (rule that) (simp add: update_cache_def)
qed

lemma nn_size_abs: "nn_abs v xs \<Longrightarrow> nn_size v = length xs"
  by (auto simp: nn_abs_def nn_rep_def)

lemma NNVector_eq_loop_abs:
  assumes "nn_abs v xs" and "i + n = length xs" and "length (items iv) = length xs"
  obtains v' where "NNVector_eq_loop (IndexVector_nth iv) i n v =
      Some (Inr (map get_val (drop i (items iv)) = map get_val (drop i xs), v'))"
    and "nn_abs v' xs"
  using assms
proof (induction n arbitrary: i v thesis)
  case 0
  from "0.prems"(1) [of v] "0.prems"(2-) show ?case by simp
next
  case (Suc n)
  have i: "i < length xs" "i < length (items iv)" using Suc.prems(3,4) by simp_all
  have "unat (word_of_nat i :: size_t) = i"
    using i(1) nn_abs_length [OF Suc.prems(2)] by (simp add: unat_of_nat)
  then obtain v1 where v1: "NNVector_nth (word_of_nat i) v = Some (Inr (xs ! i, v1))" "nn_abs v1 xs"
    using NNVector_nth_abs [OF Suc.prems(2), of "word_of_nat i"] i(1) by metis
  have dr: "drop i xs = xs ! i # drop (Suc i) xs" "drop i (items iv) = items iv ! i # drop (Suc i) (items iv)"
    using i by (simp_all add: Cons_nth_drop_Suc)
  have nth: "IndexVector_nth iv i = Inr (items iv ! i)" using i(2) by (simp add: IndexVector_nth_def)
  show ?case
  proof (cases "get_val (items iv ! i) = get_val (xs ! i)")
    case True
    obtain v2 where "NNVector_eq_loop (IndexVector_nth iv) (Suc i) n v1 =
      Some (Inr (map get_val (drop (Suc i) (items iv)) = map get_val (drop (Suc i) xs), v2))"
      "nn_abs v2 xs"
      using Suc.IH [where v = v1 and i = "Suc i"] v1(2) Suc.prems(3,4) by auto
    with True v1 show ?thesis
      by (intro Suc.prems(1) [of v2]) (simp_all add: dr nth IndexVal_neq_def)
  next
    case False
    with v1 show ?thesis
      by (intro Suc.prems(1) [of v1]) (simp_all add: dr nth IndexVal_neq_def)
  qed
qed

lemma NNVector_eq_IndexVector_abs:
  assumes "nn_abs v xs"
  shows "\<exists>v'. NNVector_eq_IndexVector iv v =
      Some (Inr (map get_val (items iv) = map get_val xs, v')) \<and> nn_abs v' xs"
proof (cases "length (items iv) = length xs")
  case True
  then show ?thesis
    using NNVector_eq_loop_abs [OF assms, of 0 "length xs" iv] nn_size_abs [OF assms]
    by (auto simp: NNVector_eq_IndexVector_def)
next
  case False
  then have "map get_val (items iv) \<noteq> map get_val xs" by (metis length_map)
  with False nn_size_abs [OF assms] assms show ?thesis by (simp add: NNVector_eq_IndexVector_def)
qed

lemma NNVector_eq2_loop_abs:
  assumes "nn_abs w ys" and "nn_abs v xs" and "i + n = length xs" and "length ys = length xs"
  shows "\<exists>w' v'. NNVector_eq2_loop i n w v =
      Some (Inr (map get_val (drop i ys) = map get_val (drop i xs), w', v')) \<and>
      nn_abs w' ys \<and> nn_abs v' xs"
  using assms
proof (induction n arbitrary: i w v)
  case (Suc n)
  have i: "i < length xs" "i < length ys" using Suc.prems(3,4) by simp_all
  have u: "unat (word_of_nat i :: size_t) = i"
    using i(1) nn_abs_length [OF Suc.prems(2)] by (simp add: unat_of_nat)
  obtain w1 where w1: "NNVector_nth (word_of_nat i) w = Some (Inr (ys ! i, w1))" "nn_abs w1 ys"
    using NNVector_nth_abs [OF Suc.prems(1), of "word_of_nat i"] i(2) u by metis
  obtain v1 where v1: "NNVector_nth (word_of_nat i) v = Some (Inr (xs ! i, v1))" "nn_abs v1 xs"
    using NNVector_nth_abs [OF Suc.prems(2), of "word_of_nat i"] i(1) u by metis
  have dr: "drop i xs = xs ! i # drop (Suc i) xs" "drop i ys = ys ! i # drop (Suc i) ys"
    using i by (simp_all add: Cons_nth_drop_Suc)
  have "i + 1 + n = length xs" using Suc.prems(3) by simp
  from Suc.IH [OF w1(2) v1(2) this Suc.prems(4)] w1 v1 show ?case
    by (auto simp: dr IndexVal_neq_def)
qed simp

section \<open>Loops that do not advance\<close>

lemma walk_le_max_stuck:
  assumes "walk_le h pos index cur = Some r"
    and "index = - 1" and "cur \<in> Some ` A"
    and ring: "\<And>a. a \<in> A \<Longrightarrow> \<exists>n. h a = Some n \<and> next n \<in> Some ` A"
  shows False
proof -
  have "index = - 1 \<longrightarrow> cur \<in> Some ` A \<longrightarrow>
      (\<forall>a \<in> A. \<exists>n. h a = Some n \<and> next n \<in> Some ` A) \<longrightarrow> False"
  proof (rule walk_le.raw_induct [where P = "\<lambda>h pos index cur r. index = - 1 \<longrightarrow>
      cur \<in> Some ` A \<longrightarrow> (\<forall>a \<in> A. \<exists>n. h a = Some n \<and> next n \<in> Some ` A) \<longrightarrow> False",
      OF _ assms(1)])
    fix f and h :: "'a nn_node heap" and pos index :: size_t and cur r
    assume IH: "\<And>h pos index cur r. f h pos index cur = Some r \<Longrightarrow> index = - 1 \<longrightarrow>
        cur \<in> Some ` A \<longrightarrow> (\<forall>a \<in> A. \<exists>n. h a = Some n \<and> next n \<in> Some ` A) \<longrightarrow> False"
      and eq: "(if pos \<le> index then case deref h cur of Inl e \<Rightarrow> Some (Inl e)
          | Inr n \<Rightarrow> f h (pos + 1) index (next n) else Some (Inr cur)) = Some r"
    show "index = - 1 \<longrightarrow> cur \<in> Some ` A \<longrightarrow>
        (\<forall>a \<in> A. \<exists>n. h a = Some n \<and> next n \<in> Some ` A) \<longrightarrow> False"
    proof (intro impI)
      assume a: "index = - 1" "cur \<in> Some ` A" "\<forall>a \<in> A. \<exists>n. h a = Some n \<and> next n \<in> Some ` A"
      then obtain c n where "cur = Some c" "h c = Some n" "next n \<in> Some ` A" by blast
      with eq a(1) have "f h (pos + 1) index (next n) = Some r" by (simp add: deref_Some)
      from IH [OF this] a \<open>next n \<in> Some ` A\<close> show False by blast
    qed
  qed
  with assms show False by blast
qed

lemma nn_rep_ring:
  assumes rep: "nn_rep v as" and "a \<in> insert (sentinel v) (set as)"
  shows "\<exists>n. nn_heap v a = Some n \<and> next n \<in> Some ` insert (sentinel v) (set as)"
proof (cases "a = sentinel v")
  case True
  with nn_rep_next_sentinel [OF rep] show ?thesis by (cases as) auto
next
  case False
  with assms(2) obtain i where i: "i < length as" "a = as ! i" by (auto simp: in_set_conv_nth)
  then obtain n where "nn_heap v a = Some n" "next n = Some ((as @ [sentinel v]) ! Suc i)"
    using nn_rep_nth [OF rep] by metis
  moreover have "(as @ [sentinel v]) ! Suc i \<in> set (as @ [sentinel v])"
    using i(1) by (intro nth_mem) simp
  ultimately show ?thesis by auto
qed

lemma find_loop_stuck:
  assumes "NNVector_find_loop iv cur v = Some r" and "cur \<noteq> Some (sentinel v)"
    and "deref (nn_heap v) cur = Inr c" and "\<not> IndexVal_eq (data c) iv"
  shows False
proof -
  have "cur \<noteq> Some (sentinel v) \<and> deref (nn_heap v) cur = Inr c \<and> \<not> IndexVal_eq (data c) iv \<longrightarrow> False"
    by (rule NNVector_find_loop.raw_induct [where P = "\<lambda>iv cur v r. cur \<noteq> Some (sentinel v) \<and>
        deref (nn_heap v) cur = Inr c \<and> \<not> IndexVal_eq (data c) iv \<longrightarrow> False", OF _ assms(1)])
       (fastforce split: if_splits)
  with assms show False by blast
qed

lemma to_IndexVector_loop_stuck:
  assumes "to_IndexVector_loop cur ret v = Some r" and "cur \<noteq> Some (sentinel v)"
    and "deref (nn_heap v) cur = Inr c"
  shows False
proof -
  have "cur \<noteq> Some (sentinel v) \<and> deref (nn_heap v) cur = Inr c \<longrightarrow> False"
    by (rule to_IndexVector_loop.raw_induct [where P = "\<lambda>cur ret v r. cur \<noteq> Some (sentinel v) \<and>
        deref (nn_heap v) cur = Inr c \<longrightarrow> False", OF _ assms(1)])
       (fastforce split: if_splits)
  with assms show False by blast
qed

lemma nn_abs_first:
  assumes "nn_abs v (x # xs)"
  obtains sn a n where "nn_heap v (sentinel v) = Some sn" and "next sn = Some a"
    and "nn_heap v a = Some n" and "data n = x" and "a \<noteq> sentinel v"
proof -
  obtain as where rep: "nn_rep v as" and xs: "nn_items v as = x # xs"
    using assms by (auto simp: nn_abs_def)
  then obtain a as' where as: "as = a # as'" by (cases as) (auto simp: nn_items_def)
  with nn_rep_next_sentinel [OF rep] nn_rep_nth [OF rep, of 0] rep xs that show ?thesis
    by (auto simp: nn_rep_def)
qed

section \<open>The destructor\<close>

lemma dtor_loop_abs:
  assumes "linked h (a # as @ [s])" and "distinct (a # as)" and "s \<notin> set (a # as)"
  shows "dtor_loop s (Some a) (Some (hd (as @ [s]))) h = Some (Inr (h |` (- set (a # as))))"
  using assms
proof (induction as arbitrary: a h)
  case Nil
  then obtain n where "h a = Some n" using nx_SomeD by fastforce
  moreover have "h(a := None) = h |` (- {a})" by (auto simp: restrict_map_def)
  ultimately show ?case by (simp add: dtor_loop.simps free_node_Some)
next
  case (Cons b as)
  obtain na where na: "h a = Some na" using Cons.prems(1) nx_SomeD by fastforce
  have "nx h b = Some (hd (as @ [s]))" using Cons.prems(1) by (cases as) auto
  then obtain nb where nb: "h b = Some nb" "next nb = Some (hd (as @ [s]))" using nx_SomeD by blast
  define h1 where "h1 = h(a := None)"
  have "linked h1 (b # as @ [s]) = linked h (b # as @ [s])"
    by (rule linked_cong)
       (use Cons.prems(2,3) in \<open>auto simp: h1_def field_defs butlast_append split: if_splits\<close>)
  then have "dtor_loop s (Some b) (Some (hd (as @ [s]))) h1 = Some (Inr (h1 |` (- set (b # as))))"
    using Cons.IH [of h1 b] Cons.prems by simp
  moreover have "h1 |` (- set (b # as)) = h |` (- set (a # b # as))"
    by (auto simp: h1_def restrict_map_def)
  moreover have "h1 b = Some nb" using nb(1) Cons.prems(2) by (simp add: h1_def)
  ultimately show ?case
    using na nb Cons.prems(2,3)
    by (simp add: dtor_loop.simps [of s "Some a"] free_node_Some deref_Some flip: h1_def)
qed

lemma NNVector_dtor_abs:
  assumes "nn_abs v xs"
  shows "NNVector_dtor v = Some (Inr Map.empty)"
proof -
  let ?s = "sentinel v" and ?h = "nn_heap v"
  obtain as where rep: "nn_rep v as" using assms by (auto simp: nn_abs_def)
  obtain sn where sn: "?h ?s = Some sn" "next sn = Some (hd (as @ [?s]))"
    using nn_rep_next_sentinel [OF rep] by blast
  have dom: "dom ?h = insert ?s (set as)" and ns: "?s \<notin> set as" and sz: "nn_size v = length as"
    using rep by (simp_all add: nn_rep_def)
  have fin: "free_node (Some ?s) (?h |` (- set as)) = Inr Map.empty"
  proof -
    have "(?h |` (- set as)) ?s = Some sn" using sn ns by simp
    moreover have "(?h |` (- set as))(?s := None) = Map.empty"
    proof
      fix a
      have "a \<notin> insert ?s (set as) \<Longrightarrow> ?h a = None" using dom by (metis domIff)
      then show "((?h |` (- set as))(?s := None)) a = None" by (simp add: restrict_map_def)
    qed
    ultimately show ?thesis by (simp add: free_node_Some)
  qed
  show ?thesis
  proof (cases as)
    case Nil
    with fin sz show ?thesis by (simp add: NNVector_dtor_def restrict_map_def)
  next
    case (Cons a as')
    obtain n where n: "?h a = Some n" "next n = Some (hd (as' @ [?s]))"
      using nn_rep_links(1) [of v "[a]" as'] rep Cons nx_SomeD by fastforce
    have "dtor_loop ?s (Some a) (Some (hd (as' @ [?s]))) ?h = Some (Inr (?h |` (- set as)))"
      using dtor_loop_abs [of ?h a as' ?s] rep Cons by (simp add: nn_rep_def)
    with n sn Cons sz fin show ?thesis by (simp add: NNVector_dtor_def deref_Some)
  qed
qed

section \<open>Properties\<close>

text \<open>A vector of capacity 2 that holds one entry, for the witnesses.\<close>

definition nn_one :: "int NNVector" where
  "nn_one = \<lparr>sentinel = 0, cache = (0, None), k = 2, nn_size = 1,
     nn_heap = [0 \<mapsto> \<lparr>prev = Some 1, next = Some 1, data = IndexVal 0 1000\<rparr>,
                1 \<mapsto> \<lparr>prev = Some 0, next = Some 0, data = IndexVal 7 3\<rparr>],
     fresh = 2\<rparr>"

lemma nn_abs_nn_one: "nn_abs nn_one [IndexVal 7 3]"
proof -
  have "nn_rep nn_one [1] \<and> nn_items nn_one [1] = [IndexVal 7 3] \<and> cache_ok nn_one [1]"
    by (auto simp: nn_one_def nn_rep_def nn_items_def cache_ok_def field_defs)
  then show ?thesis by (auto simp: nn_abs_def nn_one_def)
qed

text \<open>
  C6. Evaluating any sequence of candidates on a new vector of capacity \<open>kk\<close> always
  returns, and the vector then holds, in ascending order, exactly the values of the
  \<open>kk\<close> smallest candidates, each entry being one of the candidates.
\<close>

theorem NNVector_keeps_k_nearest:
  "\<exists>v xs. foldX NNVector_eval ivs (NNVector_new fmax kk) = Some (Inr v) \<and> nn_abs v xs \<and>
     mset xs \<subseteq># mset ivs \<and> map get_val xs = take (unat kk) (sort (map get_val ivs))"
  using nnv.eval_all_nearest [OF nn_abs_new, of ivs fmax kk] by simp



text \<open>
  The bounds check of \<^verbatim>\<open>operator[]\<close> adds one to the position in
  \<^verbatim>\<open>size_t\<close>; at the largest position the sum is 0, the check passes, and with no
  cached position the read never returns.
\<close>

theorem NNVector_nth_max_hangs:
  assumes "nn_abs v xs" and "snd (cache v) = None"
  shows "NNVector_nth (- 1) v = None"
proof -
  obtain as where rep: "nn_rep v as" using assms(1) by (auto simp: nn_abs_def)
  let ?A = "insert (sentinel v) (set as)"
  have "walk_le (nn_heap v) 0 (- 1) (Some (sentinel v)) = None"
    using walk_le_max_stuck [of "nn_heap v" 0 "- 1" "Some (sentinel v)" _ ?A] nn_rep_ring [OF rep]
    by (cases "walk_le (nn_heap v) 0 (- 1) (Some (sentinel v))") auto
  with assms(2) show ?thesis by (simp add: NNVector_nth_def NNVector_locate_def)
qed

theorem NNVector_nth_max_hangs_witness: "NNVector_nth (- 1) nn_one = None"
  by (rule NNVector_nth_max_hangs [OF nn_abs_nn_one]) (simp add: nn_one_def)

lemma NNVector_find_abs:
  assumes "nn_abs v (x # xs)"
  shows "NNVector_find iv v = (if get_val x = get_val iv then Some (Inr True) else None)"
proof -
  obtain sn a n where n: "nn_heap v (sentinel v) = Some sn" "next sn = Some a"
    "nn_heap v a = Some n" "data n = x" "a \<noteq> sentinel v"
    using nn_abs_first [OF assms] by blast
  have f: "NNVector_find iv v = NNVector_find_loop iv (Some a) v"
    using n by (simp add: NNVector_find_def deref_Some)
  show ?thesis
  proof (cases "get_val x = get_val iv")
    case True
    with f n show ?thesis
      by (simp add: NNVector_find_loop.simps [of iv "Some a"] deref_Some IndexVal_eq_def)
  next
    case False
    with n have "NNVector_find_loop iv (Some a) v = None"
      using find_loop_stuck [of iv "Some a" v _ n]
      by (cases "NNVector_find_loop iv (Some a) v") (auto simp: deref_Some IndexVal_eq_def)
    with f False show ?thesis by simp
  qed
qed

lemma to_IndexVector_abs:
  assumes "nn_abs v (x # xs)"
  shows "to_IndexVector v = None"
proof -
  obtain sn a n where n: "nn_heap v (sentinel v) = Some sn" "next sn = Some a"
    "nn_heap v a = Some n" "data n = x" "a \<noteq> sentinel v"
    using nn_abs_first [OF assms] by blast
  then have "to_IndexVector v = to_IndexVector_loop (Some a) IndexVector_new v"
    by (simp add: to_IndexVector_def deref_Some)
  with n show ?thesis
    using to_IndexVector_loop_stuck [of "Some a" IndexVector_new v _ n]
    by (cases "to_IndexVector_loop (Some a) IndexVector_new v") (auto simp: deref_Some)
qed

text \<open>
  C19. On a vector with entries, \<^verbatim>\<open>find\<close> answers only when the first entry has the
  value sought and otherwise never returns, and \<^verbatim>\<open>to_IndexVector\<close> never returns:
  their loops do not advance.
\<close>

theorem NNVector_find_hangs:
  assumes "nn_abs v (x # xs)"
  shows "NNVector_find iv v = (if get_val x = get_val iv then Some (Inr True) else None) \<and>
    to_IndexVector v = None"
  using NNVector_find_abs [OF assms] to_IndexVector_abs [OF assms] by blast

theorem NNVector_find_hangs_witness:
  "NNVector_find (IndexVal 1 4) nn_one = None \<and> NNVector_find (IndexVal 1 3) nn_one = Some (Inr True) \<and>
   to_IndexVector nn_one = None"
  using NNVector_find_hangs [OF nn_abs_nn_one, of "IndexVal 1 4"]
    NNVector_find_hangs [OF nn_abs_nn_one, of "IndexVal 1 3"] by simp

text \<open>
  C20. Whatever was evaluated, the destructor returns and frees every node that was
  allocated, the sentinel included, each exactly once.
\<close>

theorem NNVector_dtor_frees_all:
  "\<exists>v. foldX NNVector_eval ivs (NNVector_new fmax kk) = Some (Inr v) \<and>
       NNVector_dtor v = Some (Inr Map.empty)"
  using nnv.eval_all_nearest [OF nn_abs_new, of ivs fmax kk] NNVector_dtor_abs by blast



end
