(* ===== verification/Knn_Validate.thy ===== *)
theory Knn_Validate
  imports NN_Vector Complex_Main
begin

text \<open>
  \<^verbatim>\<open>src/src/common/distance.hpp\<close>, \<^verbatim>\<open>src/src/validate/BruteForcekNN.hpp\<close> and
  \<^verbatim>\<open>src/src/common/Metric.hpp\<close>: the Euclidean distance, the exhaustive search for
  the k nearest samples, and the share of exact neighbours an approximate answer has.
  The arithmetic on values is a parameter (\<open>fops\<close>), so that the results on ordering
  hold for rounded floating-point arithmetic as well as for the reals.
\<close>

section \<open>Distance\<close>

record 'd fops =
  fzero :: 'd
  fadd :: "'d \<Rightarrow> 'd \<Rightarrow> 'd"
  fsub :: "'d \<Rightarrow> 'd \<Rightarrow> 'd"
  fmul :: "'d \<Rightarrow> 'd \<Rightarrow> 'd"
  fsqrt :: "'d \<Rightarrow> 'd"

fun euclidean_loop :: "'d fops \<Rightarrow> 'd list \<Rightarrow> 'd list \<Rightarrow> nat \<Rightarrow> nat \<Rightarrow> 'd \<Rightarrow> 'd result" where
  "euclidean_loop F arr other i 0 res = Inr res"
| "euclidean_loop F arr other i (Suc n) res =
     bindE (read_at arr i) (\<lambda>a.
     bindE (read_at other i) (\<lambda>b.
     let tmp = fsub F a b in
     euclidean_loop F arr other (i + 1) n (fadd F res (fmul F tmp tmp))))"

definition euclidean :: "'d fops \<Rightarrow> 'd list \<Rightarrow> 'd list \<Rightarrow> nat \<Rightarrow> 'd result" where
  "euclidean F arr other nelem =
     bindE (euclidean_loop F arr other 0 nelem (fzero F)) (\<lambda>res. Inr (fsqrt F res))"

definition real_ops :: "real fops" where
  "real_ops = \<lparr>fzero = 0, fadd = (+), fsub = (-), fmul = (*), fsqrt = sqrt\<rparr>"

section \<open>Exhaustive search\<close>

record 'd BruteForcekNN =
  bf_data :: "'d list"
  bf_nsamples :: nat
  bf_nfeatures :: nat

text \<open>\<open>(unsigned) k\<close> of a \<^verbatim>\<open>long\<close>.\<close>

definition to_unsigned :: "int \<Rightarrow> nat" where
  "to_unsigned i = nat (i mod 2 ^ 32)"

text \<open>\<^verbatim>\<open>for (long j = k - 1; j >= 0; j--)\<close>\<close>

fun repl_scan :: "'d::linorder \<Rightarrow> 'd IndexVector \<Rightarrow> nat \<Rightarrow> int \<Rightarrow> int result" where
  "repl_scan dst NN 0 repl_indx = Inr repl_indx"
| "repl_scan dst NN (Suc j) repl_indx =
     bindE (IndexVector_nth NN j) (\<lambda>x.
     repl_scan dst NN j (if dst < get_val x then int j else repl_indx))"

definition getNN_step ::
  "'d::linorder fops \<Rightarrow> 'd BruteForcekNN \<Rightarrow> 'd list \<Rightarrow> int \<Rightarrow> nat \<Rightarrow> 'd IndexVector \<Rightarrow> 'd IndexVector result"
where
  "getNN_step F b sample kk i NN =
     bindE (euclidean F sample (drop (i * bf_nfeatures b) (bf_data b)) (bf_nfeatures b)) (\<lambda>dst.
     if i < to_unsigned kk then Inr (IndexVector_append (IndexVal (word_of_nat i) dst) NN)
     else let NN = (if i = to_unsigned kk then IndexVector_sort NN else NN)
          in bindE (repl_scan dst NN (nat kk) (- 1)) (\<lambda>repl_indx.
             if repl_indx \<ge> 0
             then IndexVector_insert (IndexVal (word_of_nat i) dst) (nat repl_indx) NN
             else Inr NN))"

fun getNN_loop ::
  "'d::linorder fops \<Rightarrow> 'd BruteForcekNN \<Rightarrow> 'd list \<Rightarrow> int \<Rightarrow> nat \<Rightarrow> nat \<Rightarrow> 'd IndexVector \<Rightarrow> 'd IndexVector result"
where
  "getNN_loop F b sample kk i 0 NN = Inr NN"
| "getNN_loop F b sample kk i (Suc n) NN =
     bindE (getNN_step F b sample kk i NN) (getNN_loop F b sample kk (i + 1) n)"

text \<open>\<open>g\<close> is the indeterminate value \<^verbatim>\<open>trim\<close> would fill with.\<close>

definition getNN ::
  "'d \<Rightarrow> 'd::linorder fops \<Rightarrow> 'd BruteForcekNN \<Rightarrow> 'd list \<Rightarrow> int \<Rightarrow> 'd IndexVector result" where
  "getNN g F b sample kk =
     bindE (getNN_loop F b sample kk 0 (bf_nsamples b) IndexVector_new) (\<lambda>NN.
     Inr (if length (items NN) > to_unsigned kk then IndexVector_trim g (nat (kk mod 2 ^ 64)) NN else NN))"

section \<open>Accuracy\<close>

text \<open>
  The loop of \<^verbatim>\<open>get_raw_accuracy\<close> over \<open>approx.find(exact[i])\<close>; the bitmap is the
  list of answers, and \<^verbatim>\<open>std::accumulate\<close> counts its set bits.
\<close>

fun accuracy_loop ::
  "nat \<Rightarrow> nat \<Rightarrow> 'd::linorder IndexVector \<Rightarrow> 'd IndexVector \<Rightarrow> (bool list \<times> 'd IndexVector) result" where
  "accuracy_loop i 0 approx exact = Inr ([], approx)"
| "accuracy_loop i (Suc n) approx exact =
     bindE (IndexVector_nth exact i) (\<lambda>e.
     let (m, approx) = IndexVector_find e approx in
     bindE (accuracy_loop (i + 1) n approx exact) (\<lambda>(ms, approx). Inr (m # ms, approx)))"

definition match_ratio :: "bool list \<Rightarrow> real" where
  "match_ratio matches =
     (let match_count = length (filter id matches)
      in if match_count \<noteq> 0 then real match_count / real (length matches) else 0)"

definition get_raw_accuracy ::
  "'d::linorder IndexVector \<Rightarrow> 'd IndexVector \<Rightarrow> (real \<times> 'd IndexVector) result" where
  "get_raw_accuracy approx exact =
     (if length (items approx) = length (items exact)
      then bindE (accuracy_loop 0 (length (items approx)) approx exact) (\<lambda>(ms, approx).
           Inr (match_ratio ms, approx))
      else Inl assert_failure)"

text \<open>The overload on \<open>NNVector\<close>s.\<close>

fun accuracy_NN_loop ::
  "nat \<Rightarrow> nat \<Rightarrow> 'd NNVector \<Rightarrow> 'd NNVector \<Rightarrow> (bool list \<times> 'd NNVector) exec" where
  "accuracy_NN_loop i 0 approx exact = Some (Inr ([], exact))"
| "accuracy_NN_loop i (Suc n) approx exact =
     bindX (NNVector_nth (word_of_nat i) exact) (\<lambda>(e, exact).
     bindX (NNVector_find e approx) (\<lambda>m.
     bindX (accuracy_NN_loop (i + 1) n approx exact) (\<lambda>(ms, exact). Some (Inr (m # ms, exact)))))"

definition get_raw_accuracy_NN :: "'d NNVector \<Rightarrow> 'd NNVector \<Rightarrow> (real \<times> 'd NNVector) exec" where
  "get_raw_accuracy_NN approx exact =
     (if nn_size approx = nn_size exact
      then bindX (accuracy_NN_loop 0 (nn_size approx) approx exact) (\<lambda>(ms, exact).
           Some (Inr (match_ratio ms, exact)))
      else Some (Inl assert_failure))"

section \<open>The distance\<close>

text \<open>The distance as a fold over the paired coordinates, when both arrays are long enough.\<close>

definition dist_of :: "'d fops \<Rightarrow> 'd list \<Rightarrow> 'd list \<Rightarrow> nat \<Rightarrow> 'd" where
  "dist_of F xs ys n =
     fsqrt F (foldl (\<lambda>res (a, b). fadd F res (fmul F (fsub F a b) (fsub F a b))) (fzero F)
                (take n (zip xs ys)))"

lemma euclidean_loop_fold:
  assumes "i + n \<le> length xs" and "i + n \<le> length ys"
  shows "euclidean_loop F xs ys i n res =
    Inr (foldl (\<lambda>res (a, b). fadd F res (fmul F (fsub F a b) (fsub F a b))) res
           (take n (drop i (zip xs ys))))"
  using assms
proof (induction n arbitrary: i res)
  case (Suc n)
  have "drop i (zip xs ys) = (xs ! i, ys ! i) # drop (Suc i) (zip xs ys)"
    using Suc.prems by (simp flip: Cons_nth_drop_Suc)
  with Suc show ?case by (simp add: Let_def)
qed simp

lemma euclidean_eq:
  "n \<le> length xs \<Longrightarrow> n \<le> length ys \<Longrightarrow> euclidean F xs ys n = Inr (dist_of F xs ys n)"
  by (simp add: euclidean_def euclidean_loop_fold dist_of_def)

lemma foldl_sum_squares:
  "foldl (\<lambda>res (a, b). res + (a - b) * (a - b)) r ps
   = r + (\<Sum>(a, b) \<leftarrow> ps. (a - b)\<^sup>2)" for r :: real
  by (induction ps arbitrary: r) (auto simp: power2_eq_square)

section \<open>The search\<close>

definition bf_ok :: "'d BruteForcekNN \<Rightarrow> 'd list \<Rightarrow> bool" where
  "bf_ok b sample \<longleftrightarrow>
     bf_nfeatures b \<le> length sample \<and> bf_nsamples b * bf_nfeatures b \<le> length (bf_data b)"

definition bf_cand :: "'d fops \<Rightarrow> 'd BruteForcekNN \<Rightarrow> 'd list \<Rightarrow> nat \<Rightarrow> 'd IndexVal" where
  "bf_cand F b sample i = IndexVal (word_of_nat i)
     (dist_of F sample (drop (i * bf_nfeatures b) (bf_data b)) (bf_nfeatures b))"

lemma bf_ok_euclidean:
  assumes "bf_ok b sample" and "i < bf_nsamples b"
  shows "euclidean F sample (drop (i * bf_nfeatures b) (bf_data b)) (bf_nfeatures b)
    = Inr (get_val (bf_cand F b sample i))"
proof -
  have "Suc i * bf_nfeatures b \<le> bf_nsamples b * bf_nfeatures b"
    using assms(2) by (intro mult_le_mono1) simp
  with assms(1) have "bf_nfeatures b \<le> length (drop (i * bf_nfeatures b) (bf_data b))"
    by (auto simp: bf_ok_def)
  with assms(1) show ?thesis by (simp add: bf_ok_def bf_cand_def euclidean_eq)
qed

lemma repl_scan_eq:
  assumes "m \<le> length (items NN)"
  shows "repl_scan d NN m r = Inr (
    let j0 = length (takeWhile (\<lambda>x. get_val x \<le> d) (take m (items NN)))
    in if j0 < m then int j0 else r)"
  using assms
proof (induction m arbitrary: r)
  case (Suc j)
  let ?P = "\<lambda>x. get_val x \<le> d"
  have tk: "take (Suc j) (items NN) = take j (items NN) @ [items NN ! j]"
    using Suc.prems by (simp add: take_Suc_conv_app_nth)
  show ?case
  proof (cases "\<forall>x \<in> set (take j (items NN)). ?P x")
    case True
    then have "takeWhile ?P (take j (items NN)) = take j (items NN)" by simp
    with Suc True show ?thesis by (auto simp: tk IndexVector_nth_def)
  next
    case False
    then obtain x where x: "x \<in> set (take j (items NN))" "\<not> ?P x" by blast
    then have "takeWhile ?P (take (Suc j) (items NN)) = takeWhile ?P (take j (items NN))"
      unfolding tk by (rule takeWhile_append1)
    moreover have "length (takeWhile ?P (take j (items NN))) \<noteq> length (take j (items NN))"
      using x by (metis takeWhile_eq_all_conv takeWhile_eq_take take_all le_refl)
    then have "length (takeWhile ?P (take j (items NN))) < j"
      using length_takeWhile_le [of ?P "take j (items NN)"] Suc.prems by simp
    ultimately show ?thesis using Suc by (simp add: IndexVector_nth_def Let_def)
  qed
qed simp

lemma insert_at_scan:
  assumes "kk \<le> length xs" and "j0 = length (takeWhile (\<lambda>x. get_val x \<le> get_val iv) (take kk xs))"
    and "j0 < kk"
  shows "take kk (take j0 xs @ iv # drop j0 xs) = nn_eval_spec kk iv (take kk xs)"
proof -
  have "insert_gt get_val iv (take kk xs) = take j0 (take kk xs) @ iv # drop j0 (take kk xs)"
    unfolding insert_gt_split assms(2) by (simp only: dropWhile_eq_drop flip: takeWhile_eq_take)
  moreover have "kk - j0 = Suc (kk - Suc j0)" using assms(3) by simp
  ultimately show ?thesis
    using assms(1,3) by (simp add: nn_eval_spec_def drop_take min_def)
qed

lemma scan_keeps:
  assumes "kk \<le> length xs" and "\<not> length (takeWhile (\<lambda>x. get_val x \<le> get_val iv) (take kk xs)) < kk"
  shows "nn_eval_spec kk iv (take kk xs) = take kk xs"
proof -
  let ?tw = "takeWhile (\<lambda>x. get_val x \<le> get_val iv) (take kk xs)"
  have "length ?tw = length (take kk xs)"
    using assms length_takeWhile_le [of "\<lambda>x. get_val x \<le> get_val iv" "take kk xs"] by simp
  then have "?tw = take kk xs" by (metis takeWhile_eq_take take_all le_refl)
  then have "\<forall>y \<in> set (take kk xs). get_val y \<le> get_val iv" by (metis set_takeWhileD)
  then show ?thesis using assms(1) by (simp add: nn_eval_spec_def insert_gt_all_le)
qed

lemma upt_add_Suc: "[i..<i + Suc n] = i # [Suc i..<Suc i + n]"
  by (simp add: upt_conv_Cons del: upt_Suc)

lemma getNN_loop_add:
  "getNN_loop F b sample kk i (m + n) NN =
   bindE (getNN_loop F b sample kk i m NN) (getNN_loop F b sample kk (i + m) n)"
proof (induction m arbitrary: i NN)
  case (Suc m)
  then show ?case by (cases "getNN_step F b sample kk i NN") simp_all
qed simp

lemma getNN_loop_collect:
  assumes "bf_ok b sample" and "i + n \<le> bf_nsamples b" and "i + n \<le> to_unsigned kk"
  shows "getNN_loop F b sample kk i n NN =
    Inr (NN\<lparr>items := items NN @ map (bf_cand F b sample) [i..<i + n]\<rparr>)"
  using assms(2,3)
proof (induction n arbitrary: i NN)
  case (Suc n)
  have "getNN_step F b sample kk i NN = Inr (IndexVector_append (bf_cand F b sample i) NN)"
    using Suc.prems assms(1) by (simp add: getNN_step_def bf_ok_euclidean) (simp add: bf_cand_def)
  with Suc show ?case
    unfolding upt_add_Suc by (simp add: IndexVector_append_def del: upt_Suc)
qed simp

lemma getNN_step_replace:
  assumes ok: "bf_ok b sample" "i < bf_nsamples b" and k: "to_unsigned (int kk) = kk" "kk \<le> i"
    and len: "kk \<le> length (items NN)"
    and NN1: "NN1 = (if i = kk then IndexVector_sort NN else NN)"
  obtains NN' where "getNN_step F b sample (int kk) i NN = Inr NN'" and "kk \<le> length (items NN')"
    and "take kk (items NN') = nn_eval_spec kk (bf_cand F b sample i) (take kk (items NN1))"
proof -
  let ?iv = "bf_cand F b sample i"
  define j0 where "j0 = length (takeWhile (\<lambda>x. get_val x \<le> get_val ?iv) (take kk (items NN1)))"
  have len1: "kk \<le> length (items NN1)" using len by (simp add: NN1 IndexVector_sort_def)
  have iv: "IndexVal (word_of_nat i) (get_val ?iv) = ?iv" by (simp add: bf_cand_def)
  have step: "getNN_step F b sample (int kk) i NN =
      (if j0 < kk then IndexVector_insert ?iv j0 NN1 else Inr NN1)"
    using ok k len1 unfolding getNN_step_def bf_ok_euclidean [OF ok]
    by (simp add: iv repl_scan_eq j0_def flip: NN1)
  show thesis
  proof (cases "j0 < kk")
    case True
    then have "getNN_step F b sample (int kk) i NN =
        Inr (NN1\<lparr>items := take j0 (items NN1) @ ?iv # drop j0 (items NN1)\<rparr>)"
      using step len1 by (simp add: IndexVector_insert_def)
    from this _ show thesis
      by (rule that) (use len1 insert_at_scan [OF len1 j0_def True] in simp_all)
  next
    case False
    then have "getNN_step F b sample (int kk) i NN = Inr NN1" using step by simp
    from this len1 show thesis
      by (rule that) (use scan_keeps [OF len1] False in \<open>simp add: j0_def\<close>)
  qed
qed

lemma getNN_loop_replace:
  assumes "bf_ok b sample" and "i + n \<le> bf_nsamples b" and "to_unsigned (int kk) = kk" and "kk < i"
    and "kk \<le> length (items NN)"
  shows "\<exists>NN'. getNN_loop F b sample (int kk) i n NN = Inr NN' \<and> kk \<le> length (items NN') \<and>
    take kk (items NN') = fold (nn_eval_spec kk) (map (bf_cand F b sample) [i..<i + n]) (take kk (items NN))"
  using assms(2,4,5)
proof (induction n arbitrary: i NN)
  case (Suc n)
  obtain NN1 where NN1: "getNN_step F b sample (int kk) i NN = Inr NN1" "kk \<le> length (items NN1)"
    "take kk (items NN1) = nn_eval_spec kk (bf_cand F b sample i) (take kk (items NN))"
    using getNN_step_replace [OF assms(1) _ assms(3), of i NN NN F] Suc.prems by auto
  from Suc.IH [of "Suc i" NN1] Suc.prems NN1 show ?case
    unfolding upt_add_Suc by (simp del: upt_Suc)
qed simp

lemma getNN_loop_nearest:
  assumes ok: "bf_ok b sample" and k: "to_unsigned (int kk) = kk" and "kk < bf_nsamples b"
  shows "\<exists>NN'. getNN_loop F b sample (int kk) 0 (bf_nsamples b) IndexVector_new = Inr NN' \<and>
    kk \<le> length (items NN') \<and>
    take kk (items NN') = fold (nn_eval_spec kk) (map (bf_cand F b sample) [kk..<bf_nsamples b])
      (sort_key get_val (map (bf_cand F b sample) [0..<kk]))"
proof -
  let ?c = "map (bf_cand F b sample)"
  define n where "n = bf_nsamples b - Suc kk"
  define NN where "NN = (IndexVector_new :: 'a IndexVector)\<lparr>items := ?c [0..<kk]\<rparr>"
  have ns: "bf_nsamples b = kk + Suc n" using assms(3) by (simp add: n_def)
  have "getNN_loop F b sample (int kk) 0 kk IndexVector_new = Inr NN"
    using getNN_loop_collect [OF ok, of 0 kk "int kk" F IndexVector_new] k assms(3)
    by (simp add: NN_def IndexVector_new_def)
  then have split: "getNN_loop F b sample (int kk) 0 (bf_nsamples b) IndexVector_new
      = getNN_loop F b sample (int kk) kk (Suc n) NN"
    unfolding ns getNN_loop_add by simp
  have NN: "items (IndexVector_sort NN) = sort_key get_val (?c [0..<kk])" "length (items NN) = kk"
    by (simp_all add: NN_def IndexVector_sort_def)
  obtain NN1 where NN1: "getNN_step F b sample (int kk) kk NN = Inr NN1" "kk \<le> length (items NN1)"
    "take kk (items NN1) = nn_eval_spec kk (bf_cand F b sample kk) (sort_key get_val (?c [0..<kk]))"
    using getNN_step_replace [OF ok assms(3) k le_refl, of NN _ F] NN by auto
  have "[kk..<bf_nsamples b] = kk # [Suc kk..<Suc kk + n]" unfolding ns upt_add_Suc ..
  with getNN_loop_replace [OF ok _ k, of "Suc kk" n NN1 F] NN1 split ns show ?thesis by simp
qed

section \<open>Accuracy of an answer\<close>

text \<open>The list the search ends with: the samples after the first \<open>kk\<close> inserted one by one.\<close>

definition bf_nearest :: "'d::linorder fops \<Rightarrow> 'd BruteForcekNN \<Rightarrow> 'd list \<Rightarrow> nat \<Rightarrow> 'd IndexVal list" where
  "bf_nearest F b sample kk = fold (nn_eval_spec kk) (map (bf_cand F b sample) [kk..<bf_nsamples b])
     (sort_key get_val (map (bf_cand F b sample) [0..<kk]))"

lemma getNN_items:
  assumes "bf_ok b sample" and "kk < bf_nsamples b" and "kk < 2 ^ 32"
  shows "\<exists>NN. getNN g F b sample (int kk) = Inr NN \<and> items NN = bf_nearest F b sample kk"
proof -
  have u: "to_unsigned (int kk) = kk" using assms(3) by (simp add: to_unsigned_def)
  obtain NN where NN: "getNN_loop F b sample (int kk) 0 (bf_nsamples b) IndexVector_new = Inr NN"
    "kk \<le> length (items NN)" "take kk (items NN) = bf_nearest F b sample kk"
    using getNN_loop_nearest [OF assms(1) u assms(2)] unfolding bf_nearest_def by blast
  have "nat (int kk mod 2 ^ 64) = kk" using assms(3) by simp
  then show ?thesis using NN by (cases "kk = length (items NN)") (simp_all add: getNN_def u IndexVector_trim_def)
qed

lemma upt_split_at: "kk < n \<Longrightarrow> [0..<n] = [0..<kk] @ [kk..<n]"
  by (metis le_add_diff_inverse less_imp_le upt_add_eq_append zero_le)

lemma bf_nearest_vals:
  assumes "kk < bf_nsamples b"
  shows "map get_val (bf_nearest F b sample kk) = take kk (sort (map (get_val \<circ> bf_cand F b sample) [0..<bf_nsamples b]))"
proof -
  let ?c = "map (bf_cand F b sample)"
  have "map get_val (sort_key get_val (?c [0..<kk])) = take kk (sort (map get_val (?c [0..<kk])))"
    unfolding map_sort_key by simp
  from fold_nn_eval_spec_vals [OF this] show ?thesis by (simp add: bf_nearest_def upt_split_at [OF assms])
qed

lemma bf_nearest_mset:
  assumes "kk < bf_nsamples b"
  shows "mset (bf_nearest F b sample kk) \<subseteq># mset (map (bf_cand F b sample) [0..<bf_nsamples b])"
  using fold_nn_eval_spec_mset [of kk "map (bf_cand F b sample) [kk..<bf_nsamples b]"
      "sort_key get_val (map (bf_cand F b sample) [0..<kk])"]
  by (simp add: bf_nearest_def upt_split_at [OF assms])

lemma accuracy_loop_ok:
  assumes "IndexVector_ok approx" and "i + n \<le> length (items exact)"
  shows "\<exists>approx'. accuracy_loop i n approx exact =
      Inr (map (\<lambda>e. get_val e \<in> get_val ` set (items approx)) (take n (drop i (items exact))), approx') \<and>
    mset (items approx') = mset (items approx)"
  using assms
proof (induction n arbitrary: i approx)
  case (Suc n)
  let ?e = "items exact ! i"
  obtain v where v: "IndexVector_find ?e approx = (get_val ?e \<in> get_val ` set (items approx), v)"
    "mset (items v) = mset (items approx)" "IndexVector_ok v"
    using IndexVector_find_ok [OF Suc.prems(1)] by metis
  then have "set (items v) = set (items approx)" by (metis set_mset_mset)
  moreover have "drop i (items exact) = ?e # drop (Suc i) (items exact)"
    using Suc.prems(2) by (simp add: Cons_nth_drop_Suc)
  ultimately show ?case
    using Suc.IH [of v "Suc i"] Suc.prems(2) v by (auto simp: IndexVector_nth_def)
qed simp

lemma accuracy_NN_loop_abs:
  assumes "nn_abs approx (x # xs)" and "nn_abs exact ys" and "i + n \<le> length ys"
  shows "(\<forall>y \<in> set (take n (drop i ys)). get_val y = get_val x) \<Longrightarrow>
      \<exists>exact'. accuracy_NN_loop i n approx exact = Some (Inr (replicate n True, exact'))"
    and "\<not> (\<forall>y \<in> set (take n (drop i ys)). get_val y = get_val x) \<Longrightarrow>
      accuracy_NN_loop i n approx exact = None"
proof -
  have "(if \<forall>y \<in> set (take n (drop i ys)). get_val y = get_val x
    then \<exists>exact'. accuracy_NN_loop i n approx exact = Some (Inr (replicate n True, exact'))
    else accuracy_NN_loop i n approx exact = None)"
    using assms(2,3)
  proof (induction n arbitrary: i exact)
    case (Suc n)
    have i: "unat (word_of_nat i :: size_t) = i" "i < length ys"
      using Suc.prems(2) nn_abs_length [OF Suc.prems(1)] by (simp_all add: unat_of_nat)
    obtain w where w: "NNVector_nth (word_of_nat i) exact = Some (Inr (ys ! i, w))" "nn_abs w ys"
      using NNVector_nth_abs [OF Suc.prems(1), of "word_of_nat i"] i by metis
    have "drop i ys = ys ! i # drop (Suc i) ys" using i(2) by (simp add: Cons_nth_drop_Suc)
    with Suc.IH [OF w(2), of "Suc i"] Suc.prems(2) w show ?case
      by (auto simp: NNVector_find_abs [OF assms(1)])
  qed simp
  then show "(\<forall>y \<in> set (take n (drop i ys)). get_val y = get_val x) \<Longrightarrow>
      \<exists>exact'. accuracy_NN_loop i n approx exact = Some (Inr (replicate n True, exact'))"
    and "\<not> (\<forall>y \<in> set (take n (drop i ys)). get_val y = get_val x) \<Longrightarrow>
      accuracy_NN_loop i n approx exact = None"
    by (simp_all split: if_splits)
qed

section \<open>Properties\<close>

text \<open>
  On real arithmetic the distance is the Euclidean one, of the first
  \<^verbatim>\<open>nelem\<close> coordinates.
\<close>

theorem euclidean_real:
  assumes "n \<le> length xs" and "n \<le> length ys"
  shows "euclidean real_ops xs ys n = Inr (sqrt (\<Sum>i < n. (xs ! i - ys ! i)\<^sup>2))"
proof -
  have "take n (zip xs ys) = map (\<lambda>i. (xs ! i, ys ! i)) [0..<n]"
    using assms by (intro nth_equalityI) simp_all
  then show ?thesis
    using assms by (simp add: euclidean_eq dist_of_def real_ops_def foldl_sum_squares comp_def
        interv_sum_list_conv_sum_set_nat atLeast0LessThan)
qed

theorem euclidean_real_witness: "euclidean real_ops [1, 2] [4, 6, 9] 2 = Inr 5"
proof -
  have "(\<Sum>i < 2. ([1, 2] ! i - [4, 6, 9] ! i)\<^sup>2) = (25 :: real)"
    by (simp add: numeral_2_eq_2)
  then show ?thesis using euclidean_real [of 2 "[1, 2]" "[4, 6, 9]"] by simp
qed


definition sq_ops :: "int fops" where
  "sq_ops = \<lparr>fzero = 0, fadd = (+), fsub = (-), fmul = (*), fsqrt = id\<rparr>"


text \<open>
  With no more samples than \<open>k\<close>, the exhaustive search returns all of them in the
  order they are stored: the sort is only reached by the sample with number \<open>k\<close>.
\<close>

theorem getNN_few_samples:
  assumes "bf_ok b sample" and "bf_nsamples b \<le> kk" and "kk < 2 ^ 32"
  shows "getNN g F b sample (int kk) =
    Inr \<lparr>items = map (bf_cand F b sample) [0..<bf_nsamples b], sorted_flag = False\<rparr>"
proof -
  have "to_unsigned (int kk) = kk" using assms(3) by (simp add: to_unsigned_def)
  with getNN_loop_collect [OF assms(1), of 0 "bf_nsamples b" "int kk" F IndexVector_new] assms(2)
  show ?thesis by (simp add: getNN_def IndexVector_new_def)
qed

theorem getNN_few_samples_witness:
  "\<exists>NN. getNN 0 sq_ops \<lparr>bf_data = [5, 1, 3], bf_nsamples = 3, bf_nfeatures = 1\<rparr> [0] 3 = Inr NN \<and>
    map get_val (items NN) = [25, 1, 9]"
proof -
  let ?b = "\<lparr>bf_data = [5, 1, 3], bf_nsamples = 3, bf_nfeatures = 1\<rparr> :: int BruteForcekNN"
  have "map (get_val \<circ> bf_cand sq_ops ?b [0]) [0..<3] = [25, 1, 9]"
    by (simp add: bf_cand_def dist_of_def sq_ops_def upt_rec)
  with getNN_few_samples [of ?b "[0]" 3 0 sq_ops] show ?thesis by (simp add: bf_ok_def)
qed



text \<open>
  The accuracy of an \<open>NNVector\<close> is computed only when every exact distance equals
  the first approximate one, in which case it is 1; otherwise the call never returns.
\<close>

theorem get_raw_accuracy_NN_hangs:
  assumes "nn_abs approx (x # xs)" and "nn_abs exact ys" and "length ys = Suc (length xs)"
  shows "if \<forall>y \<in> set ys. get_val y = get_val x
    then \<exists>exact'. get_raw_accuracy_NN approx exact = Some (Inr (1, exact'))
    else get_raw_accuracy_NN approx exact = None"
proof -
  let ?n = "length ys"
  have "nn_size approx = ?n" "nn_size exact = ?n"
    using nn_size_abs [OF assms(1)] nn_size_abs [OF assms(2)] assms(3) by simp_all
  then have g: "get_raw_accuracy_NN approx exact =
      bindX (accuracy_NN_loop 0 ?n approx exact) (\<lambda>(ms, exact). Some (Inr (match_ratio ms, exact)))"
    by (simp add: get_raw_accuracy_NN_def)
  have one: "match_ratio (replicate ?n True) = 1"
    using assms(3) by (simp add: match_ratio_def filter_replicate)
  show ?thesis
  proof (cases "\<forall>y \<in> set ys. get_val y = get_val x")
    case True
    with accuracy_NN_loop_abs(1) [OF assms(1,2), of 0 ?n] g one show ?thesis by auto
  next
    case False
    with accuracy_NN_loop_abs(2) [OF assms(1,2), of 0 ?n] g show ?thesis by auto
  qed
qed

theorem get_raw_accuracy_NN_hangs_witness:
  "\<exists>exact'. get_raw_accuracy_NN nn_one nn_one = Some (Inr (1, exact'))"
  using get_raw_accuracy_NN_hangs [OF nn_abs_nn_one nn_abs_nn_one] by simp

end
