(* ===== verification/Binary_Tree.thy ===== *)
theory Binary_Tree
  imports Common_Types "HOL-Library.Tree"
begin

text \<open>
  \<^verbatim>\<open>src/src/structures/BinaryNode.hpp\<close>, \<^verbatim>\<open>src/src/structures/BinaryTree.hpp\<close> and
  \<^verbatim>\<open>src/src/structures/BinaryTree.cpp\<close>: an unbalanced search tree of nodes with
  parent pointers. The nodes live in a heap; a tree is the record of that heap and the
  root pointer. The abstraction relates the heap to a tree of addresses and payloads,
  and a zipper (\<open>plug\<close>, \<open>ctx_at\<close>) splits it at a node. Both are stated for every
  extension of the node record, so that \<open>RB_Tree\<close> shares them.
\<close>

section \<open>Nodes and trees\<close>

record 'd BinaryNode =
  comparator :: 'd
  bparent :: ptr
  bleft :: ptr
  bright :: ptr

definition has_child :: "('d, 'z) BinaryNode_scheme \<Rightarrow> bool" where
  "has_child n \<longleftrightarrow> bleft n \<noteq> None \<or> bright n \<noteq> None"

record 'n BinaryTree =
  nodes :: "'n heap"
  root :: ptr
  depth :: size_t

definition BinaryTree_empty :: "('n, 'z) BinaryTree_scheme \<Rightarrow> bool" where
  "BinaryTree_empty st \<longleftrightarrow> root st = None"

text \<open>\<^verbatim>\<open>n->parent = parent; n->left = n->right = NULL;\<close>\<close>

definition set_links :: "ptr \<Rightarrow> ('d, 'z) BinaryNode_scheme \<Rightarrow> ('d, 'z) BinaryNode_scheme" where
  "set_links par n = n\<lparr>bparent := par, bleft := None, bright := None\<rparr>"

definition set_child :: "bchild_t \<Rightarrow> ptr \<Rightarrow> ('d, 'z) BinaryNode_scheme \<Rightarrow> ('d, 'z) BinaryNode_scheme" where
  "set_child pos p n = (if pos = LEFT then n\<lparr>bleft := p\<rparr> else n\<lparr>bright := p\<rparr>)"

section \<open>Operations\<close>

text \<open>The search for the parent of a node to be inserted.\<close>

partial_function (option) insert_descend ::
  "('d::linorder, 'z) BinaryNode_scheme heap \<Rightarrow> ptr \<Rightarrow> ptr \<Rightarrow> ptr \<Rightarrow> ptr exec" where
  "insert_descend h node parent tmp =
     (if tmp = None then Some (Inr parent)
      else bindX (Some (deref h node)) (\<lambda>n.
           bindX (Some (deref h tmp)) (\<lambda>t.
           insert_descend h node tmp
             (if comparator n < comparator t then bleft t else bright t))))"

definition link_under ::
  "ptr \<Rightarrow> ptr \<Rightarrow> ('d::linorder, 'z) BinaryNode_scheme heap \<Rightarrow> ('d, 'z) BinaryNode_scheme heap result" where
  "link_under new_node parent h =
     bindE (deref h new_node) (\<lambda>n.
     bindE (deref h parent) (\<lambda>p.
     mutate (set_child (if comparator n < comparator p then LEFT else RIGHT) new_node) parent h))"

definition BinaryTree_insert ::
  "ptr \<Rightarrow> ('d::linorder, 'z) BinaryNode_scheme BinaryTree \<Rightarrow> ('d, 'z) BinaryNode_scheme BinaryTree exec" where
  "BinaryTree_insert node st =
     bindX (insert_descend (nodes st) node None (root st)) (\<lambda>parent. Some (
       bindE (mutate (set_links parent) node (nodes st)) (\<lambda>h.
       if parent = None then Inr (st\<lparr>nodes := h, root := node\<rparr>)
       else bindE (link_under node parent h) (\<lambda>h. Inr (st\<lparr>nodes := h\<rparr>)))))"

definition BinaryTree_set_root ::
  "ptr \<Rightarrow> ('d::linorder, 'z) BinaryNode_scheme BinaryTree \<Rightarrow> ('d, 'z) BinaryNode_scheme BinaryTree exec" where
  "BinaryTree_set_root node st =
     (if node \<noteq> None then BinaryTree_insert node st else Some (Inl assert_failure))"

definition BinaryTree_insert_at ::
  "ptr \<Rightarrow> ptr \<Rightarrow> bchild_t \<Rightarrow> ('d, 'z) BinaryNode_scheme BinaryTree \<Rightarrow> ('d, 'z) BinaryNode_scheme BinaryTree result" where
  "BinaryTree_insert_at new_node node pos st =
     bindE (deref (nodes st) node) (\<lambda>n.
     if pos = LEFT \<and> bleft n \<noteq> None
     then Inl (runtime_error ''BinaryTree::insert_at: Left child already populated'')
     else if pos = RIGHT \<and> bright n \<noteq> None
     then Inl (runtime_error ''BinaryTree::insert_at: Right child already populated'')
     else if node = None
     then bindE (mutate (set_links None) node (nodes st)) (\<lambda>h.
          Inr (st\<lparr>nodes := h, root := node, depth := 1\<rparr>))
     else bindE (mutate (set_links node) new_node (nodes st)) (\<lambda>h.
          bindE (mutate (set_child pos new_node) node h) (\<lambda>h. Inr (st\<lparr>nodes := h\<rparr>))))"

partial_function (option) find_loop ::
  "('d::linorder, 'z) BinaryNode_scheme heap \<Rightarrow> 'd \<Rightarrow> ptr \<Rightarrow> ptr exec" where
  "find_loop h shell node =
     (if node = None then Some (Inl (runtime_error ''node not found''))
      else bindX (Some (deref h node)) (\<lambda>n.
        if comparator n > shell then find_loop h shell (bleft n)
        else if comparator n < shell then find_loop h shell (bright n)
        else Some (Inr node)))"

definition BinaryTree_find ::
  "'d::linorder \<Rightarrow> ('d, 'z) BinaryNode_scheme BinaryTree \<Rightarrow> ptr exec" where
  "BinaryTree_find shell st = find_loop (nodes st) shell (root st)"

partial_function (option) get_nnodes ::
  "('d, 'z) BinaryNode_scheme heap \<Rightarrow> ptr \<Rightarrow> size_t \<Rightarrow> size_t exec" where
  "get_nnodes h node nnodes =
     (if node = None then Some (Inr nnodes)
      else bindX (Some (deref h node)) (\<lambda>n.
           bindX (get_nnodes h (bleft n) (nnodes + 1)) (\<lambda>nnodes.
           get_nnodes h (bright n) nnodes)))"

partial_function (option) delete_node ::
  "('d, 'z) BinaryNode_scheme heap \<Rightarrow> ptr \<Rightarrow> ('d, 'z) BinaryNode_scheme heap exec" where
  "delete_node h node =
     (if node = None then Some (Inr h)
      else bindX (Some (deref h node)) (\<lambda>n.
           bindX (if bleft n \<noteq> None then delete_node h (bleft n) else Some (Inr h)) (\<lambda>h.
           bindX (Some (deref h node)) (\<lambda>n.
           bindX (if bright n \<noteq> None then delete_node h (bright n) else Some (Inr h)) (\<lambda>h.
           Some (free_node node h))))))"

definition BinaryTree_dtor ::
  "('d, 'z) BinaryNode_scheme BinaryTree \<Rightarrow> ('d, 'z) BinaryNode_scheme heap exec" where
  "BinaryTree_dtor st = delete_node (nodes st) (root st)"

section \<open>Trees of addresses over the heap\<close>

fun tree_at ::
  "(('d, 'z) BinaryNode_scheme \<Rightarrow> 'x) \<Rightarrow> ('d, 'z) BinaryNode_scheme heap \<Rightarrow> ptr \<Rightarrow> ptr \<Rightarrow>
   (addr \<times> 'x) tree \<Rightarrow> bool" where
  "tree_at pay h par p \<langle>\<rangle> \<longleftrightarrow> p = None"
| "tree_at pay h par p \<langle>l, (a, x), r\<rangle> \<longleftrightarrow> p = Some a \<and>
     (\<exists>n. h a = Some n \<and> pay n = x \<and> bparent n = par \<and>
        tree_at pay h (Some a) (bleft n) l \<and> tree_at pay h (Some a) (bright n) r)"

abbreviation addrs :: "(addr \<times> 'x) tree \<Rightarrow> addr list" where
  "addrs t \<equiv> map fst (inorder t)"

lemma tree_at_cong:
  "\<forall>a \<in> set (addrs t). h' a = h a \<Longrightarrow> tree_at pay h' par p t = tree_at pay h par p t"
  by (induction pay h par p t rule: tree_at.induct) (simp_all add: ball_Un image_Un)

lemma tree_at_upd:
  "b \<notin> set (addrs t) \<Longrightarrow> tree_at pay (h(b := v)) par p t = tree_at pay h par p t"
  by (rule tree_at_cong) auto

lemma tree_at_dom: "tree_at pay h par p t \<Longrightarrow> set (addrs t) \<subseteq> dom h"
  by (induction pay h par p t rule: tree_at.induct) (simp, fastforce simp: image_Un)

lemma tree_at_ptr: "tree_at pay h par p t \<Longrightarrow> p = None \<longleftrightarrow> t = \<langle>\<rangle>"
  by (cases "(pay, h, par, p, t)" rule: tree_at.cases) auto

section \<open>Zippers\<close>

type_synonym 'x ctx = "(bchild_t \<times> 'x \<times> 'x tree) list"

definition node_of :: "bchild_t \<Rightarrow> 'x tree \<Rightarrow> 'x \<Rightarrow> 'x tree \<Rightarrow> 'x tree" where
  "node_of b t x s = (if b = LEFT then \<langle>t, x, s\<rangle> else \<langle>s, x, t\<rangle>)"

fun plug :: "'x tree \<Rightarrow> 'x ctx \<Rightarrow> 'x tree" where
  "plug t [] = t"
| "plug t ((b, x, s) # c) = plug (node_of b t x s) c"

definition child_of :: "bchild_t \<Rightarrow> ('d, 'z) BinaryNode_scheme \<Rightarrow> ptr" where
  "child_of b n = (if b = LEFT then bleft n else bright n)"

definition opposite :: "bchild_t \<Rightarrow> bchild_t" where
  "opposite b = (if b = LEFT then RIGHT else LEFT)"

fun ctx_at ::
  "(('d, 'z) BinaryNode_scheme \<Rightarrow> 'x) \<Rightarrow> ('d, 'z) BinaryNode_scheme heap \<Rightarrow> ptr \<Rightarrow> ptr \<Rightarrow> ptr \<Rightarrow>
   (addr \<times> 'x) ctx \<Rightarrow> bool" where
  "ctx_at pay h rt par p [] \<longleftrightarrow> par = None \<and> p = rt"
| "ctx_at pay h rt par p ((b, (a, x), s) # c) \<longleftrightarrow> par = Some a \<and>
     (\<exists>n. h a = Some n \<and> pay n = x \<and> child_of b n = p \<and>
        tree_at pay h (Some a) (child_of (opposite b) n) s \<and> ctx_at pay h rt (bparent n) (Some a) c)"

lemma bchild_cases: "b = LEFT \<or> b = RIGHT"
  by (cases b) simp_all

lemma tree_at_node_of:
  "tree_at pay h par p (node_of b t (a, x) s) \<longleftrightarrow> p = Some a \<and>
     (\<exists>n. h a = Some n \<and> pay n = x \<and> bparent n = par \<and>
        tree_at pay h (Some a) (child_of b n) t \<and> tree_at pay h (Some a) (child_of (opposite b) n) s)"
  by (cases b) (auto simp: node_of_def child_of_def opposite_def)

lemma tree_at_plug:
  "tree_at pay h None rt (plug t c) \<longleftrightarrow> (\<exists>par p. tree_at pay h par p t \<and> ctx_at pay h rt par p c)"
proof (induction t c rule: plug.induct)
  case (2 t b x s c)
  obtain a y where x: "x = (a, y)" by fastforce
  show ?case using 2 unfolding x plug.simps ctx_at.simps tree_at_node_of by auto
qed simp

definition ctx_list :: "'x ctx \<Rightarrow> 'x list" where
  "ctx_list c = concat (map (\<lambda>(b, x, s). x # inorder s) c)"

lemma ctx_list_simps [simp]:
  "ctx_list [] = []"
  "ctx_list ((b, x, s) # c) = x # inorder s @ ctx_list c"
  by (simp_all add: ctx_list_def)

lemma mset_node_of [simp]:
  "mset (inorder (node_of b t x s)) = add_mset x (mset (inorder t) + mset (inorder s))"
  by (simp add: node_of_def)

lemma mset_plug: "mset (inorder (plug t c)) = mset (inorder t @ ctx_list c)"
  by (induction t c rule: plug.induct) simp_all

lemma distinct_plug: "distinct (addrs (plug t c)) \<longleftrightarrow> distinct (addrs t @ map fst (ctx_list c))"
  by (rule mset_eq_imp_distinct_iff) (metis mset_plug mset_map map_append)

text \<open>The context of the place where a key is inserted, and insertion on trees.\<close>

fun hole :: "('x \<Rightarrow> 'd::linorder) \<Rightarrow> 'd \<Rightarrow> 'x tree \<Rightarrow> 'x ctx \<Rightarrow> 'x ctx" where
  "hole f k \<langle>\<rangle> c = c"
| "hole f k \<langle>l, x, r\<rangle> c = (if k < f x then hole f k l ((LEFT, x, r) # c) else hole f k r ((RIGHT, x, l) # c))"

fun bst_ins :: "('x \<Rightarrow> 'd::linorder) \<Rightarrow> 'x \<Rightarrow> 'x tree \<Rightarrow> 'x tree" where
  "bst_ins f x \<langle>\<rangle> = \<langle>\<langle>\<rangle>, x, \<langle>\<rangle>\<rangle>"
| "bst_ins f x \<langle>l, y, r\<rangle> = (if f x < f y then \<langle>bst_ins f x l, y, r\<rangle> else \<langle>l, y, bst_ins f x r\<rangle>)"

lemma plug_hole: "plug \<langle>\<rangle> (hole f k t c) = plug t c"
  by (induction f k t c rule: hole.induct) (simp_all add: node_of_def)

lemma plug_hole_ins: "plug \<langle>\<langle>\<rangle>, x, \<langle>\<rangle>\<rangle> (hole f (f x) t c) = plug (bst_ins f x t) c"
  by (induction f "f x" t c rule: hole.induct) (simp_all add: node_of_def)

lemma insert_gt_less_prefix:
  "sorted (map f (xs @ y # ys)) \<Longrightarrow> f x < f y \<Longrightarrow> insert_gt f x (xs @ y # ys) = insert_gt f x xs @ y # ys"
  by (induction xs) auto

lemma inorder_bst_ins:
  "sorted (map f (inorder t)) \<Longrightarrow> inorder (bst_ins f x t) = insert_gt f x (inorder t)"
proof (induction f x t rule: bst_ins.induct)
  case (2 f x l y r)
  show ?case
  proof (cases "f x < f y")
    case True
    with 2 insert_gt_less_prefix [of f "inorder l" y "inorder r" x] show ?thesis
      by (simp add: sorted_append)
  next
    case False
    with 2 have "\<forall>z \<in> set (inorder l @ [y]). f z \<le> f x" by (auto simp: sorted_append)
    with 2 False insert_gt_append [of "inorder l @ [y]" f x "inorder r"] show ?thesis
      by (simp add: sorted_append)
  qed
qed simp

lemma hole_key:
  assumes "hole f k t [] = (b, x, s) # c"
  shows "b = LEFT \<longleftrightarrow> k < f x"
proof -
  have "c0 = [] \<or> (fst (hd c0) = LEFT \<longleftrightarrow> k < f (fst (snd (hd c0)))) \<Longrightarrow>
    hole f k t c0 = [] \<or> (fst (hd (hole f k t c0)) = LEFT \<longleftrightarrow> k < f (fst (snd (hd (hole f k t c0)))))"
    for c0 by (induction f k t c0 rule: hole.induct) auto
  from this [of "[]"] assms show ?thesis by simp
qed

definition par_of :: "(addr \<times> 'x) ctx \<Rightarrow> ptr \<Rightarrow> ptr" where
  "par_of c par = (case c of [] \<Rightarrow> par | (b, (a, x), s) # _ \<Rightarrow> Some a)"

lemma ctx_at_par: "ctx_at pay h rt par p c \<Longrightarrow> par = par_of c None"
  by (cases "(pay, h, rt, par, p, c)" rule: ctx_at.cases) (auto simp: par_of_def)

text \<open>\<open>f\<close> reads the key from a payload, which \<open>pay\<close> reads from a node.\<close>

lemma insert_descend_hole:
  assumes "h a = Some n" and "\<And>m. f (pay m) = comparator m"
  shows "tree_at pay h par p t \<Longrightarrow> par = par_of c None \<Longrightarrow>
    insert_descend h (Some a) par p = Some (Inr (par_of (hole (f \<circ> snd) (comparator n) t c) None))"
proof (induction t arbitrary: par p c)
  case (Node l y r)
  obtain b x where y: "y = (b, x)" by fastforce
  with Node.prems obtain m where m: "h b = Some m" "pay m = x" "p = Some b"
    "tree_at pay h (Some b) (bleft m) l" "tree_at pay h (Some b) (bright m) r" by auto
  have k: "f x = comparator m" using m(2) assms(2) by metis
  have "insert_descend h (Some a) par p =
      insert_descend h (Some a) p (if comparator n < comparator m then bleft m else bright m)"
    using assms(1) m by (simp add: insert_descend.simps [of h "Some a" par] deref_Some)
  with Node.IH(1) [OF m(4), of "(LEFT, y, r) # c"] Node.IH(2) [OF m(5), of "(RIGHT, y, l) # c"] m(3)
  show ?case by (simp add: y k par_of_def)
qed (simp add: insert_descend.simps)

section \<open>Updates of the heap\<close>

lemma ctx_at_cong:
  "\<forall>a \<in> set (map fst (ctx_list c)). h' a = h a \<Longrightarrow> ctx_at pay h' rt par p c = ctx_at pay h rt par p c"
proof (induction pay h rt par p c rule: ctx_at.induct)
  case (2 pay h rt par p b a x s c)
  then show ?case by (simp add: ball_Un image_Un tree_at_cong [of s h' h])
qed simp

lemma ctx_at_upd:
  "b \<notin> set (map fst (ctx_list c)) \<Longrightarrow> ctx_at pay (h(b := v)) rt par p c = ctx_at pay h rt par p c"
  by (rule ctx_at_cong) auto

lemma child_of_simps [simp]:
  "child_of b (set_child b p n) = p"
  "child_of (opposite b) (set_child b p n) = child_of (opposite b) n"
  "child_of b (set_child (opposite b) p n) = child_of b n"
  "bparent (set_child b p n) = bparent n"
  "comparator (set_child b p n) = comparator n"
  "opposite (opposite b) = b"
  by (cases b; simp add: child_of_def set_child_def opposite_def)+

lemma set_links_simps [simp]:
  "comparator (set_links par n) = comparator n"
  "bparent (set_links par n) = par"
  "bleft (set_links par n) = None"
  "bright (set_links par n) = None"
  by (simp_all add: set_links_def)

lemma ctx_at_set_child:
  assumes "ctx_at pay h rt par p ((b, (q, x), s) # c)"
    and "q \<notin> set (addrs s)" and "q \<notin> set (map fst (ctx_list c))"
    and "h q = Some m" and "pay (set_child b p' m) = pay m"
  shows "ctx_at pay (h(q \<mapsto> set_child b p' m)) rt par p' ((b, (q, x), s) # c)"
  using assms by (simp add: tree_at_upd ctx_at_upd)

lemma tree_at_leaf:
  "tree_at pay h par p \<langle>\<langle>\<rangle>, (a, x), \<langle>\<rangle>\<rangle> \<longleftrightarrow> p = Some a \<and>
     (\<exists>n. h a = Some n \<and> pay n = x \<and> bparent n = par \<and> bleft n = None \<and> bright n = None)"
  by auto

text \<open>Linking a fresh node, whose own links are set, at a hole of the tree.\<close>

lemma tree_at_link:
  assumes "tree_at pay h None rt (plug \<langle>\<rangle> c)" and d: "distinct (addrs (plug \<langle>\<rangle> c))"
    and a: "a \<notin> set (addrs (plug \<langle>\<rangle> c))"
    and n': "bparent n' = par_of c None" "bleft n' = None" "bright n' = None"
  shows "c = [] \<Longrightarrow> tree_at pay (h(a \<mapsto> n')) None (Some a) (plug \<langle>\<langle>\<rangle>, (a, pay n'), \<langle>\<rangle>\<rangle> c)"
    and "c = (b, (q, x), s) # c' \<Longrightarrow> (\<And>m. pay (set_child b (Some a) m) = pay m) \<Longrightarrow>
      \<exists>m. h q = Some m \<and> q \<noteq> a \<and>
        tree_at pay (h(a \<mapsto> n', q \<mapsto> set_child b (Some a) m)) None rt (plug \<langle>\<langle>\<rangle>, (a, pay n'), \<langle>\<rangle>\<rangle> c)"
proof -
  show "c = [] \<Longrightarrow> tree_at pay (h(a \<mapsto> n')) None (Some a) (plug \<langle>\<langle>\<rangle>, (a, pay n'), \<langle>\<rangle>\<rangle> c)"
    using n' by (simp add: tree_at_leaf par_of_def)
  assume c: "c = (b, (q, x), s) # c'" and pay: "\<And>m. pay (set_child b (Some a) m) = pay m"
  have "mset (addrs (plug \<langle>\<rangle> c)) = mset (map fst (ctx_list c))"
    using mset_plug [of "\<langle>\<rangle>" c] by (metis append_Nil inorder.simps(1) mset_map)
  then have set: "set (addrs (plug \<langle>\<rangle> c)) = set (map fst (ctx_list c))" by (metis set_mset_mset)
  have dist: "distinct (map fst (ctx_list c))" using d by (simp add: distinct_plug)
  obtain par where ctx: "ctx_at pay h rt par None c"
    using assms(1) unfolding tree_at_plug by auto
  then have "ctx_at pay (h(a \<mapsto> n')) rt par None c" using a set by (simp add: ctx_at_upd)
  moreover obtain m where m: "h q = Some m" using ctx c by auto
  moreover have q: "q \<noteq> a" using a set c by auto
  ultimately have "ctx_at pay (h(a \<mapsto> n', q \<mapsto> set_child b (Some a) m)) rt par (Some a) c"
    using dist pay unfolding c by (intro ctx_at_set_child) auto
  moreover have "par = par_of c None" using ctx by (rule ctx_at_par)
  ultimately show "\<exists>m. h q = Some m \<and> q \<noteq> a \<and>
      tree_at pay (h(a \<mapsto> n', q \<mapsto> set_child b (Some a) m)) None rt (plug \<langle>\<langle>\<rangle>, (a, pay n'), \<langle>\<rangle>\<rangle> c)"
    using m q n' unfolding tree_at_plug tree_at_leaf
    by auto
qed

section \<open>The operations on trees\<close>

text \<open>A state represents a tree: reached from the root, with consistent parent pointers.\<close>

definition bt_rep ::
  "(('d, 'z) BinaryNode_scheme \<Rightarrow> 'x) \<Rightarrow> ('d, 'z) BinaryNode_scheme BinaryTree \<Rightarrow> (addr \<times> 'x) tree \<Rightarrow> bool" where
  "bt_rep pay st t \<longleftrightarrow> tree_at pay (nodes st) None (root st) t \<and> distinct (addrs t)"

lemma set_addrs_plug_hole: "set (addrs (plug \<langle>\<rangle> (hole f k t []))) = set (addrs t)"
  by (simp add: plug_hole)

lemma addrs_bst_ins: "mset (inorder (bst_ins f x t)) = add_mset x (mset (inorder t))"
  by (induction f x t rule: bst_ins.induct) simp_all

lemma distinct_bst_ins:
  assumes "distinct (addrs t)" and "a \<notin> set (addrs t)"
  shows "distinct (addrs (bst_ins f (a, x) t))"
proof -
  have "mset (addrs (bst_ins f (a, x) t)) = mset (a # addrs t)"
    by (metis addrs_bst_ins image_mset_add_mset mset_map mset.simps(2) fst_conv)
  then have "distinct (addrs (bst_ins f (a, x) t)) \<longleftrightarrow> distinct (a # addrs t)"
    by (rule mset_eq_imp_distinct_iff)
  with assms show ?thesis by simp
qed

lemma set_child_idem [simp]: "set_child b p (set_child b p n) = set_child b p n"
  by (simp add: set_child_def)

lemma hole_parent_in:
  assumes "hole f k t [] = (b, (q, x), s) # c"
  shows "q \<in> set (addrs t)"
proof -
  have "mset (inorder t) = mset (ctx_list ((b, (q, x), s) # c))"
    using mset_plug [of "\<langle>\<rangle>" "hole f k t []"] plug_hole [of f k t "[]"] assms by simp
  then have "set (inorder t) = set (ctx_list ((b, (q, x), s) # c))" by (metis set_mset_mset)
  then show ?thesis by force
qed

text \<open>
  Linking a fresh node under the parent the search found gives the tree with the node
  inserted, and linking it a second time changes nothing.
\<close>

lemma link_hole:
  fixes f :: "'x \<Rightarrow> 'd::linorder"
  assumes t: "tree_at pay h None rt t" "distinct (addrs t)" "a \<notin> set (addrs t)"
    and key: "\<And>m. f (pay m) = comparator m" "\<And>b p m. pay (set_child b p m) = pay m"
    and n': "bparent n' = par" "bleft n' = None" "bright n' = None"
    and par: "par = par_of (hole (f \<circ> snd) (comparator n') t []) None"
  shows "par = None \<Longrightarrow> tree_at pay (h(a \<mapsto> n')) None (Some a) (bst_ins (f \<circ> snd) (a, pay n') t)"
    and "par \<noteq> None \<Longrightarrow> \<exists>h'. link_under (Some a) par (h(a \<mapsto> n')) = Inr h' \<and>
      link_under (Some a) par h' = Inr h' \<and> h' a = Some n' \<and>
      tree_at pay h' None rt (bst_ins (f \<circ> snd) (a, pay n') t) \<and>
      (\<forall>b. b \<notin> insert a (set (addrs t)) \<longrightarrow> h' b = h b) \<and>
      (\<forall>b. b \<noteq> a \<longrightarrow> map_option comparator (h' b) = map_option comparator (h b))"
proof -
  define c where "c = hole (f \<circ> snd) (comparator n') t []"
  have ins: "plug \<langle>\<langle>\<rangle>, (a, pay n'), \<langle>\<rangle>\<rangle> c = bst_ins (f \<circ> snd) (a, pay n') t"
    using plug_hole_ins [of "(a, pay n')" "f \<circ> snd" t "[]"] by (simp add: c_def key)
  have t': "tree_at pay h None rt (plug \<langle>\<rangle> c)" "distinct (addrs (plug \<langle>\<rangle> c))"
    "a \<notin> set (addrs (plug \<langle>\<rangle> c))"
    using t by (simp_all add: c_def plug_hole)
  note link = tree_at_link [OF t' n'(1) [unfolded par, folded c_def] n'(2,3), unfolded ins]
  show "par = None \<Longrightarrow> tree_at pay (h(a \<mapsto> n')) None (Some a) (bst_ins (f \<circ> snd) (a, pay n') t)"
    using link(1) unfolding par c_def [symmetric] by (cases c) (auto simp: par_of_def)
  assume "par \<noteq> None"
  then obtain b q x s c' where c: "c = (b, (q, x), s) # c'" and q: "par = Some q"
    unfolding par c_def [symmetric] by (cases c) (auto simp: par_of_def)
  obtain m where m: "h q = Some m" "q \<noteq> a"
    "tree_at pay (h(a \<mapsto> n', q \<mapsto> set_child b (Some a) m)) None rt (bst_ins (f \<circ> snd) (a, pay n') t)"
    using link(2) [OF c] key(2) by blast
  have "pay m = x" using t'(1) m(1) unfolding tree_at_plug c by auto
  then have "comparator m = f x" using key(1) by metis
  moreover have "b = (if comparator n' < f x then LEFT else RIGHT)"
    using hole_key [OF c [unfolded c_def]] bchild_cases [of b] by auto
  moreover have "q \<in> set (addrs t)" by (rule hole_parent_in [OF c [unfolded c_def]])
  ultimately show "\<exists>h'. link_under (Some a) par (h(a \<mapsto> n')) = Inr h' \<and>
      link_under (Some a) par h' = Inr h' \<and> h' a = Some n' \<and>
      tree_at pay h' None rt (bst_ins (f \<circ> snd) (a, pay n') t) \<and>
      (\<forall>b. b \<notin> insert a (set (addrs t)) \<longrightarrow> h' b = h b) \<and>
      (\<forall>b. b \<noteq> a \<longrightarrow> map_option comparator (h' b) = map_option comparator (h b))"
    using m by (intro exI [of _ "h(a \<mapsto> n', q \<mapsto> set_child b (Some a) m)"])
      (auto simp: q link_under_def deref_Some mutate_Some)
qed

lemma BinaryTree_insert_rep:
  fixes st :: "('d::linorder, 'z) BinaryNode_scheme BinaryTree"
  assumes rep: "bt_rep comparator st t" and a: "nodes st a = Some n" "a \<notin> set (addrs t)"
  obtains st' where "BinaryTree_insert (Some a) st = Some (Inr st')"
    and "bt_rep comparator st' (bst_ins snd (a, comparator n) t)"
    and "\<forall>b. b \<notin> insert a (set (addrs t)) \<longrightarrow> nodes st' b = nodes st b"
    and "\<forall>b. map_option comparator (nodes st' b) = map_option comparator (nodes st b)"
proof -
  define par where "par = par_of (hole snd (comparator n) t []) None"
  let ?n' = "set_links par n"
  have desc: "insert_descend (nodes st) (Some a) None (root st) = Some (Inr par)"
    using insert_descend_hole [of "nodes st" a n id comparator None "root st" t "[]"] rep a(1)
    by (simp add: bt_rep_def par_of_def par_def)
  have mut: "mutate (set_links par) (Some a) (nodes st) = Inr ((nodes st)(a \<mapsto> ?n'))"
    using a(1) by (simp add: mutate_Some)
  have dist: "distinct (addrs (bst_ins snd (a, comparator n) t))"
    using rep a(2) by (simp add: bt_rep_def distinct_bst_ins)
  have t: "tree_at comparator (nodes st) None (root st) t" "distinct (addrs t)"
    using rep by (simp_all add: bt_rep_def)
  have p: "par = par_of (hole ((\<lambda>x. x) \<circ> snd) (comparator ?n') t []) None"
    by (simp add: par_def comp_def)
  note link = link_hole [where f = "\<lambda>x. x" and n' = ?n', OF t a(2) refl child_of_simps(5)
      set_links_simps(2-4) p]
  show thesis
  proof (cases "par = None")
    case True
    with link(1) desc mut dist a show thesis
      by (intro that [of "st\<lparr>nodes := (nodes st)(a \<mapsto> ?n'), root := Some a\<rparr>"])
        (auto simp: bt_rep_def BinaryTree_insert_def comp_def)
  next
    case False
    then obtain h' where h': "link_under (Some a) par ((nodes st)(a \<mapsto> ?n')) = Inr h'"
      "h' a = Some ?n'" "tree_at comparator h' None (root st) (bst_ins snd (a, comparator n) t)"
      "\<forall>b. b \<notin> insert a (set (addrs t)) \<longrightarrow> h' b = nodes st b"
      "\<forall>b. b \<noteq> a \<longrightarrow> map_option comparator (h' b) = map_option comparator (nodes st b)"
      using link(2) by (auto simp: comp_def)
    then have "\<forall>b. map_option comparator (h' b) = map_option comparator (nodes st b)"
      using a(1) by (metis option.simps(9) set_links_simps(1))
    with h' False desc mut dist show thesis
      by (intro that [of "st\<lparr>nodes := h'\<rparr>"]) (auto simp: bt_rep_def BinaryTree_insert_def)
  qed
qed

lemma find_loop_rep:
  assumes "tree_at pay h par p t" and key: "\<And>m. f (pay m) = comparator m"
    and "sorted (map (f \<circ> snd) (inorder t))"
  shows "(\<exists>x \<in> set (inorder t). f (snd x) = shell) \<Longrightarrow>
      \<exists>a x. find_loop h shell p = Some (Inr (Some a)) \<and> (a, x) \<in> set (inorder t) \<and> f x = shell"
    and "\<not> (\<exists>x \<in> set (inorder t). f (snd x) = shell) \<Longrightarrow>
      find_loop h shell p = Some (Inl (runtime_error ''node not found''))"
proof -
  have "if \<exists>x \<in> set (inorder t). f (snd x) = shell
    then \<exists>a x. find_loop h shell p = Some (Inr (Some a)) \<and> (a, x) \<in> set (inorder t) \<and> f x = shell
    else find_loop h shell p = Some (Inl (runtime_error ''node not found''))"
    using assms(1,3)
  proof (induction t arbitrary: par p)
    case (Node l y r)
    obtain b x where y: "y = (b, x)" by fastforce
    with Node.prems obtain m where m: "h b = Some m" "pay m = x" "p = Some b"
      "tree_at pay h (Some b) (bleft m) l" "tree_at pay h (Some b) (bright m) r" by auto
    have k: "f x = comparator m" using m(2) key by metis
    have step: "find_loop h shell p = (if comparator m > shell then find_loop h shell (bleft m)
        else if comparator m < shell then find_loop h shell (bright m) else Some (Inr p))"
      unfolding m(3) using m(1) by (simp add: find_loop.simps [of h shell "Some b"] deref_Some)
    have s: "sorted (map (f \<circ> snd) (inorder l))" "sorted (map (f \<circ> snd) (inorder r))"
      "\<forall>z \<in> set (inorder l). f (snd z) \<le> f x" "\<forall>z \<in> set (inorder r). f x \<le> f (snd z)"
      using Node.prems(2) by (auto simp: sorted_append y comp_def)
    note IH = Node.IH(1) [OF m(4) s(1)] Node.IH(2) [OF m(5) s(2)]
    consider "comparator m > shell" | "comparator m < shell" | "comparator m = shell"
      using less_linear by blast
    then show ?case using IH step s(3,4) m(3) by cases (fastforce simp: y k split: if_splits)+
  qed (simp add: find_loop.simps)
  then show "(\<exists>x \<in> set (inorder t). f (snd x) = shell) \<Longrightarrow>
      \<exists>a x. find_loop h shell p = Some (Inr (Some a)) \<and> (a, x) \<in> set (inorder t) \<and> f x = shell"
    and "\<not> (\<exists>x \<in> set (inorder t). f (snd x) = shell) \<Longrightarrow>
      find_loop h shell p = Some (Inl (runtime_error ''node not found''))"
    by (simp_all split: if_splits)
qed

lemma get_nnodes_rep:
  "tree_at pay h par p t \<Longrightarrow> get_nnodes h p nn = Some (Inr (nn + word_of_nat (size t)))"
proof (induction t arbitrary: par p nn)
  case (Node l y r)
  obtain b x where y: "y = (b, x)" by fastforce
  with Node.prems obtain m where m: "h b = Some m" "p = Some b"
    "tree_at pay h (Some b) (bleft m) l" "tree_at pay h (Some b) (bright m) r" by auto
  show ?case
    using Node.IH(1) [OF m(3)] Node.IH(2) [OF m(4)] m(1)
    unfolding m(2) by (simp add: get_nnodes.simps [of h "Some b"] deref_Some algebra_simps)
qed (simp add: get_nnodes.simps)

lemma delete_node_rep:
  assumes "tree_at pay h par p t" and "distinct (addrs t)"
  shows "delete_node h p = Some (Inr (h |` (- set (addrs t))))"
  using assms
proof (induction t arbitrary: h par p)
  case (Node l y r)
  obtain b x where y: "y = (b, x)" by fastforce
  with Node.prems obtain m where m: "h b = Some m" "p = Some b"
    "tree_at pay h (Some b) (bleft m) l" "tree_at pay h (Some b) (bright m) r" by auto
  define h1 where "h1 = h |` (- set (addrs l))"
  have d: "distinct (addrs l)" "distinct (addrs r)" "b \<notin> set (addrs l)" "b \<notin> set (addrs r)"
    "set (addrs l) \<inter> set (addrs r) = {}"
    using Node.prems(2) by (auto simp: y)
  have "\<forall>a \<in> set (addrs r). h1 a = h a" using d(5) by (auto simp: h1_def restrict_map_def)
  then have h1: "h1 b = Some m" "tree_at pay h1 (Some b) (bright m) r"
    using m d(3) by (simp_all add: tree_at_cong [of r h1 h]) (simp add: h1_def restrict_map_def)
  have l: "(if bleft m \<noteq> None then delete_node h (bleft m) else Some (Inr h)) = Some (Inr h1)"
    using Node.IH(1) [OF m(3) d(1)] tree_at_ptr [OF m(3)] by (auto simp: h1_def)
  define h2 where "h2 = h1 |` (- set (addrs r))"
  have r: "(if bright m \<noteq> None then delete_node h1 (bright m) else Some (Inr h1)) = Some (Inr h2)"
    using Node.IH(2) [OF h1(2) d(2)] tree_at_ptr [OF h1(2)] by (auto simp: h2_def)
  have "h2 b = Some m" using h1(1) d(4) by (simp add: h2_def restrict_map_def)
  then have "delete_node h p = Some (Inr (h2(b := None)))"
    unfolding m(2) delete_node.simps [of h "Some b"]
    using m(1) h1(1) l r by (simp add: deref_Some free_node_Some)
  moreover have "h2(b := None) = h |` (- set (addrs \<langle>l, y, r\<rangle>))"
    by (auto simp: h2_def h1_def y restrict_map_def)
  ultimately show ?case by simp
qed (simp add: delete_node.simps restrict_map_def)

section \<open>The interface of an ordered tree\<close>

text \<open>
  What the users of a search tree rely on: a state holds a list of nodes with their keys, in
  ascending order of key; inserting a node that is not in it places it before the first
  greater key; and the search finds a node with a key exactly when there is one.
\<close>

locale ordered_tree =
  fixes holds :: "'st \<Rightarrow> (addr \<times> 'd::linorder) list \<Rightarrow> bool"
    and key :: "'st \<Rightarrow> addr \<Rightarrow> 'd option"
    and insert_node :: "ptr \<Rightarrow> 'st \<Rightarrow> 'st exec"
    and find_node :: "'d \<Rightarrow> 'st \<Rightarrow> ptr exec"
  assumes holds_sorted: "holds st xs \<Longrightarrow> sorted (map snd xs)"
    and insert_holds: "holds st xs \<Longrightarrow> key st a = Some k \<Longrightarrow> a \<notin> fst ` set xs \<Longrightarrow>
      \<exists>st'. insert_node (Some a) st = Some (Inr st') \<and> holds st' (insert_gt snd (a, k) xs) \<and>
            key st' = key st"
    and find_holds: "holds st xs \<Longrightarrow> k \<in> snd ` set xs \<Longrightarrow>
      \<exists>a. find_node k st = Some (Inr (Some a)) \<and> (a, k) \<in> set xs"
    and find_absent: "holds st xs \<Longrightarrow> k \<notin> snd ` set xs \<Longrightarrow>
      find_node k st = Some (Inl (runtime_error ''node not found''))"
begin

lemma insert_all_holds:
  "holds st xs \<Longrightarrow> distinct as \<Longrightarrow> set as \<inter> fst ` set xs = {} \<Longrightarrow> \<forall>a \<in> set as. key st a \<noteq> None \<Longrightarrow>
   \<exists>st'. foldX (\<lambda>a. insert_node (Some a)) as st = Some (Inr st') \<and> key st' = key st \<and>
     holds st' (fold (insert_gt snd) (map (\<lambda>a. (a, the (key st a))) as) xs)"
proof (induction as arbitrary: st xs)
  case (Cons a as)
  then obtain k where k: "key st a = Some k" by auto
  obtain st1 where st1: "insert_node (Some a) st = Some (Inr st1)"
    "holds st1 (insert_gt snd (a, k) xs)" "key st1 = key st"
    using insert_holds [OF Cons.prems(1) k] Cons.prems(3) by auto
  with Cons.IH [OF st1(2)] Cons.prems k show ?case by auto
qed simp

lemma mset_fold_insert: "mset (fold (insert_gt f) ys xs) = mset (ys @ xs)"
  by (induction ys arbitrary: xs) simp_all

lemma insert_all_sorted:
  assumes "holds st []" and "distinct as" and "\<forall>a \<in> set as. key st a \<noteq> None"
  shows "\<exists>st' ys. foldX (\<lambda>a. insert_node (Some a)) as st = Some (Inr st') \<and> holds st' ys \<and>
    mset ys = mset (map (\<lambda>a. (a, the (key st a))) as) \<and>
    map snd ys = sort (map (\<lambda>a. the (key st a)) as)"
proof -
  let ?ys = "fold (insert_gt snd) (map (\<lambda>a. (a, the (key st a))) as) []"
  obtain st' where st': "foldX (\<lambda>a. insert_node (Some a)) as st = Some (Inr st')" "holds st' ?ys"
    using insert_all_holds [OF assms(1,2) _ assms(3)] by auto
  have m: "mset ?ys = mset (map (\<lambda>a. (a, the (key st a))) as)"
    unfolding mset_fold_insert by simp
  then have "mset (map snd ?ys) = mset (map (\<lambda>a. the (key st a)) as)"
    by (simp add: image_mset.compositionality comp_def)
  then have "map snd ?ys = sort (map (\<lambda>a. the (key st a)) as)"
    using holds_sorted [OF st'(2)] by (intro sorted_keys_unique)
  with st' m show ?thesis by blast
qed

lemma insert_all_find:
  assumes "holds st []" and "distinct as" and "\<forall>a \<in> set as. key st a \<noteq> None"
  shows "\<exists>st'. foldX (\<lambda>a. insert_node (Some a)) as st = Some (Inr st') \<and>
    (\<forall>a \<in> set as. \<forall>k. key st a = Some k \<longrightarrow>
       (\<exists>b \<in> set as. find_node k st' = Some (Inr (Some b)) \<and> key st b = Some k)) \<and>
    (\<forall>k. k \<notin> (\<lambda>a. the (key st a)) ` set as \<longrightarrow>
       find_node k st' = Some (Inl (runtime_error ''node not found'')))"
proof -
  obtain st' ys where st': "foldX (\<lambda>a. insert_node (Some a)) as st = Some (Inr st')" "holds st' ys"
    "mset ys = mset (map (\<lambda>a. (a, the (key st a))) as)"
    using insert_all_sorted [OF assms] by blast
  from st'(3) have set: "set ys = (\<lambda>a. (a, the (key st a))) ` set as"
    by (metis image_set set_mset_mset)
  have "\<exists>b \<in> set as. find_node k st' = Some (Inr (Some b)) \<and> key st b = Some k"
    if "a \<in> set as" "key st a = Some k" for a k
  proof -
    have "k \<in> snd ` set ys" using that set by force
    from find_holds [OF st'(2) this] show ?thesis using set assms(3) by fastforce
  qed
  moreover have "snd ` set ys = (\<lambda>a. the (key st a)) ` set as" using set by force
  then have "\<forall>k. k \<notin> (\<lambda>a. the (key st a)) ` set as \<longrightarrow>
      find_node k st' = Some (Inl (runtime_error ''node not found''))"
    using find_absent [OF st'(2)] by blast
  ultimately show ?thesis using st'(1) by blast
qed

end

definition bt_holds :: "('d::linorder, 'z) BinaryNode_scheme BinaryTree \<Rightarrow> (addr \<times> 'd) list \<Rightarrow> bool" where
  "bt_holds st xs \<longleftrightarrow> (\<exists>t. bt_rep comparator st t \<and> inorder t = xs \<and> sorted (map snd xs))"

definition key_at :: "('d, 'z) BinaryNode_scheme BinaryTree \<Rightarrow> addr \<Rightarrow> 'd option" where
  "key_at st a = map_option comparator (nodes st a)"

interpretation bt: ordered_tree bt_holds key_at BinaryTree_insert BinaryTree_find
proof
  fix st :: "('d::linorder, 'z) BinaryNode_scheme BinaryTree" and xs a k
  assume "bt_holds st xs" and "key_at st a = Some k" and a: "a \<notin> fst ` set xs"
  then obtain t n where t: "bt_rep comparator st t" "inorder t = xs" "sorted (map snd (inorder t))"
    and n: "nodes st a = Some n" "comparator n = k"
    by (auto simp: bt_holds_def key_at_def)
  have a': "a \<notin> set (addrs t)" using a t(2) by simp
  obtain st' where "BinaryTree_insert (Some a) st = Some (Inr st')"
    "bt_rep comparator st' (bst_ins snd (a, k) t)" "key_at st' = key_at st"
    by (rule BinaryTree_insert_rep [OF t(1) n(1) a']) (simp add: key_at_def fun_eq_iff n(2))
  then show "\<exists>st'. BinaryTree_insert (Some a) st = Some (Inr st') \<and>
      bt_holds st' (insert_gt snd (a, k) xs) \<and> key_at st' = key_at st"
    using t inorder_bst_ins [OF t(3)] sorted_insert_gt [OF t(3)] by (auto simp: bt_holds_def)
next
  fix st :: "('d::linorder, 'z) BinaryNode_scheme BinaryTree" and xs k
  assume "bt_holds st xs"
  then obtain t where t: "tree_at comparator (nodes st) None (root st) t" "inorder t = xs"
    "sorted (map ((\<lambda>x. x) \<circ> snd) (inorder t))"
    by (auto simp: bt_holds_def bt_rep_def comp_def)
  note find = find_loop_rep [where f = "\<lambda>x. x", OF t(1) refl t(3), of k]
  show "\<exists>a. BinaryTree_find k st = Some (Inr (Some a)) \<and> (a, k) \<in> set xs" if "k \<in> snd ` set xs"
    using find(1) that unfolding t(2) BinaryTree_find_def by (auto simp: image_iff)
  show "BinaryTree_find k st = Some (Inl (runtime_error ''node not found''))" if "k \<notin> snd ` set xs"
    using find(2) that unfolding t(2) BinaryTree_find_def by (auto simp: image_iff)
qed (auto simp: bt_holds_def)

section \<open>Properties\<close>

definition bt_example :: "int BinaryNode BinaryTree" where
  "bt_example = \<lparr>nodes = [2 \<mapsto> \<lparr>comparator = 5, bparent = None, bleft = None, bright = None\<rparr>,
      3 \<mapsto> \<lparr>comparator = 2, bparent = None, bleft = None, bright = None\<rparr>,
      4 \<mapsto> \<lparr>comparator = 8, bparent = None, bleft = None, bright = None\<rparr>], root = None, depth = 0\<rparr>"

text \<open>
  C11. Inserting any nodes, each once, into an empty tree returns; the nodes are then linked
  as a search tree that holds exactly them in ascending order of comparator; a search for
  the comparator of any of them finds a node with that comparator, and any other search
  throws.
\<close>

theorem BinaryTree_insert_all:
  assumes "root st = None" and "distinct as" and "\<forall>a \<in> set as. nodes st a \<noteq> None"
  shows "\<exists>st' t. foldX (\<lambda>a. BinaryTree_insert (Some a)) as st = Some (Inr st') \<and>
    bt_rep comparator st' t \<and>
    mset (inorder t) = mset (map (\<lambda>a. (a, the (key_at st a))) as) \<and>
    map snd (inorder t) = sort (map (\<lambda>a. the (key_at st a)) as) \<and>
    (\<forall>k. if k \<in> (\<lambda>a. the (key_at st a)) ` set as
       then \<exists>b \<in> set as. BinaryTree_find k st' = Some (Inr (Some b)) \<and> key_at st b = Some k
       else BinaryTree_find k st' = Some (Inl (runtime_error ''node not found'')))"
proof -
  have h: "bt_holds st []" using assms(1) by (auto simp: bt_holds_def bt_rep_def intro: exI [of _ "\<langle>\<rangle>"])
  have k: "\<forall>a \<in> set as. key_at st a \<noteq> None" using assms(3) by (simp add: key_at_def)
  obtain st' ys where s: "foldX (\<lambda>a. BinaryTree_insert (Some a)) as st = Some (Inr st')" "bt_holds st' ys"
    "mset ys = mset (map (\<lambda>a. (a, the (key_at st a))) as)"
    "map snd ys = sort (map (\<lambda>a. the (key_at st a)) as)"
    using bt.insert_all_sorted [OF h assms(2) k] by blast
  then obtain t where t: "bt_rep comparator st' t" "inorder t = ys" by (auto simp: bt_holds_def)
  have f: "\<forall>a \<in> set as. \<forall>q. key_at st a = Some q \<longrightarrow>
      (\<exists>b \<in> set as. BinaryTree_find q st' = Some (Inr (Some b)) \<and> key_at st b = Some q)"
    "\<forall>q. q \<notin> (\<lambda>a. the (key_at st a)) ` set as \<longrightarrow>
      BinaryTree_find q st' = Some (Inl (runtime_error ''node not found''))"
    using bt.insert_all_find [OF h assms(2) k] s(1) by simp_all
  have "if q \<in> (\<lambda>a. the (key_at st a)) ` set as
       then \<exists>b \<in> set as. BinaryTree_find q st' = Some (Inr (Some b)) \<and> key_at st b = Some q
       else BinaryTree_find q st' = Some (Inl (runtime_error ''node not found''))" for q
  proof (cases "q \<in> (\<lambda>a. the (key_at st a)) ` set as")
    case True
    then obtain a where "a \<in> set as" "key_at st a = Some q" using k by force
    with f(1) True show ?thesis by simp
  qed (use f(2) in simp)
  with s t show ?thesis by blast
qed

theorem BinaryTree_insert_all_witness:
  "\<exists>st'. foldX (\<lambda>a. BinaryTree_insert (Some a)) [2, 3, 4] bt_example = Some (Inr st') \<and>
     BinaryTree_find 2 st' = Some (Inr (Some 3)) \<and>
     BinaryTree_find 7 st' = Some (Inl (runtime_error ''node not found''))"
proof -
  have k: "key_at bt_example 2 = Some 5" "key_at bt_example 3 = Some 2" "key_at bt_example 4 = Some 8"
    by (simp_all add: bt_example_def key_at_def)
  have pre: "root bt_example = None" "distinct [2, 3, 4 :: nat]"
    "\<forall>a \<in> set [2, 3, 4]. nodes bt_example a \<noteq> None"
    by (simp_all add: bt_example_def)
  obtain st' where s: "foldX (\<lambda>a. BinaryTree_insert (Some a)) [2, 3, 4] bt_example = Some (Inr st')"
    "\<forall>k. if k \<in> (\<lambda>a. the (key_at bt_example a)) ` set [2, 3, 4]
       then \<exists>b \<in> set [2, 3, 4]. BinaryTree_find k st' = Some (Inr (Some b)) \<and> key_at bt_example b = Some k
       else BinaryTree_find k st' = Some (Inl (runtime_error ''node not found''))"
    using BinaryTree_insert_all [OF pre] by blast
  from spec [OF s(2), of 2] spec [OF s(2), of 7] s(1) show ?thesis by (simp add: k)
qed

text \<open>
  C27. A node is counted once by \<^verbatim>\<open>get_nnodes\<close> and freed once by the destructor,
  which frees nothing outside the tree.
\<close>

theorem BinaryTree_count_and_free:
  assumes "bt_rep comparator st t"
  shows "get_nnodes (nodes st) (root st) 0 = Some (Inr (word_of_nat (length (inorder t)))) \<and>
    BinaryTree_dtor st = Some (Inr (nodes st |` (- set (addrs t))))"
  using assms get_nnodes_rep [of comparator "nodes st" None "root st" t 0] delete_node_rep
  by (auto simp: bt_rep_def BinaryTree_dtor_def)

theorem BinaryTree_count_and_free_witness:
  "get_nnodes (nodes (bt_example\<lparr>root := Some 2\<rparr>)) (Some 2) 0 = Some (Inr 1)"
proof -
  have "bt_rep comparator (bt_example\<lparr>root := Some 2\<rparr>) \<langle>\<langle>\<rangle>, (2, 5), \<langle>\<rangle>\<rangle>"
    by (simp add: bt_rep_def bt_example_def)
  from BinaryTree_count_and_free [OF this] show ?thesis by simp
qed

text \<open>
  \<^verbatim>\<open>insert_at\<close> throws when the requested child is populated and otherwise
  links the new node there as a leaf, leaving the other child of the parent as it was.
\<close>

theorem BinaryTree_insert_at_correct:
  assumes "nodes st a = Some n" and "nodes st q = Some m" and "q \<noteq> a"
  shows "if child_of pos m \<noteq> None
    then \<exists>msg. BinaryTree_insert_at (Some a) (Some q) pos st = Inl (runtime_error msg)
    else \<exists>h. BinaryTree_insert_at (Some a) (Some q) pos st = Inr (st\<lparr>nodes := h\<rparr>) \<and>
      map_option (child_of pos) (h q) = Some (Some a) \<and>
      map_option (child_of (opposite pos)) (h q) = Some (child_of (opposite pos) m) \<and>
      tree_at comparator h (Some q) (Some a) \<langle>\<langle>\<rangle>, (a, comparator n), \<langle>\<rangle>\<rangle> \<and>
      (\<forall>b. b \<notin> {a, q} \<longrightarrow> h b = nodes st b)"
  using assms by (cases pos)
    (auto simp: BinaryTree_insert_at_def deref_Some mutate_Some child_of_def opposite_def set_child_def)

theorem BinaryTree_insert_at_correct_witness:
  "\<exists>h. BinaryTree_insert_at (Some 3) (Some 2) LEFT bt_example = Inr (bt_example\<lparr>nodes := h\<rparr>)"
  using BinaryTree_insert_at_correct [of bt_example 3 "\<lparr>comparator = 2, bparent = None, bleft = None, bright = None\<rparr>"
    2 "\<lparr>comparator = 5, bparent = None, bleft = None, bright = None\<rparr>" LEFT]
  by (auto simp: bt_example_def child_of_def)

end
