(* ===== verification/RB_Tree.thy ===== *)
theory RB_Tree
  imports Binary_Tree
begin

text \<open>
  \<^verbatim>\<open>src/src/structures/RBNode.hpp\<close>, \<^verbatim>\<open>src/src/structures/RBTree.hpp\<close> and
  \<^verbatim>\<open>src/src/structures/RBTree.cpp\<close>: the red-black tree. The links of the record
  are the ones \<^verbatim>\<open>RBNode\<close> declares itself, which hide those of its base class; colour
  0 is black and 1 is red. Insertion is proved to refine insertion into a red-black tree,
  with rotations and recolouring on zippers; deletion and \<^verbatim>\<open>insert_at\<close> are modelled as
  they are written.
\<close>

section \<open>Nodes\<close>

record 'd RBNode = "'d BinaryNode" +
  color :: "8 word"

type_synonym 'd RBTree = "'d RBNode BinaryTree"

definition parent_of :: "'d RBNode heap \<Rightarrow> ptr \<Rightarrow> ptr result" where
  "parent_of h p = bindE (deref h p) (\<lambda>n. Inr (bparent n))"

definition color_of :: "'d RBNode heap \<Rightarrow> ptr \<Rightarrow> 8 word result" where
  "color_of h p = bindE (deref h p) (\<lambda>n. Inr (color n))"

definition set_color :: "8 word \<Rightarrow> ptr \<Rightarrow> 'd RBTree \<Rightarrow> 'd RBTree result" where
  "set_color v p st =
     bindE (mutate (\<lambda>n. n\<lparr>color := v\<rparr>) p (nodes st)) (\<lambda>h. Inr (st\<lparr>nodes := h\<rparr>))"

section \<open>Rotations and transplanting\<close>

text \<open>The parent of \<open>dest\<close>, or the root pointer, is made to point to \<open>src\<close>.\<close>

definition relink_parent :: "ptr \<Rightarrow> ptr \<Rightarrow> 'd RBTree \<Rightarrow> 'd RBTree result" where
  "relink_parent dest src st =
     bindE (parent_of (nodes st) dest) (\<lambda>par.
     if par = None then Inr (st\<lparr>root := src\<rparr>)
     else bindE (deref (nodes st) par) (\<lambda>p.
          bindE (mutate (\<lambda>n. if dest = bleft p then n\<lparr>bleft := src\<rparr> else n\<lparr>bright := src\<rparr>) par (nodes st))
            (\<lambda>h. Inr (st\<lparr>nodes := h\<rparr>))))"

definition rotate_left :: "ptr \<Rightarrow> 'd RBTree \<Rightarrow> 'd RBTree result" where
  "rotate_left x st =
     bindE (deref (nodes st) x) (\<lambda>xn. let y = bright xn in
     bindE (deref (nodes st) y) (\<lambda>yn.
     bindE (mutate (\<lambda>n. n\<lparr>bright := bleft yn\<rparr>) x (nodes st)) (\<lambda>h.
     bindE (deref h y) (\<lambda>yn.
     bindE (if bleft yn \<noteq> None then mutate (\<lambda>n. n\<lparr>bparent := x\<rparr>) (bleft yn) h else Inr h) (\<lambda>h.
     bindE (parent_of h x) (\<lambda>par.
     bindE (mutate (\<lambda>n. n\<lparr>bparent := par, bleft := x\<rparr>) y h) (\<lambda>h.
     bindE (relink_parent x y (st\<lparr>nodes := h\<rparr>)) (\<lambda>st.
     bindE (mutate (\<lambda>n. n\<lparr>bparent := y\<rparr>) x (nodes st)) (\<lambda>h.
     Inr (st\<lparr>nodes := h\<rparr>))))))))))"

definition rotate_right :: "ptr \<Rightarrow> 'd RBTree \<Rightarrow> 'd RBTree result" where
  "rotate_right y st =
     bindE (deref (nodes st) y) (\<lambda>yn. let x = bleft yn in
     bindE (deref (nodes st) x) (\<lambda>xn.
     bindE (mutate (\<lambda>n. n\<lparr>bleft := bright xn\<rparr>) y (nodes st)) (\<lambda>h.
     bindE (deref h x) (\<lambda>xn.
     bindE (if bright xn \<noteq> None then mutate (\<lambda>n. n\<lparr>bparent := y\<rparr>) (bright xn) h else Inr h) (\<lambda>h.
     bindE (parent_of h y) (\<lambda>par.
     bindE (mutate (\<lambda>n. n\<lparr>bparent := par, bright := y\<rparr>) x h) (\<lambda>h.
     bindE (relink_parent y x (st\<lparr>nodes := h\<rparr>)) (\<lambda>st.
     bindE (mutate (\<lambda>n. n\<lparr>bparent := x\<rparr>) y (nodes st)) (\<lambda>h.
     Inr (st\<lparr>nodes := h\<rparr>))))))))))"

definition transplant :: "ptr \<Rightarrow> ptr \<Rightarrow> 'd RBTree \<Rightarrow> 'd RBTree result" where
  "transplant dest src st =
     bindE (relink_parent dest src st) (\<lambda>st.
     if src \<noteq> None
     then bindE (parent_of (nodes st) dest) (\<lambda>par.
          bindE (mutate (\<lambda>n. n\<lparr>bparent := par\<rparr>) src (nodes st)) (\<lambda>h. Inr (st\<lparr>nodes := h\<rparr>)))
     else Inr st)"

partial_function (option) minimum :: "'d RBNode heap \<Rightarrow> ptr \<Rightarrow> ptr exec" where
  "minimum h t =
     bindX (Some (deref h t)) (\<lambda>n. if bleft n \<noteq> None then minimum h (bleft n) else Some (Inr t))"

section \<open>Insertion\<close>

text \<open>
  The node is coloured, its links are set and it is linked under its parent; \<^verbatim>\<open>insert\<close>
  and \<^verbatim>\<open>balance\<close> both begin with this.
\<close>

definition attach :: "ptr \<Rightarrow> ptr \<Rightarrow> 'd::linorder RBTree \<Rightarrow> 'd RBTree result" where
  "attach parent node st =
     (if parent = None
      then bindE (mutate (\<lambda>n. (set_links None n)\<lparr>color := 0\<rparr>) node (nodes st)) (\<lambda>h.
           Inr (st\<lparr>nodes := h, root := node\<rparr>))
      else bindE (mutate (\<lambda>n. (set_links parent n)\<lparr>color := 1\<rparr>) node (nodes st)) (\<lambda>h.
           bindE (link_under node parent h) (\<lambda>h. Inr (st\<lparr>nodes := h\<rparr>))))"

text \<open>The two branches of the body of the loop of \<^verbatim>\<open>balance\<close>, with the next node.\<close>

definition balance_recolor :: "ptr \<Rightarrow> ptr \<Rightarrow> 'd RBTree \<Rightarrow> (ptr \<times> 'd RBTree) result" where
  "balance_recolor new_node uncle st =
     bindE (parent_of (nodes st) new_node) (\<lambda>p.
     bindE (set_color 0 p st) (\<lambda>st.
     bindE (set_color 0 uncle st) (\<lambda>st.
     bindE (parent_of (nodes st) p) (\<lambda>g.
     bindE (set_color 1 g st) (\<lambda>st. Inr (g, st))))))"

definition balance_rotate :: "bool \<Rightarrow> ptr \<Rightarrow> 'd RBTree \<Rightarrow> (ptr \<times> 'd RBTree) result" where
  "balance_rotate side new_node st =
     bindE (parent_of (nodes st) new_node) (\<lambda>p.
     bindE (deref (nodes st) p) (\<lambda>pn.
     bindE (if new_node = (if side then bright pn else bleft pn)
            then bindE (if side then rotate_left p st else rotate_right p st) (\<lambda>st. Inr (p, st))
            else Inr (new_node, st)) (\<lambda>(new_node, st).
     bindE (parent_of (nodes st) new_node) (\<lambda>p.
     bindE (set_color 0 p st) (\<lambda>st.
     bindE (parent_of (nodes st) p) (\<lambda>g.
     bindE (set_color 1 g st) (\<lambda>st.
     bindE (if side then rotate_right g st else rotate_left g st) (\<lambda>st. Inr (new_node, st)))))))))"

text \<open>
  One test and round of the loop: \<open>None\<close> when the condition of the \<^verbatim>\<open>while\<close> fails,
  and otherwise the next node and the state.
\<close>

definition balance_round :: "ptr \<Rightarrow> 'd RBTree \<Rightarrow> (ptr \<times> 'd RBTree) option result" where
  "balance_round new_node st =
     bindE (parent_of (nodes st) new_node) (\<lambda>p.
     if p = None then Inr None
     else bindE (color_of (nodes st) p) (\<lambda>c.
     if c \<noteq> 1 then Inr None
     else bindE (parent_of (nodes st) p) (\<lambda>g.
     bindE (deref (nodes st) g) (\<lambda>gn.
     let side = (p = bleft gn); uncle = (if side then bright gn else bleft gn) in
     bindE (if uncle = None then Inr 0 else color_of (nodes st) uncle) (\<lambda>uc.
     bindE (if uc = 1 then balance_recolor new_node uncle st else balance_rotate side new_node st)
       (\<lambda>r. Inr (Some r)))))))"

partial_function (option) balance_loop :: "ptr \<Rightarrow> 'd RBTree \<Rightarrow> 'd RBTree exec" where
  "balance_loop new_node st =
     bindX (Some (balance_round new_node st)) (\<lambda>r.
     case r of None \<Rightarrow> Some (Inr st) | Some (new_node, st) \<Rightarrow> balance_loop new_node st)"

definition balance :: "ptr \<Rightarrow> ptr \<Rightarrow> 'd::linorder RBTree \<Rightarrow> 'd RBTree exec" where
  "balance parent node st =
     bindX (Some (attach parent node st)) (\<lambda>st.
     bindX (balance_loop node st) (\<lambda>st.
     Some (set_color 0 (root st) st)))"

definition RBTree_insert :: "ptr \<Rightarrow> 'd::linorder RBTree \<Rightarrow> 'd RBTree exec" where
  "RBTree_insert node st =
     bindX (insert_descend (nodes st) node None (root st)) (\<lambda>parent.
     bindX (Some (attach parent node st)) (balance parent node))"

definition RBTree_set_root :: "ptr \<Rightarrow> 'd::linorder RBTree \<Rightarrow> 'd RBTree exec" where
  "RBTree_set_root node st =
     (if node \<noteq> None then RBTree_insert node st else Some (Inl assert_failure))"

text \<open>
  \<^verbatim>\<open>insert_at\<close> passes the parent twice to \<^verbatim>\<open>balance\<close>; the branch for a null
  node comes after a read through it.
\<close>

definition RBTree_insert_at :: "ptr \<Rightarrow> ptr \<Rightarrow> bchild_t \<Rightarrow> 'd::linorder RBTree \<Rightarrow> 'd RBTree exec" where
  "RBTree_insert_at new_node node pos st =
     bindX (Some (deref (nodes st) node)) (\<lambda>n.
     if bleft n \<noteq> None then Some (Inl (runtime_error ''Left child already populated''))
     else bindX (Some (
       if node = None
       then bindE (mutate (\<lambda>n. (set_links None n)\<lparr>color := 0\<rparr>) node (nodes st)) (\<lambda>h.
            Inr (st\<lparr>nodes := h, root := node, depth := 1\<rparr>))
       else bindE (mutate (\<lambda>n. (set_links node n)\<lparr>color := 1\<rparr>) new_node (nodes st)) (\<lambda>h.
            bindE (mutate (set_child pos new_node) node h) (\<lambda>h. Inr (st\<lparr>nodes := h\<rparr>)))))
       (balance node node))"

definition RBTree_find :: "'d::linorder \<Rightarrow> 'd RBTree \<Rightarrow> ptr exec" where
  "RBTree_find shell st = find_loop (nodes st) shell (root st)"

definition RBTree_dtor :: "'d RBTree \<Rightarrow> 'd RBNode heap exec" where
  "RBTree_dtor st = delete_node (nodes st) (root st)"

section \<open>Deletion\<close>

partial_function (option) delete_descend :: "'d::linorder RBNode heap \<Rightarrow> 'd \<Rightarrow> ptr \<Rightarrow> ptr exec" where
  "delete_descend h shell node =
     (if node = None then Some (Inr None)
      else bindX (Some (deref h node)) (\<lambda>n.
        if comparator n > shell then delete_descend h shell (bleft n)
        else if comparator n < shell then delete_descend h shell (bright n)
        else Some (Inr node)))"

text \<open>The child of the parent of \<open>old\<close> on the other side of \<open>side\<close>.\<close>

definition sibling_of :: "bool \<Rightarrow> ptr \<Rightarrow> 'd RBTree \<Rightarrow> ptr result" where
  "sibling_of side old st =
     bindE (parent_of (nodes st) old) (\<lambda>p.
     bindE (deref (nodes st) p) (\<lambda>pn. Inr (if side then bright pn else bleft pn)))"

text \<open>The cases of the body of the loop, in the order of the source.\<close>

definition fix_red_sibling :: "bool \<Rightarrow> ptr \<Rightarrow> ptr \<Rightarrow> 'd RBTree \<Rightarrow> (ptr \<times> 'd RBTree) result" where
  "fix_red_sibling side old sibling st =
     bindE (color_of (nodes st) sibling) (\<lambda>c.
     if c = 1
     then bindE (set_color 0 sibling st) (\<lambda>st.
          bindE (parent_of (nodes st) old) (\<lambda>p.
          bindE (set_color 1 p st) (\<lambda>st.
          bindE (if side then rotate_left p st else rotate_right p st) (\<lambda>st.
          bindE (sibling_of side old st) (\<lambda>sibling. Inr (sibling, st))))))
     else Inr (sibling, st))"

definition fix_inner_child :: "bool \<Rightarrow> ptr \<Rightarrow> ptr \<Rightarrow> 'd RBTree \<Rightarrow> (ptr \<times> 'd RBTree) result" where
  "fix_inner_child side old sibling st =
     bindE (deref (nodes st) sibling) (\<lambda>s.
     bindE (color_of (nodes st) (if \<not> side then bright s else bleft s)) (\<lambda>c.
     if c \<noteq> 0
     then bindE (set_color 1 sibling st) (\<lambda>st.
          bindE (set_color 0 (if side then bleft s else bright s) st) (\<lambda>st.
          bindE (if side then rotate_right sibling st else rotate_left sibling st) (\<lambda>st.
          bindE (sibling_of side old st) (\<lambda>sibling. Inr (sibling, st)))))
     else Inr (sibling, st)))"

definition fix_outer_child :: "bool \<Rightarrow> ptr \<Rightarrow> ptr \<Rightarrow> 'd RBTree \<Rightarrow> (ptr \<times> 'd RBTree) result" where
  "fix_outer_child side old sibling st =
     bindE (parent_of (nodes st) old) (\<lambda>p.
     bindE (color_of (nodes st) p) (\<lambda>pc.
     bindE (set_color pc sibling st) (\<lambda>st.
     bindE (set_color 0 p st) (\<lambda>st.
     bindE (deref (nodes st) sibling) (\<lambda>s.
     bindE (set_color 0 (if side then bleft s else bright s) st) (\<lambda>st.
     bindE (if side then rotate_left p st else rotate_right p st) (\<lambda>st.
     Inr (root st, st))))))))"

definition delete_fixup_step :: "ptr \<Rightarrow> 'd RBTree \<Rightarrow> (ptr \<times> 'd RBTree) result" where
  "delete_fixup_step old st =
     bindE (parent_of (nodes st) old) (\<lambda>p.
     bindE (deref (nodes st) p) (\<lambda>pn. let side = (old = bleft pn) in
     bindE (fix_red_sibling side old (if side then bright pn else bleft pn) st) (\<lambda>(sibling, st).
     bindE (deref (nodes st) sibling) (\<lambda>s.
     bindE (color_of (nodes st) (bleft s)) (\<lambda>cl.
     bindE (if cl = 0 then color_of (nodes st) (bright s) else Inr 0) (\<lambda>cr.
     if cl = 0 \<and> cr = 1
     then bindE (set_color 1 sibling st) (\<lambda>st.
          bindE (parent_of (nodes st) old) (\<lambda>p. Inr (p, st)))
     else bindE (fix_inner_child side old sibling st) (\<lambda>(sibling, st).
          fix_outer_child side old sibling st)))))))"

partial_function (option) delete_fixup_loop :: "ptr \<Rightarrow> 'd RBTree \<Rightarrow> 'd RBTree exec" where
  "delete_fixup_loop old st =
     (if old = root st then Some (Inr st)
      else bindX (Some (color_of (nodes st) old)) (\<lambda>c.
        if c \<noteq> 0 then Some (Inr st)
        else bindX (Some (delete_fixup_step old st)) (\<lambda>(old, st). delete_fixup_loop old st)))"

text \<open>Unlinking a node with two children: its successor takes its place.\<close>

definition splice_successor :: "ptr \<Rightarrow> ptr \<Rightarrow> 'd RBTree \<Rightarrow> 'd RBTree result" where
  "splice_successor node old st =
     bindE (deref (nodes st) old) (\<lambda>m.
     bindE (if bparent m = node
            then bindE (mutate (\<lambda>k. k\<lparr>bparent := node\<rparr>) (bright m) (nodes st)) (\<lambda>h. Inr (st\<lparr>nodes := h\<rparr>))
            else bindE (transplant old (bright m) st) (\<lambda>st.
                 bindE (deref (nodes st) node) (\<lambda>n.
                 bindE (mutate (\<lambda>k. k\<lparr>bright := bright n\<rparr>) old (nodes st)) (\<lambda>h.
                 bindE (mutate (\<lambda>k. k\<lparr>bparent := old\<rparr>) (bright n) h) (\<lambda>h. Inr (st\<lparr>nodes := h\<rparr>)))))) (\<lambda>st.
     bindE (transplant node old st) (\<lambda>st.
     bindE (deref (nodes st) node) (\<lambda>n.
     bindE (mutate (\<lambda>k. k\<lparr>bleft := bleft n\<rparr>) old (nodes st)) (\<lambda>h.
     bindE (mutate (\<lambda>k. k\<lparr>bparent := old\<rparr>) (bleft n) h) (\<lambda>h.
     bindE (color_of h node) (\<lambda>c.
     bindE (mutate (\<lambda>k. k\<lparr>color := c\<rparr>) old h) (\<lambda>h. Inr (st\<lparr>nodes := h\<rparr>)))))))))"

text \<open>The unlinking of a node that was found, with \<open>old\<close> and its original colour.\<close>

definition unlink_node :: "ptr \<Rightarrow> 'd RBTree \<Rightarrow> (ptr \<times> 8 word \<times> 'd RBTree) exec" where
  "unlink_node node st =
     bindX (Some (deref (nodes st) node)) (\<lambda>n.
     if bleft n = None
     then bindX (Some (transplant node (bright n) st)) (\<lambda>st. Some (Inr (None, 0, st)))
     else if bright n = None
     then bindX (Some (transplant node (bleft n) st)) (\<lambda>st. Some (Inr (None, 0, st)))
     else bindX (minimum (nodes st) (bright n)) (\<lambda>old.
          bindX (Some (color_of (nodes st) old)) (\<lambda>original.
          bindX (Some (splice_successor node old st)) (\<lambda>st. Some (Inr (old, original, st))))))"

definition RBTree_delete :: "'d::linorder \<Rightarrow> 'd RBTree \<Rightarrow> 'd RBTree exec" where
  "RBTree_delete shell st =
     bindX (delete_descend (nodes st) shell (root st)) (\<lambda>node.
     if node = None then Some (Inr st)
     else bindX (Some (deref (nodes st) node)) (\<lambda>n.
     if comparator n \<noteq> shell then Some (Inr st)
     else bindX (unlink_node node st) (\<lambda>(old, original, st).
          bindX (Some (free_node node (nodes st))) (\<lambda>h.
          let st = st\<lparr>nodes := h\<rparr> in
          if original = 0 then delete_fixup_loop old st else Some (Inr st)))))"

section \<open>Rotations in one form\<close>

text \<open>Both rotations are one operation with the sides exchanged.\<close>

definition rotate :: "bchild_t \<Rightarrow> ptr \<Rightarrow> 'd RBTree \<Rightarrow> 'd RBTree result" where
  "rotate b x st =
     bindE (deref (nodes st) x) (\<lambda>xn. let y = child_of (opposite b) xn in
     bindE (deref (nodes st) y) (\<lambda>yn.
     bindE (mutate (set_child (opposite b) (child_of b yn)) x (nodes st)) (\<lambda>h.
     bindE (deref h y) (\<lambda>yn.
     bindE (if child_of b yn \<noteq> None then mutate (\<lambda>n. n\<lparr>bparent := x\<rparr>) (child_of b yn) h else Inr h) (\<lambda>h.
     bindE (parent_of h x) (\<lambda>par.
     bindE (mutate (\<lambda>n. set_child b x (n\<lparr>bparent := par\<rparr>)) y h) (\<lambda>h.
     bindE (relink_parent x y (st\<lparr>nodes := h\<rparr>)) (\<lambda>st.
     bindE (mutate (\<lambda>n. n\<lparr>bparent := y\<rparr>) x (nodes st)) (\<lambda>h.
     Inr (st\<lparr>nodes := h\<rparr>))))))))))"

lemma side_simps:
  "child_of LEFT = bleft" "child_of RIGHT = bright"
  "set_child LEFT p = bleft_update (\<lambda>_. p)" "set_child RIGHT p = bright_update (\<lambda>_. p)"
  "opposite LEFT = RIGHT" "opposite RIGHT = LEFT"
  by (simp_all add: fun_eq_iff child_of_def set_child_def opposite_def)

lemma rotate_left_eq: "rotate_left = rotate LEFT"
  unfolding fun_eq_iff rotate_left_def rotate_def side_simps by simp

lemma rotate_right_eq: "rotate_right = rotate RIGHT"
  unfolding fun_eq_iff rotate_right_def rotate_def side_simps by simp

section \<open>Rotations and colours on zippers\<close>

definition rb_pay :: "'d RBNode \<Rightarrow> 'd \<times> 8 word" where
  "rb_pay n = (comparator n, color n)"

lemma rb_pay_links [simp]:
  "rb_pay (n\<lparr>bparent := p\<rparr>) = rb_pay n"
  "rb_pay (set_child b p n) = rb_pay n"
  "rb_pay (n\<lparr>color := v\<rparr>) = (comparator n, v)"
  by (simp_all add: rb_pay_def set_child_def)

lemma child_of_parent_upd [simp]:
  "child_of b (n\<lparr>bparent := p\<rparr>) = child_of b n" "child_of b (n\<lparr>color := v\<rparr>) = child_of b n"
  by (simp_all add: child_of_def)

definition reparent :: "'d RBNode heap \<Rightarrow> ptr \<Rightarrow> ptr \<Rightarrow> 'd RBNode heap" where
  "reparent h p par = (case p of None \<Rightarrow> h | Some a \<Rightarrow> h(a := map_option (\<lambda>n. n\<lparr>bparent := par\<rparr>) (h a)))"

lemma tree_at_reparent:
  assumes "tree_at rb_pay h par p t" and "distinct (addrs t)"
  shows "tree_at rb_pay (reparent h p par') par' p t"
proof (cases t)
  case (Node l y r)
  obtain a x where y: "y = (a, x)" by (cases y)
  with assms Node obtain n where n: "h a = Some n" "p = Some a" "rb_pay n = x"
    "tree_at rb_pay h (Some a) (bleft n) l" "tree_at rb_pay h (Some a) (bright n) r" by auto
  have "a \<notin> set (addrs l)" "a \<notin> set (addrs r)" using assms(2) by (auto simp: Node y)
  with n show ?thesis by (simp add: reparent_def Node y tree_at_upd)
qed (use assms in simp)

lemma reparent_outside: "tree_at rb_pay h par p t \<Longrightarrow> a \<notin> set (addrs t) \<Longrightarrow> reparent h p q a = h a"
  by (cases t) (auto simp: reparent_def)

lemma mutate_reparent:
  assumes "tree_at rb_pay h par p t"
  shows "(if p \<noteq> None then mutate (\<lambda>n. n\<lparr>bparent := q\<rparr>) p h else Inr h) = Inr (reparent h p q)"
  using assms by (cases t) (auto simp: reparent_def mutate_Some)

definition relink :: "(addr \<times> 'x) ctx \<Rightarrow> ptr \<Rightarrow> 'd RBTree \<Rightarrow> 'd RBTree" where
  "relink c p st = (case c of
     [] \<Rightarrow> st\<lparr>root := p\<rparr>
   | (b, (q, x), s) # _ \<Rightarrow> st\<lparr>nodes := (nodes st)(q := map_option (set_child b p) (nodes st q))\<rparr>)"

lemma ctx_at_relink:
  assumes "ctx_at rb_pay (nodes st) (root st) par p c" and "distinct (map fst (ctx_list c))"
  shows "ctx_at rb_pay (nodes (relink c p' st)) (root (relink c p' st)) par p' c"
proof (cases c)
  case (Cons e c')
  obtain b q x s where e: "e = (b, (q, x), s)" by (cases e) auto
  obtain m where "nodes st q = Some m" using assms(1) by (auto simp: Cons e)
  with assms ctx_at_set_child [of rb_pay "nodes st" "root st" par p b q x s c' m p'] show ?thesis
    by (simp add: Cons e relink_def)
qed (use assms in \<open>simp add: relink_def\<close>)

lemma relink_outside:
  "a \<notin> set (map fst (ctx_list c)) \<Longrightarrow> nodes (relink c p st) a = nodes st a"
  by (cases c) (auto simp: relink_def)

lemma relink_keys: "map_option comparator (nodes (relink c p st) a) = map_option comparator (nodes st a)"
  by (cases c) (auto simp: relink_def option.map_comp comp_def)

lemma reparent_keys: "map_option comparator (reparent h p q a) = map_option comparator (h a)"
  by (cases p) (auto simp: reparent_def option.map_comp comp_def)

text \<open>The hole of the context is told from the other child of its parent.\<close>

lemma relink_parent_eq:
  assumes ctx: "ctx_at rb_pay (nodes st) (root st) par (Some x) c"
    and x: "nodes st x = Some xn" "bparent xn = par" "x \<notin> set (map fst (ctx_list c))"
  shows "relink_parent (Some x) y st = Inr (relink c y st)"
proof (cases c)
  case Nil
  then have "par = None" using ctx by simp
  with x Nil show ?thesis by (simp add: relink_parent_def relink_def parent_of_def deref_Some)
next
  case (Cons e c')
  obtain b q w s where e: "e = (b, (q, w), s)" by (cases e) auto
  obtain m where m: "nodes st q = Some m" "par = Some q" "child_of b m = Some x"
    "tree_at rb_pay (nodes st) (Some q) (child_of (opposite b) m) s"
    using ctx by (auto simp: Cons e)
  have "child_of (opposite b) m \<noteq> Some x"
    using m(4) x(3) by (cases s) (auto simp: Cons e)
  then have "Some x = bleft m \<longleftrightarrow> b = LEFT" using m(3) bchild_cases [of b] by (auto simp: side_simps)
  with x m show ?thesis
    by (simp add: relink_parent_def relink_def parent_of_def deref_Some mutate_Some Cons e set_child_def)
qed

text \<open>A state represents a tree with keys and colours; the nodes outside it, and all keys, are kept.\<close>

definition keeps :: "(addr \<times> 'x) tree \<Rightarrow> 'd RBTree \<Rightarrow> 'd RBTree \<Rightarrow> bool" where
  "keeps t st st' \<longleftrightarrow> (\<forall>a. a \<notin> set (addrs t) \<longrightarrow> nodes st' a = nodes st a) \<and> key_at st' = key_at st"

lemma keeps_trans: "keeps t st st' \<Longrightarrow> keeps t' st' st'' \<Longrightarrow> set (addrs t') = set (addrs t) \<Longrightarrow> keeps t st st''"
  by (simp add: keeps_def)

lemma set_addrs_plug: "set (addrs (plug t c)) = set (addrs t) \<union> set (map fst (ctx_list c))"
proof -
  have "mset (addrs (plug t c)) = mset (addrs t @ map fst (ctx_list c))"
    by (metis mset_plug mset_map map_append)
  then show ?thesis by (metis set_append set_mset_mset)
qed

lemma distinct_append_notin: "distinct (xs @ ys) \<Longrightarrow> a \<in> set xs \<Longrightarrow> a \<notin> set ys"
  by auto

text \<open>A place where a rotation applies, and the state after it.\<close>

definition rot_site ::
  "bchild_t \<Rightarrow> 'd RBTree \<Rightarrow> _ tree \<Rightarrow> addr \<Rightarrow> 'd RBNode \<Rightarrow> _ tree \<Rightarrow> addr \<Rightarrow> 'd RBNode \<Rightarrow> _ tree \<Rightarrow> _ ctx \<Rightarrow> bool" where
  "rot_site b st A x xn B y yn C c \<longleftrightarrow>
     nodes st x = Some xn \<and> child_of (opposite b) xn = Some y \<and> nodes st y = Some yn \<and> bparent yn = Some x \<and>
     tree_at rb_pay (nodes st) (Some x) (child_of b xn) A \<and>
     tree_at rb_pay (nodes st) (Some y) (child_of b yn) B \<and>
     tree_at rb_pay (nodes st) (Some y) (child_of (opposite b) yn) C \<and>
     ctx_at rb_pay (nodes st) (root st) (bparent xn) (Some x) c \<and>
     distinct ((x # y # addrs A @ addrs B @ addrs C) @ map fst (ctx_list c))"

definition rot_heap :: "bchild_t \<Rightarrow> 'd RBTree \<Rightarrow> addr \<Rightarrow> 'd RBNode \<Rightarrow> 'd RBNode \<Rightarrow> 'd RBNode heap" where
  "rot_heap b st x xn yn =
     reparent ((nodes st)(x \<mapsto> set_child (opposite b) (child_of b yn) xn)) (child_of b yn) (Some x)"

definition rot_mid :: "bchild_t \<Rightarrow> 'd RBTree \<Rightarrow> addr \<Rightarrow> 'd RBNode \<Rightarrow> addr \<Rightarrow> 'd RBNode \<Rightarrow> 'd RBTree" where
  "rot_mid b st x xn y yn =
     st\<lparr>nodes := (rot_heap b st x xn yn)(y \<mapsto> set_child b (Some x) (yn\<lparr>bparent := bparent xn\<rparr>))\<rparr>"

lemma rot_site_of_rep:
  assumes rep: "bt_rep rb_pay st (plug (node_of b A (x, xv) (node_of b B (y, yv) C)) c)"
  obtains xn yn where "rot_site b st A x xn B y yn C c" and "rb_pay xn = xv" and "rb_pay yn = yv"
proof -
  have "distinct (addrs (node_of b A (x, xv) (node_of b B (y, yv) C)) @ map fst (ctx_list c))"
    using rep by (simp add: bt_rep_def distinct_plug)
  then have "distinct ((x # y # addrs A @ addrs B @ addrs C) @ map fst (ctx_list c))"
    by (cases b) (auto simp: node_of_def)
  with that rep show thesis
    unfolding bt_rep_def tree_at_plug tree_at_node_of rot_site_def by auto
qed

lemma rot_heap_outside:
  assumes "rot_site b st A x xn B y yn C c"
  shows "a \<notin> set (addrs B) \<Longrightarrow> a \<noteq> x \<Longrightarrow> rot_heap b st x xn yn a = nodes st a"
    and "rot_heap b st x xn yn x = Some (set_child (opposite b) (child_of b yn) xn)"
    and "tree_at rb_pay (rot_heap b st x xn yn) (Some x) (child_of b yn) B"
    and "(if child_of b yn \<noteq> None
          then mutate (\<lambda>n. n\<lparr>bparent := Some x\<rparr>) (child_of b yn)
                 ((nodes st)(x \<mapsto> set_child (opposite b) (child_of b yn) xn))
          else Inr ((nodes st)(x \<mapsto> set_child (opposite b) (child_of b yn) xn)))
         = Inr (rot_heap b st x xn yn)"
proof -
  have d: "x \<notin> set (addrs B)" "distinct (addrs B)" using assms by (auto simp: rot_site_def)
  then have B: "tree_at rb_pay ((nodes st)(x \<mapsto> set_child (opposite b) (child_of b yn) xn)) (Some y) (child_of b yn) B"
    using assms by (simp add: rot_site_def tree_at_upd)
  note R = reparent_outside [OF B] tree_at_reparent [OF B d(2)] mutate_reparent [OF B]
  show "a \<notin> set (addrs B) \<Longrightarrow> a \<noteq> x \<Longrightarrow> rot_heap b st x xn yn a = nodes st a"
    and "rot_heap b st x xn yn x = Some (set_child (opposite b) (child_of b yn) xn)"
    using R(1) d by (simp_all add: rot_heap_def)
  show "tree_at rb_pay (rot_heap b st x xn yn) (Some x) (child_of b yn) B"
    using R(2) by (simp add: rot_heap_def)
  show "(if child_of b yn \<noteq> None
          then mutate (\<lambda>n. n\<lparr>bparent := Some x\<rparr>) (child_of b yn)
                 ((nodes st)(x \<mapsto> set_child (opposite b) (child_of b yn) xn))
          else Inr ((nodes st)(x \<mapsto> set_child (opposite b) (child_of b yn) xn)))
         = Inr (rot_heap b st x xn yn)"
    using R(3) by (simp add: rot_heap_def)
qed

lemma rot_mid_ctx:
  assumes site: "rot_site b st A x xn B y yn C c"
  shows "ctx_at rb_pay (nodes (rot_mid b st x xn y yn)) (root st) (bparent xn) (Some x) c"
proof -
  have "distinct ((x # y # addrs A @ addrs B @ addrs C) @ map fst (ctx_list c))"
    using site by (simp add: rot_site_def)
  note notin = distinct_append_notin [OF this]
  have "\<forall>a \<in> set (map fst (ctx_list c)). a \<notin> set (x # y # addrs A @ addrs B @ addrs C)"
    using notin by blast
  then have "\<forall>a \<in> set (map fst (ctx_list c)). nodes (rot_mid b st x xn y yn) a = nodes st a"
    using rot_heap_outside(1) [OF site] by (simp add: rot_mid_def)
  with site show ?thesis
    using ctx_at_cong [of c _ "nodes st"] unfolding rot_site_def by blast
qed

definition rotated where
  "rotated b st x xn y yn c =
     (let st1 = relink c (Some y) (rot_mid b st x xn y yn) in
      st1\<lparr>nodes := (nodes st1)(x \<mapsto> (set_child (opposite b) (child_of b yn) xn)\<lparr>bparent := Some y\<rparr>)\<rparr>)"

lemma rotate_exec:
  assumes site: "rot_site b st A x xn B y yn C c"
  shows "rotate b (Some x) st = Inr (rotated b st x xn y yn c)"
proof -
  let ?h1 = "(nodes st)(x \<mapsto> set_child (opposite b) (child_of b yn) xn)"
  let ?h2 = "rot_heap b st x xn yn" and ?m = "rot_mid b st x xn y yn"
  have d: "x \<noteq> y" "y \<notin> set (addrs B)" "x \<notin> set (map fst (ctx_list c))"
    and x: "nodes st x = Some xn" "child_of (opposite b) xn = Some y" "nodes st y = Some yn"
    using site by (auto simp: rot_site_def)
  note out = rot_heap_outside [OF site]
  have m: "nodes ?m x = Some (set_child (opposite b) (child_of b yn) xn)" "root ?m = root st"
    using out(2) d by (simp_all add: rot_mid_def)
  have r: "relink_parent (Some x) (Some y) ?m = Inr (relink c (Some y) ?m)"
    using rot_mid_ctx [OF site] m d(3) by (intro relink_parent_eq) simp_all
  have e: "deref (nodes st) (Some x) = Inr xn" "deref (nodes st) (Some y) = Inr yn"
    "mutate (set_child (opposite b) (child_of b yn)) (Some x) (nodes st) = Inr ?h1"
    "deref ?h1 (Some y) = Inr yn" "parent_of ?h2 (Some x) = Inr (bparent xn)"
    "mutate (\<lambda>n. set_child b (Some x) (n\<lparr>bparent := bparent xn\<rparr>)) (Some y) ?h2 = Inr (nodes ?m)"
    "st\<lparr>nodes := nodes ?m\<rparr> = ?m"
    using x d out(1) [of y] out(2)
    by (simp_all add: deref_Some mutate_Some parent_of_def rot_mid_def)
  have "nodes (relink c (Some y) ?m) x = nodes ?m x" using d(3) by (rule relink_outside)
  then have "mutate (\<lambda>n. n\<lparr>bparent := Some y\<rparr>) (Some x) (nodes (relink c (Some y) ?m))
      = Inr (nodes (rotated b st x xn y yn c))"
    using m by (simp add: mutate_Some rotated_def Let_def)
  then show ?thesis
    unfolding rotate_def by (simp only: e x(2) out(4) r Let_def bindE_simps) (simp add: rotated_def Let_def)
qed

lemma rotated_keeps:
  assumes site: "rot_site b st A x xn B y yn C c"
  shows "a \<notin> set (x # y # addrs B @ map fst (ctx_list c)) \<Longrightarrow> nodes (rotated b st x xn y yn c) a = nodes st a"
    and "key_at (rotated b st x xn y yn c) = key_at st"
proof -
  let ?m = "rot_mid b st x xn y yn"
  have n: "nodes (rotated b st x xn y yn c) a = nodes (relink c (Some y) ?m) a" if "a \<noteq> x" for a
    using that by (simp add: rotated_def Let_def)
  show "nodes (rotated b st x xn y yn c) a = nodes st a"
    if "a \<notin> set (x # y # addrs B @ map fst (ctx_list c))"
    using that n [of a] rot_heap_outside(1) [OF site, of a] relink_outside [of a c "Some y" ?m]
    by (simp add: rot_mid_def)
  have x: "nodes st x = Some xn" and y: "nodes st y = Some yn" using site by (simp_all add: rot_site_def)
  have "map_option comparator (nodes ?m a) = map_option comparator (nodes st a)" for a
    using x y by (auto simp: rot_mid_def rot_heap_def reparent_keys)
  then show "key_at (rotated b st x xn y yn c) = key_at st"
    using n x by (auto simp: key_at_def fun_eq_iff relink_keys rotated_def Let_def)
qed

lemma rotate_rep:
  assumes rep: "bt_rep rb_pay st (plug (node_of b A (x, xv) (node_of b B (y, yv) C)) c)"
  obtains st' where "rotate b (Some x) st = Inr st'"
    and "bt_rep rb_pay st' (plug (node_of b (node_of b A (x, xv) B) (y, yv) C) c)"
    and "keeps (plug (node_of b A (x, xv) (node_of b B (y, yv) C)) c) st st'"
proof -
  obtain xn yn where site: "rot_site b st A x xn B y yn C c" and pay: "rb_pay xn = xv" "rb_pay yn = yv"
    by (rule rot_site_of_rep [OF rep])
  let ?st = "rotated b st x xn y yn c" and ?m = "rot_mid b st x xn y yn"
  note S = site [unfolded rot_site_def] and out = rot_heap_outside [OF site]
  have dist: "distinct ((x # y # addrs A @ addrs B @ addrs C) @ map fst (ctx_list c))" using S by blast
  have outc: "nodes (relink c (Some y) ?m) a = nodes ?m a" if "a \<in> set (x # y # addrs A @ addrs B @ addrs C)" for a
    using distinct_append_notin [OF dist that] by (rule relink_outside)
  have "distinct ((addrs A @ addrs C) @ x # y # addrs B)" using dist by auto
  note AC = distinct_append_notin [OF this]
  have "nodes ?st a = nodes st a" if "a \<in> set (addrs A @ addrs C)" for a
    using AC [OF that] outc [of a] out(1) [of a] that by (auto simp: rotated_def rot_mid_def Let_def)
  then have A: "tree_at rb_pay (nodes ?st) (Some x) (child_of b xn) A"
    and C: "tree_at rb_pay (nodes ?st) (Some y) (child_of (opposite b) yn) C"
    using S by (simp_all add: tree_at_cong [of _ "nodes ?st" "nodes st"])
  have "x \<notin> set (addrs B)" "y \<notin> set (addrs B)" "x \<noteq> y" using dist by auto
  moreover from this have "\<forall>a \<in> set (addrs B). nodes ?st a = rot_heap b st x xn yn a"
    using outc by (auto simp: rotated_def rot_mid_def Let_def)
  then have B: "tree_at rb_pay (nodes ?st) (Some x) (child_of b yn) B"
    using out(3) tree_at_cong [of B "nodes ?st"] by blast
  have "ctx_at rb_pay (nodes (relink c (Some y) ?m)) (root (relink c (Some y) ?m)) (bparent xn) (Some y) c"
    by (rule ctx_at_relink [where p = "Some x"]) (use rot_mid_ctx [OF site] dist in \<open>simp_all add: rot_mid_def\<close>)
  then have ctx: "ctx_at rb_pay (nodes ?st) (root ?st) (bparent xn) (Some y) c"
    using dist by (simp add: rotated_def Let_def ctx_at_upd)
  have xy: "nodes ?st x = Some ((set_child (opposite b) (child_of b yn) xn)\<lparr>bparent := Some y\<rparr>)"
    "nodes ?st y = Some (set_child b (Some x) (yn\<lparr>bparent := bparent xn\<rparr>))"
    using outc [of y] dist by (simp_all add: rotated_def rot_mid_def Let_def)
  let ?t = "plug (node_of b (node_of b A (x, xv) B) (y, yv) C) c"
  have "tree_at rb_pay (nodes ?st) None (root ?st) ?t"
    unfolding tree_at_plug tree_at_node_of using A B C ctx xy pay S by auto
  moreover have "distinct (addrs ?t)"
    using dist unfolding distinct_plug by (cases b) (auto simp: node_of_def)
  ultimately have "bt_rep rb_pay ?st ?t" by (simp add: bt_rep_def)
  moreover have "set (x # y # addrs B @ map fst (ctx_list c))
      \<subseteq> set (addrs (plug (node_of b A (x, xv) (node_of b B (y, yv) C)) c))"
    unfolding set_addrs_plug by (cases b) (auto simp: node_of_def)
  then have "keeps (plug (node_of b A (x, xv) (node_of b B (y, yv) C)) c) st ?st"
    using rotated_keeps [OF site] unfolding keeps_def by blast
  ultimately show thesis using rotate_exec [OF site] by (intro that)
qed

lemma set_color_rep:
  assumes rep: "bt_rep rb_pay st (plug \<langle>l, (a, k, v0), r\<rangle> c)"
  obtains st' where "set_color v (Some a) st = Inr st'"
    and "bt_rep rb_pay st' (plug \<langle>l, (a, k, v), r\<rangle> c)"
    and "keeps (plug \<langle>l, (a, k, v0), r\<rangle> c) st st'" and "root st' = root st"
proof -
  obtain par p where "tree_at rb_pay (nodes st) par p \<langle>l, (a, k, v0), r\<rangle>"
    and ctx: "ctx_at rb_pay (nodes st) (root st) par p c"
    using rep unfolding bt_rep_def tree_at_plug by blast
  then obtain n where n: "p = Some a" "nodes st a = Some n" "rb_pay n = (k, v0)" "bparent n = par"
    "tree_at rb_pay (nodes st) (Some a) (bleft n) l" "tree_at rb_pay (nodes st) (Some a) (bright n) r"
    by auto
  have d: "distinct (addrs \<langle>l, (a, k, v0), r\<rangle> @ map fst (ctx_list c))"
    using rep by (simp add: bt_rep_def distinct_plug)
  let ?st = "st\<lparr>nodes := (nodes st)(a \<mapsto> n\<lparr>color := v\<rparr>)\<rparr>"
  have "tree_at rb_pay (nodes ?st) par p \<langle>l, (a, k, v), r\<rangle>"
    using n d by (auto simp: tree_at_upd rb_pay_def)
  moreover have "ctx_at rb_pay (nodes ?st) (root ?st) par p c" using ctx d by (simp add: ctx_at_upd)
  ultimately have "bt_rep rb_pay ?st (plug \<langle>l, (a, k, v), r\<rangle> c)"
    using d unfolding bt_rep_def tree_at_plug distinct_plug by auto
  moreover have "set_color v (Some a) st = Inr ?st"
    using n(2) by (simp add: set_color_def mutate_Some)
  moreover have "keeps (plug \<langle>l, (a, k, v0), r\<rangle> c) st ?st"
    using n(2) by (auto simp: keeps_def key_at_def fun_eq_iff set_addrs_plug simp del: set_map)
  ultimately show thesis using that by simp
qed

section \<open>Red-black invariants\<close>

fun rcol :: "(addr \<times> 'd \<times> 8 word) tree \<Rightarrow> 8 word" where
  "rcol \<langle>\<rangle> = 0"
| "rcol \<langle>l, (a, k, v), r\<rangle> = v"

fun invc :: "(addr \<times> 'd \<times> 8 word) tree \<Rightarrow> bool" where
  "invc \<langle>\<rangle> \<longleftrightarrow> True"
| "invc \<langle>l, (a, k, v), r\<rangle> \<longleftrightarrow> v \<in> {0, 1} \<and> (v = 1 \<longrightarrow> rcol l = 0 \<and> rcol r = 0) \<and> invc l \<and> invc r"

fun bheight :: "(addr \<times> 'd \<times> 8 word) tree \<Rightarrow> nat" where
  "bheight \<langle>\<rangle> = 0"
| "bheight \<langle>l, (a, k, v), r\<rangle> = bheight l + (if v = 0 then 1 else 0)"

fun invh :: "(addr \<times> 'd \<times> 8 word) tree \<Rightarrow> bool" where
  "invh \<langle>\<rangle> \<longleftrightarrow> True"
| "invh \<langle>l, (a, k, v), r\<rangle> \<longleftrightarrow> bheight l = bheight r \<and> invh l \<and> invh r"

text \<open>The same for a context: the colour above the hole, and the black height it expects there.\<close>

fun pcol :: "(addr \<times> 'd \<times> 8 word) ctx \<Rightarrow> 8 word" where
  "pcol [] = 0"
| "pcol ((b, (a, k, v), s) # c) = v"

fun ctxc :: "(addr \<times> 'd \<times> 8 word) ctx \<Rightarrow> bool" where
  "ctxc [] \<longleftrightarrow> True"
| "ctxc ((b, (a, k, v), s) # c) \<longleftrightarrow>
     v \<in> {0, 1} \<and> (v = 1 \<longrightarrow> rcol s = 0 \<and> pcol c = 0) \<and> invc s \<and> ctxc c"

fun ctxh :: "(addr \<times> 'd \<times> 8 word) ctx \<Rightarrow> nat \<Rightarrow> bool" where
  "ctxh [] n \<longleftrightarrow> True"
| "ctxh ((b, (a, k, v), s) # c) n \<longleftrightarrow> invh s \<and> bheight s = n \<and> ctxh c (n + (if v = 0 then 1 else 0))"

lemma node_of_inv [simp]:
  "rcol (node_of b t (a, k, v) s) = v"
  "invc (node_of b t (a, k, v) s) \<longleftrightarrow> v \<in> {0, 1} \<and> (v = 1 \<longrightarrow> rcol t = 0 \<and> rcol s = 0) \<and> invc t \<and> invc s"
  "invh (node_of b t (a, k, v) s) \<longleftrightarrow> bheight t = bheight s \<and> invh t \<and> invh s"
  "bheight t = bheight s \<Longrightarrow> bheight (node_of b t (a, k, v) s) = bheight t + (if v = 0 then 1 else 0)"
  by (auto simp: node_of_def)

lemma invc_rcol: "invc t \<Longrightarrow> rcol t \<in> {0, 1}"
  by (cases t rule: invc.cases) auto

lemma ctxc_pcol: "ctxc c \<Longrightarrow> pcol c \<in> {0, 1}"
  by (cases c rule: ctxc.cases) auto

lemma invc_plug: "invc (plug t c) \<longleftrightarrow> invc t \<and> ctxc c \<and> (rcol t = 1 \<longrightarrow> pcol c = 0)"
proof (induction t c rule: plug.induct)
  case (2 t b x s c)
  obtain a k v where x: "x = (a, k, v)" by (cases x) auto
  show ?case using 2 ctxc_pcol [of c] invc_rcol [of t] by (auto simp: x)
qed simp

lemma invh_plug: "invh (plug t c) \<longleftrightarrow> invh t \<and> ctxh c (bheight t)"
proof (induction t c rule: plug.induct)
  case (2 t b x s c)
  obtain a k v where x: "x = (a, k, v)" by (cases x) auto
  show ?case using 2 by (auto simp: x)
qed simp

text \<open>The in-order sequence around a hole.\<close>

fun lctx :: "'x ctx \<Rightarrow> 'x list" where
  "lctx [] = []"
| "lctx ((b, x, s) # c) = lctx c @ (if b = LEFT then [] else inorder s @ [x])"

fun rctx :: "'x ctx \<Rightarrow> 'x list" where
  "rctx [] = []"
| "rctx ((b, x, s) # c) = (if b = LEFT then x # inorder s else []) @ rctx c"

lemma inorder_plug: "inorder (plug t c) = lctx c @ inorder t @ rctx c"
  by (induction t c rule: plug.induct) (simp_all add: node_of_def)

definition strip :: "(addr \<times> 'd \<times> 8 word) tree \<Rightarrow> (addr \<times> 'd) list" where
  "strip t = map (\<lambda>(a, k, v). (a, k)) (inorder t)"

lemma strip_color: "strip (plug \<langle>l, (a, k, v), r\<rangle> c) = strip (plug \<langle>l, (a, k, v'), r\<rangle> c)"
  by (simp add: strip_def inorder_plug)

lemma strip_rotate:
  "strip (plug (node_of b A x (node_of b B y C)) c) = strip (plug (node_of b (node_of b A x B) y C) c)"
  by (cases b) (simp_all add: strip_def inorder_plug node_of_def)

lemma addrs_strip: "addrs t = map fst (strip t)"
  by (simp add: strip_def comp_def split_beta)

section \<open>One round of rebalancing\<close>

text \<open>A step from one represented tree to another with the same keys in the same order.\<close>

definition becomes ::
  "'d RBTree \<Rightarrow> (addr \<times> 'd \<times> 8 word) tree \<Rightarrow> 'd RBTree \<Rightarrow> (addr \<times> 'd \<times> 8 word) tree \<Rightarrow> bool" where
  "becomes st t st' t' \<longleftrightarrow> bt_rep rb_pay st' t' \<and> strip t' = strip t \<and> keeps t st st'"

lemma becomes_trans:
  assumes "becomes st t st' t'" and "becomes st' t' st'' t''"
  shows "becomes st t st'' t''"
  using assms keeps_trans [of t st st' t' st''] by (simp add: becomes_def addrs_strip del: set_map)

lemma becomes_refl: "bt_rep rb_pay st t \<Longrightarrow> becomes st t st t"
  by (simp add: becomes_def keeps_def)

lemma becomes_rep: "becomes st t st' t' \<Longrightarrow> bt_rep rb_pay st' t'"
  by (simp add: becomes_def)

lemma node_of_opposite: "node_of (opposite b) s x t = node_of b t x s"
  by (cases b) (simp_all add: node_of_def opposite_def)

lemma rotate_becomes:
  assumes "bt_rep rb_pay st (plug (node_of b A (x, xv) (node_of b B (y, yv) C)) c)"
  shows "\<exists>st'. rotate b (Some x) st = Inr st' \<and>
    becomes st (plug (node_of b A (x, xv) (node_of b B (y, yv) C)) c)
      st' (plug (node_of b (node_of b A (x, xv) B) (y, yv) C) c)"
  by (rule rotate_rep [OF assms]) (auto simp: becomes_def strip_rotate)

lemma set_color_becomes:
  assumes "bt_rep rb_pay st (plug (node_of b t (a, k, v0) s) c)"
  shows "\<exists>st'. set_color v (Some a) st = Inr st' \<and> root st' = root st \<and>
    becomes st (plug (node_of b t (a, k, v0) s) c) st' (plug (node_of b t (a, k, v) s) c)"
proof -
  obtain l r where lr: "\<And>v. node_of b t (a, k, v) s = \<langle>l, (a, k, v), r\<rangle>"
    by (cases b) (auto simp: node_of_def)
  have rep: "bt_rep rb_pay st (plug \<langle>l, (a, k, v0), r\<rangle> c)" using assms by (simp add: lr)
  show ?thesis unfolding lr
    by (rule set_color_rep [OF rep, of v]) (auto simp: becomes_def strip_color [of l a k v])
qed

definition tptr :: "(addr \<times> 'x) tree \<Rightarrow> ptr" where
  "tptr t = (case t of \<langle>\<rangle> \<Rightarrow> None | \<langle>l, y, r\<rangle> \<Rightarrow> Some (fst y))"

lemma tptr_simps [simp]: "tptr \<langle>\<rangle> = None" "tptr \<langle>l, (a, x), r\<rangle> = Some a" "tptr (node_of b t (a, x) s) = Some a"
  by (simp_all add: tptr_def node_of_def)

lemma tree_at_tptr: "tree_at pay h par p t \<Longrightarrow> p = tptr t"
  by (cases "(pay, h, par, p, t)" rule: tree_at.cases) auto

lemma focus_node:
  assumes "bt_rep rb_pay st (plug (node_of b t (a, x) s) c)"
  obtains n where "nodes st a = Some n" and "rb_pay n = x" and "bparent n = par_of c None"
    and "child_of b n = tptr t" and "child_of (opposite b) n = tptr s"
proof -
  obtain par where "tree_at rb_pay (nodes st) par (Some a) (node_of b t (a, x) s)"
    and "ctx_at rb_pay (nodes st) (root st) par (Some a) c"
    using assms unfolding bt_rep_def tree_at_plug tree_at_node_of by auto
  with that show thesis
    unfolding tree_at_node_of using tree_at_tptr ctx_at_par by metis
qed

lemma focus_parent:
  assumes "bt_rep rb_pay st (plug (node_of b t (a, x) s) c)"
  shows "parent_of (nodes st) (Some a) = Inr (par_of c None)"
  by (rule focus_node [OF assms]) (simp add: parent_of_def deref_Some)

lemma focus_color:
  assumes "bt_rep rb_pay st (plug (node_of b t (a, k, v) s) c)"
  shows "color_of (nodes st) (Some a) = Inr v"
  by (rule focus_node [OF assms]) (simp add: color_of_def deref_Some rb_pay_def)

lemma balance_recolor_becomes:
  fixes st :: "'d RBTree"
  assumes rep: "bt_rep rb_pay st (plug (node_of b l (a, x) r)
      ((d1, (p, pk, v1), s) # (d2, (g, gk, v2), node_of e ul (u, uk, v3) ur) # c))"
  shows "\<exists>st'. balance_recolor (Some a) (Some u) st = Inr (Some g, st') \<and>
    becomes st (plug (node_of b l (a, x) r)
        ((d1, (p, pk, v1), s) # (d2, (g, gk, v2), node_of e ul (u, uk, v3) ur) # c))
      st' (plug (node_of d2 (node_of d1 (node_of b l (a, x) r) (p, pk, 0) s) (g, gk, 1)
             (node_of e ul (u, uk, 0) ur)) c)"
proof -
  let ?t = "node_of b l (a, x) r"
  let ?u = "\<lambda>v. node_of e ul (u, uk, v) ur" and ?p = "\<lambda>v. node_of d1 ?t (p, pk, v) s"
  obtain st1 where st1: "set_color 0 (Some p) st = Inr st1"
    "becomes st (plug (?p v1) ((d2, (g, gk, v2), ?u v3) # c)) st1 (plug (?p 0) ((d2, (g, gk, v2), ?u v3) # c))"
    using set_color_becomes [of st d1 ?t p pk v1 s "(d2, (g, gk, v2), ?u v3) # c" 0] rep by auto
  have eq: "plug (?p v) ((d2, (g, gk, w), ?u v') # c) = plug (?u v') ((opposite d2, (g, gk, w), ?p v) # c)" for v v' w
    by (simp add: node_of_opposite)
  obtain st2 where st2: "set_color 0 (Some u) st1 = Inr st2"
    "becomes st1 (plug (?p 0) ((d2, (g, gk, v2), ?u v3) # c)) st2 (plug (?p 0) ((d2, (g, gk, v2), ?u 0) # c))"
    using set_color_becomes [of st1 e ul u uk v3 ur "(opposite d2, (g, gk, v2), ?p 0) # c" 0]
      becomes_rep [OF st1(2)] unfolding eq by blast
  obtain st3 where st3: "set_color 1 (Some g) st2 = Inr st3"
    "becomes st2 (plug (?p 0) ((d2, (g, gk, v2), ?u 0) # c)) st3 (plug (node_of d2 (?p 0) (g, gk, 1) (?u 0)) c)"
    using set_color_becomes [of st2 d2 "?p 0" g gk v2 "?u 0" c 1] becomes_rep [OF st2(2)] by auto
  have "parent_of (nodes st) (Some a) = Inr (Some p)"
    using focus_parent [OF rep] by (simp add: par_of_def)
  moreover have "parent_of (nodes st2) (Some p) = Inr (Some g)"
    using focus_parent [of st2 d1 ?t p _ s "(d2, (g, gk, v2), ?u 0) # c"] becomes_rep [OF st2(2)]
    by (simp add: par_of_def)
  ultimately have "balance_recolor (Some a) (Some u) st = Inr (Some g, st3)"
    using st1(1) st2(1) st3(1) by (simp add: balance_recolor_def)
  moreover have "becomes st (plug (?p v1) ((d2, (g, gk, v2), ?u v3) # c)) st3
      (plug (node_of d2 (?p 0) (g, gk, 1) (?u 0)) c)"
    using becomes_trans [OF becomes_trans [OF st1(2) st2(2)] st3(2)] .
  ultimately show ?thesis by simp
qed

lemma tptr_in: "tptr t = Some a \<Longrightarrow> a \<in> set (addrs t)"
  by (cases t) auto

lemma balance_tail_becomes:
  assumes rep: "bt_rep rb_pay st (plug (node_of b l (a, x) r) ((d, (p, pk, v1), s) # (d, (g, gk, v2), U) # c))"
  shows "\<exists>st'. bindE (parent_of (nodes st) (Some a)) (\<lambda>p.
      bindE (set_color 0 p st) (\<lambda>st.
      bindE (parent_of (nodes st) p) (\<lambda>g.
      bindE (set_color 1 g st) (\<lambda>st.
      bindE (rotate (opposite d) g st) (\<lambda>st. Inr (Some a, st)))))) = Inr (Some a, st') \<and>
    becomes st (plug (node_of b l (a, x) r) ((d, (p, pk, v1), s) # (d, (g, gk, v2), U) # c))
      st' (plug (node_of b l (a, x) r) ((d, (p, pk, 0), node_of (opposite d) U (g, gk, 1) s) # c))"
proof -
  let ?t = "node_of b l (a, x) r"
  let ?p = "\<lambda>v. node_of d ?t (p, pk, v) s"
  obtain st1 where st1: "set_color 0 (Some p) st = Inr st1"
    "becomes st (plug (?p v1) ((d, (g, gk, v2), U) # c)) st1 (plug (?p 0) ((d, (g, gk, v2), U) # c))"
    using set_color_becomes [of st d ?t p pk v1 s "(d, (g, gk, v2), U) # c" 0] rep by auto
  obtain st2 where st2: "set_color 1 (Some g) st1 = Inr st2"
    "becomes st1 (plug (?p 0) ((d, (g, gk, v2), U) # c)) st2 (plug (node_of d (?p 0) (g, gk, 1) U) c)"
    using set_color_becomes [of st1 d "?p 0" g gk v2 U c 1] becomes_rep [OF st1(2)] by auto
  have eq: "node_of d (?p 0) (g, gk, 1) U
      = node_of (opposite d) U (g, gk, 1) (node_of (opposite d) s (p, pk, 0) ?t)"
    by (simp only: node_of_opposite)
  have eq': "plug (node_of (opposite d) (node_of (opposite d) U (g, gk, 1) s) (p, pk, 0) ?t) c
      = plug ?t ((d, (p, pk, 0), node_of (opposite d) U (g, gk, 1) s) # c)"
    by (simp only: node_of_opposite plug.simps)
  obtain st3 where st3: "rotate (opposite d) (Some g) st2 = Inr st3"
    "becomes st2 (plug (node_of d (?p 0) (g, gk, 1) U) c)
       st3 (plug ?t ((d, (p, pk, 0), node_of (opposite d) U (g, gk, 1) s) # c))"
    using rotate_becomes [of st2 "opposite d" U g "(gk, 1)" s p "(pk, 0)" ?t c] becomes_rep [OF st2(2)]
    unfolding eq eq' by blast
  have "parent_of (nodes st) (Some a) = Inr (Some p)"
    using focus_parent [OF rep] by (simp add: par_of_def)
  moreover have "parent_of (nodes st1) (Some p) = Inr (Some g)"
    using focus_parent [of st1 d ?t p _ s "(d, (g, gk, v2), U) # c"] becomes_rep [OF st1(2)]
    by (simp add: par_of_def)
  moreover have "becomes st (plug (?p v1) ((d, (g, gk, v2), U) # c)) st3
      (plug ?t ((d, (p, pk, 0), node_of (opposite d) U (g, gk, 1) s) # c))"
    using becomes_trans [OF becomes_trans [OF st1(2) st2(2)] st3(2)] .
  ultimately show ?thesis using st1(1) st2(1) st3(1) by simp
qed

lemma side_rotations:
  "(if d = LEFT then rotate_left q st else rotate_right q st) = rotate d q st"
  "(if d = LEFT then rotate_right q st else rotate_left q st) = rotate (opposite d) q st"
  "(if d = LEFT then bright n else bleft n) = child_of (opposite d) n"
  by (cases d; simp add: rotate_left_eq rotate_right_eq side_simps)+

lemma balance_rotate_outer:
  assumes rep: "bt_rep rb_pay st (plug (node_of b l (a, x) r) ((d, (p, pk, v1), s) # (d, (g, gk, v2), U) # c))"
  shows "\<exists>st'. balance_rotate (d = LEFT) (Some a) st = Inr (Some a, st') \<and>
    becomes st (plug (node_of b l (a, x) r) ((d, (p, pk, v1), s) # (d, (g, gk, v2), U) # c))
      st' (plug (node_of b l (a, x) r) ((d, (p, pk, 0), node_of (opposite d) U (g, gk, 1) s) # c))"
proof -
  let ?t = "node_of b l (a, x) r"
  have "bt_rep rb_pay st (plug (node_of d ?t (p, pk, v1) s) ((d, (g, gk, v2), U) # c))"
    using rep by simp
  then obtain pn where pn: "nodes st p = Some pn" "child_of (opposite d) pn = tptr s"
    by (rule focus_node)
  have "distinct (addrs ?t @ map fst (ctx_list ((d, (p, pk, v1), s) # (d, (g, gk, v2), U) # c)))"
    using rep unfolding bt_rep_def distinct_plug by blast
  then have "a \<notin> set (addrs s)" by (cases b) (auto simp: node_of_def)
  then have "tptr s \<noteq> Some a" using tptr_in by blast
  moreover have "parent_of (nodes st) (Some a) = Inr (Some p)"
    using focus_parent [OF rep] by (simp add: par_of_def)
  ultimately show ?thesis
    using balance_tail_becomes [OF rep] pn unfolding balance_rotate_def side_rotations
    by (simp add: deref_Some)
qed

lemma balance_rotate_inner:
  assumes rep: "bt_rep rb_pay st (plug (node_of d l (a, k, v0) r)
      ((opposite d, (p, pk, v1), s) # (d, (g, gk, v2), U) # c))"
  shows "\<exists>st'. balance_rotate (d = LEFT) (Some a) st = Inr (Some p, st') \<and>
    becomes st (plug (node_of d l (a, k, v0) r) ((opposite d, (p, pk, v1), s) # (d, (g, gk, v2), U) # c))
      st' (plug (node_of d s (p, pk, v1) l) ((d, (a, k, 0), node_of (opposite d) U (g, gk, 1) r) # c))"
proof -
  let ?c = "(d, (g, gk, v2), U) # c" and ?t = "node_of d l (a, k, v0) r"
  have eq: "plug ?t ((opposite d, (p, pk, v1), s) # ?c) = plug (node_of d s (p, pk, v1) ?t) ?c"
    by (simp add: node_of_opposite)
  obtain st1 where st1: "rotate d (Some p) st = Inr st1"
    "becomes st (plug ?t ((opposite d, (p, pk, v1), s) # ?c))
       st1 (plug (node_of d s (p, pk, v1) l) ((d, (a, k, v0), r) # ?c))"
    using rotate_becomes [of st d s p "(pk, v1)" l a "(k, v0)" r ?c] rep unfolding eq by auto
  from rep have "bt_rep rb_pay st (plug (node_of d s (p, pk, v1) ?t) ?c)" unfolding eq .
  then obtain pn where pn: "nodes st p = Some pn" "child_of (opposite d) pn = Some a"
    by (rule focus_node) simp
  have par: "parent_of (nodes st) (Some a) = Inr (Some p)"
    using focus_parent [OF rep] by (simp add: par_of_def)
  obtain st2 where st2: "bindE (parent_of (nodes st1) (Some p)) (\<lambda>q.
      bindE (set_color 0 q st1) (\<lambda>st.
      bindE (parent_of (nodes st) q) (\<lambda>g.
      bindE (set_color 1 g st) (\<lambda>st.
      bindE (rotate (opposite d) g st) (\<lambda>st. Inr (Some p, st)))))) = Inr (Some p, st2)"
    "becomes st1 (plug (node_of d s (p, pk, v1) l) ((d, (a, k, v0), r) # ?c))
       st2 (plug (node_of d s (p, pk, v1) l) ((d, (a, k, 0), node_of (opposite d) U (g, gk, 1) r) # c))"
    using balance_tail_becomes [OF becomes_rep [OF st1(2)]] by blast
  have "balance_rotate (d = LEFT) (Some a) st = Inr (Some p, st2)"
    using par pn st1(1) st2(1) unfolding balance_rotate_def side_rotations by (simp add: deref_Some)
  with becomes_trans [OF st1(2) st2(2)] show ?thesis by blast
qed

lemma balance_loop_exit:
  assumes rep: "bt_rep rb_pay st (plug (node_of b l (a, x) r) c)" and "pcol c \<noteq> 1"
  shows "balance_loop (Some a) st = Some (Inr st)"
proof (cases c)
  case Nil
  with focus_parent [OF rep] show ?thesis by (simp add: balance_loop.simps balance_round_def par_of_def)
next
  case (Cons e c')
  obtain d p pk v s where e: "e = (d, (p, pk, v), s)" by (cases e) auto
  have "color_of (nodes st) (Some p) = Inr v"
    using focus_color [of st d _ p pk v s c'] rep by (simp add: Cons e)
  with focus_parent [OF rep] assms(2) show ?thesis
    by (simp add: balance_loop.simps balance_round_def par_of_def Cons e)
qed

lemma balance_loop_round:
  assumes rep: "bt_rep rb_pay st (plug (node_of b l (a, x) r) ((d1, (p, pk, 1), s) # (d2, (g, gk, v2), U) # c))"
  shows "balance_loop (Some a) st =
    bindX (Some (if rcol U = 1 then balance_recolor (Some a) (tptr U) st
                 else balance_rotate (d2 = LEFT) (Some a) st)) (\<lambda>(n, st). balance_loop n st)"
proof -
  let ?t = "node_of b l (a, x) r" and ?c = "(d2, (g, gk, v2), U) # c"
  let ?p = "node_of d1 ?t (p, pk, 1) s"
  have p: "bt_rep rb_pay st (plug ?p ?c)" and g: "bt_rep rb_pay st (plug (node_of d2 ?p (g, gk, v2) U) c)"
    using rep by simp_all
  obtain gn where gn: "nodes st g = Some gn" "child_of d2 gn = Some p" "child_of (opposite d2) gn = tptr U"
    by (rule focus_node [OF g]) simp
  have "distinct (addrs ?p @ map fst (ctx_list ?c))"
    using p unfolding bt_rep_def distinct_plug by blast
  then have "p \<notin> set (addrs U)" by (cases d1) (auto simp: node_of_def)
  then have "tptr U \<noteq> Some p" using tptr_in by blast
  then have side: "Some p = bleft gn \<longleftrightarrow> d2 = LEFT"
    using gn bchild_cases [of d2] by (auto simp: side_simps)
  have uc: "(if tptr U = None then Inr 0 else color_of (nodes st) (tptr U)) = Inr (rcol U)"
  proof (cases U rule: rcol.cases)
    case (2 ul u uk uv ur)
    have "plug (node_of d2 ?p (g, gk, v2) U) c = plug (node_of LEFT ul (u, uk, uv) ur) ((opposite d2, (g, gk, v2), ?p) # c)"
      by (simp add: 2 node_of_opposite) (simp add: node_of_def)
    with g have "bt_rep rb_pay st (plug (node_of LEFT ul (u, uk, uv) ur) ((opposite d2, (g, gk, v2), ?p) # c))"
      by metis
    from focus_color [OF this] 2 show ?thesis by simp
  qed simp
  have par: "parent_of (nodes st) (Some a) = Inr (Some p)" "parent_of (nodes st) (Some p) = Inr (Some g)"
    using focus_parent [OF rep] focus_parent [OF p] by (simp_all add: par_of_def)
  have un: "(if d2 = LEFT then bright gn else bleft gn) = tptr U" using gn(3) by (simp add: side_rotations)
  let ?m = "if rcol U = 1 then balance_recolor (Some a) (tptr U) st else balance_rotate (d2 = LEFT) (Some a) st"
  have "balance_round (Some a) st = bindE ?m (\<lambda>r. Inr (Some r))"
    unfolding balance_round_def
    by (simp only: par bindE_simps option.distinct if_False focus_color [OF p] simp_thms
        deref_Some [of "nodes st" g, OF gn(1)] Let_def side un uc)
  then show ?thesis
    unfolding balance_loop.simps [of "Some a"] by (cases ?m) (auto split: prod.splits)
qed

text \<open>The loop of \<^verbatim>\<open>balance\<close> ends, and restores the colour invariant.\<close>

lemma rcol_plug: "c \<noteq> [] \<Longrightarrow> rcol (plug t c) = rcol (plug t' c)"
proof (induction t c arbitrary: t' rule: plug.induct)
  case (2 t b x s c)
  obtain a k v where "x = (a, k, v)" by (cases x) auto
  with 2 show ?case by (cases c) auto
qed simp

lemma node_of_ex: "\<exists>l' r'. node_of b l x r = node_of d l' x r'"
  by (cases b; cases d) (auto simp: node_of_def)

lemma balance_rotate_ok:
  assumes rep: "bt_rep rb_pay st (plug (node_of b l (a, k, 1) r) ((d1, (p, pk, 1), s) # (d2, (g, gk, 0), U) # c))"
    and invc: "invc (node_of b l (a, k, 1) r)"
      "rcol s = 0" "invc s" "rcol U = 0" "invc U" "ctxc c"
    and invh: "invh (node_of b l (a, k, 1) r)" "invh s" "invh U" "bheight s = bheight (node_of b l (a, k, 1) r)"
      "bheight U = bheight (node_of b l (a, k, 1) r)" "ctxh c (Suc (bheight (node_of b l (a, k, 1) r)))"
  shows "\<exists>n st' t'. balance_rotate (d2 = LEFT) (Some a) st = Inr (n, st') \<and>
    balance_loop n st' = Some (Inr st') \<and>
    becomes st (plug (node_of b l (a, k, 1) r) ((d1, (p, pk, 1), s) # (d2, (g, gk, 0), U) # c)) st' t' \<and>
    invc t' \<and> invh t'"
proof (cases "d1 = d2")
  case True
  let ?t = "node_of b l (a, k, 1) r"
  let ?c = "(d2, (p, pk, 0), node_of (opposite d2) U (g, gk, 1) s) # c"
  obtain st' where st': "balance_rotate (d2 = LEFT) (Some a) st = Inr (Some a, st')"
    "becomes st (plug ?t ((d1, (p, pk, 1), s) # (d2, (g, gk, 0), U) # c)) st' (plug ?t ?c)"
    using balance_rotate_outer [OF rep [unfolded True]] True by blast
  moreover have "balance_loop (Some a) st' = Some (Inr st')"
    by (rule balance_loop_exit [OF becomes_rep [OF st'(2)]]) simp
  moreover have "invc (plug ?t ?c)" using invc unfolding invc_plug by simp
  moreover have "invh (plug ?t ?c)" using invh unfolding invh_plug by simp
  ultimately show ?thesis by blast
next
  case False
  then have d1: "d1 = opposite d2" by (cases d1; cases d2) (simp_all add: opposite_def)
  obtain l' r' where t: "node_of b l (a, k, 1) r = node_of d2 l' (a, k, 1) r'"
    using node_of_ex [of b l "(a, k, 1)" r d2] by blast
  let ?t = "node_of d2 s (p, pk, 1) l'"
  let ?c = "(d2, (a, k, 0), node_of (opposite d2) U (g, gk, 1) r') # c"
  obtain st' where st': "balance_rotate (d2 = LEFT) (Some a) st = Inr (Some p, st')"
    "becomes st (plug (node_of b l (a, k, 1) r) ((d1, (p, pk, 1), s) # (d2, (g, gk, 0), U) # c)) st' (plug ?t ?c)"
    using balance_rotate_inner [OF rep [unfolded t d1]] unfolding t d1 by blast
  moreover have "balance_loop (Some p) st' = Some (Inr st')"
    by (rule balance_loop_exit [OF becomes_rep [OF st'(2)]]) simp
  moreover have "invc (plug ?t ?c)" using invc unfolding invc_plug t by simp
  moreover have "invh (plug ?t ?c)" using invh unfolding invh_plug t by simp
  ultimately show ?thesis by blast
qed

lemma balance_loop_ok:
  assumes "bt_rep rb_pay st (plug (node_of b l (a, k, 1) r) c)"
    and "invc (node_of b l (a, k, 1) r)" and "ctxc c"
    and "invh (plug (node_of b l (a, k, 1) r) c)"
    and "c \<noteq> [] \<longrightarrow> rcol (plug \<langle>\<rangle> c) = 0"
  shows "\<exists>st' t'. balance_loop (Some a) st = Some (Inr st') \<and>
    becomes st (plug (node_of b l (a, k, 1) r) c) st' t' \<and> invc t' \<and> invh t'"
  using assms
proof (induction "length c" arbitrary: st b l a k r c rule: less_induct)
  case less
  let ?t = "node_of b l (a, k, 1) r"
  note rep = less.prems(1)
  show ?case
  proof (cases "pcol c = 1")
    case False
    then have "pcol c = 0" using ctxc_pcol [OF less.prems(3)] by simp
    then have "invc (plug ?t c)" using less.prems(2,3) by (simp add: invc_plug)
    with balance_loop_exit [OF rep False] becomes_refl [OF rep] less.prems(4) show ?thesis by blast
  next
    case True
    then obtain d1 p pk s c1 where c1: "c = (d1, (p, pk, 1), s) # c1"
      by (cases c rule: pcol.cases) auto
    have "c1 \<noteq> []" using less.prems(5) by (auto simp: c1)
    then obtain d2 g gk v2 U c2 where c2: "c1 = (d2, (g, gk, v2), U) # c2"
      by (cases c1 rule: pcol.cases) auto
    have col: "v2 = 0" "rcol s = 0" "invc s" "invc U" "ctxc c2"
      using less.prems(3) by (auto simp: c1 c2)
    have h: "invh ?t" "invh s" "invh U" "bheight s = bheight ?t" "bheight U = bheight ?t" "ctxh c2 (Suc (bheight ?t))"
      using less.prems(4) unfolding invh_plug by (auto simp: c1 c2 col(1))
    have rt: "c2 \<noteq> [] \<longrightarrow> rcol (plug \<langle>\<rangle> c2) = 0"
      using less.prems(5) rcol_plug [of c2 "\<langle>\<rangle>" "node_of d2 (node_of d1 \<langle>\<rangle> (p, pk, 1) s) (g, gk, v2) U"]
      by (simp add: c1 c2)
    note round = balance_loop_round [OF rep [unfolded c1 c2]]
    show ?thesis
    proof (cases "rcol U = 1")
      case True
      then obtain ul u uk ur where U: "U = node_of LEFT ul (u, uk, 1) ur"
        by (cases U rule: rcol.cases) (auto simp: node_of_def)
      let ?t' = "node_of d2 (node_of d1 ?t (p, pk, 0) s) (g, gk, 1) (node_of LEFT ul (u, uk, 0) ur)"
      obtain st1 where st1: "balance_recolor (Some a) (Some u) st = Inr (Some g, st1)"
        "becomes st (plug ?t c) st1 (plug ?t' c2)"
        using balance_recolor_becomes [OF rep [unfolded c1 c2 U]] unfolding c1 c2 U by blast
      have "invc ?t'" using less.prems(2) col by (simp add: U)
      moreover have "bheight ul = bheight ur" "bheight ul = bheight ?t" "invh ul" "invh ur"
        using h(3,5) by (auto simp: U node_of_def)
      then have "invh (plug ?t' c2)" using h unfolding invh_plug by (simp add: invh_plug)
      ultimately obtain st' t' where "balance_loop (Some g) st1 = Some (Inr st')"
        "becomes st1 (plug ?t' c2) st' t'" "invc t'" "invh t'"
        using less.hyps [OF _ becomes_rep [OF st1(2)] _ col(5) _ rt] by (auto simp: c1 c2)
      with becomes_trans [OF st1(2)] round st1(1) True show ?thesis by (auto simp: U)
    next
      case False
      then have "rcol U = 0" using invc_rcol [OF col(4)] by simp
      then show ?thesis
        using balance_rotate_ok [OF rep [unfolded c1 c2 col(1)] less.prems(2)] round False col h
        unfolding c1 c2 by auto
    qed
  qed
qed

section \<open>Insertion\<close>

definition rb_rep :: "'d::linorder RBTree \<Rightarrow> (addr \<times> 'd \<times> 8 word) tree \<Rightarrow> bool" where
  "rb_rep st t \<longleftrightarrow> bt_rep rb_pay st t \<and> invc t \<and> invh t \<and> rcol t = 0"

text \<open>The root is made black.\<close>

lemma blacken_root:
  assumes "bt_rep rb_pay st t" and "t \<noteq> \<langle>\<rangle>" and "invc t" and "invh t"
  obtains st' t' where "set_color 0 (root st) st = Inr st'" and "becomes st t st' t'" and "rb_rep st' t'"
proof -
  obtain l a k v r where t: "t = node_of LEFT l (a, k, v) r"
    using assms(2) by (cases t rule: rcol.cases) (auto simp: node_of_def)
  have "root st = Some a" using assms(1) by (auto simp: bt_rep_def t node_of_def)
  moreover obtain st' where st': "set_color 0 (Some a) st = Inr st'"
    "becomes st t st' (node_of LEFT l (a, k, 0) r)"
    using set_color_becomes [of st LEFT l a k v r "[]" 0] assms(1) by (auto simp: t)
  moreover have "rb_rep st' (node_of LEFT l (a, k, 0) r)"
    using becomes_rep [OF st'(2)] assms(3,4) by (auto simp: rb_rep_def t)
  ultimately show thesis using that by metis
qed

lemma balance_fixup_ok:
  assumes "bt_rep rb_pay st (plug \<langle>\<langle>\<rangle>, (a, k, 1), \<langle>\<rangle>\<rangle> c)" and "invc (plug \<langle>\<rangle> c)" and "invh (plug \<langle>\<rangle> c)"
    and "c \<noteq> []" and "rcol (plug \<langle>\<rangle> c) = 0"
  obtains st' t' where "bindX (balance_loop (Some a) st) (\<lambda>st. Some (set_color 0 (root st) st)) = Some (Inr st')"
    and "becomes st (plug \<langle>\<langle>\<rangle>, (a, k, 1), \<langle>\<rangle>\<rangle> c) st' t'" and "rb_rep st' t'"
proof -
  let ?t = "node_of LEFT \<langle>\<rangle> (a, k, 1) \<langle>\<rangle>"
  have t: "\<langle>\<langle>\<rangle>, (a, k, 1), \<langle>\<rangle>\<rangle> = ?t" by (simp add: node_of_def)
  have "ctxc c" "ctxh c 0" using assms(2,3) by (simp_all add: invc_plug invh_plug)
  then have "invh (plug ?t c)" by (simp add: invh_plug)
  then obtain st1 t1 where st1: "balance_loop (Some a) st = Some (Inr st1)" "becomes st (plug ?t c) st1 t1"
    "invc t1" "invh t1"
    using balance_loop_ok [of st LEFT "\<langle>\<rangle>" a k "\<langle>\<rangle>" c] assms \<open>ctxc c\<close> unfolding t by auto
  have "inorder (plug ?t c) \<noteq> []" by (simp add: inorder_plug node_of_def)
  then have "t1 \<noteq> \<langle>\<rangle>" using st1(2) by (auto simp: becomes_def strip_def)
  then obtain st2 t2 where st2: "set_color 0 (root st1) st1 = Inr st2" "becomes st1 t1 st2 t2" "rb_rep st2 t2"
    using blacken_root [OF becomes_rep [OF st1(2)] _ st1(3,4)] by blast
  show thesis
    using that [of st2 t2] st1(1) st2 becomes_trans [OF st1(2) st2(2)] by (simp add: t)
qed

lemma attach_root:
  assumes "nodes st a = Some n"
  shows "attach None (Some a) st = Inr (st\<lparr>nodes := (nodes st)(a \<mapsto> (set_links None n)\<lparr>color := 0\<rparr>), root := Some a\<rparr>)"
  using assms by (simp add: attach_def mutate_Some)

lemma set_links_color_idem [simp]:
  "(set_links p ((set_links p n)\<lparr>color := v\<rparr>))\<lparr>color := v\<rparr> = (set_links p n)\<lparr>color := v\<rparr>"
  by (simp add: set_links_def)

lemma RBTree_insert_empty:
  assumes "root st = None" and n: "nodes st a = Some n"
  obtains st' where "RBTree_insert (Some a) st = Some (Inr st')"
    and "rb_rep st' \<langle>\<langle>\<rangle>, (a, comparator n, 0), \<langle>\<rangle>\<rangle>"
    and "\<forall>b. b \<noteq> a \<longrightarrow> nodes st' b = nodes st b" and "key_at st' = key_at st"
proof -
  let ?n = "(set_links None n)\<lparr>color := 0\<rparr>"
  let ?st = "st\<lparr>nodes := (nodes st)(a \<mapsto> ?n), root := Some a\<rparr>"
  have "attach None (Some a) ?st = Inr ?st" using attach_root [of ?st a ?n] by simp
  moreover have "balance_loop (Some a) ?st = Some (Inr ?st)"
    by (simp add: balance_loop.simps balance_round_def parent_of_def deref_Some)
  moreover have "set_color 0 (Some a) ?st = Inr ?st" by (simp add: set_color_def mutate_Some)
  ultimately have "RBTree_insert (Some a) st = Some (Inr ?st)"
    using assms attach_root [OF n] by (simp add: RBTree_insert_def insert_descend.simps balance_def)
  moreover have "rb_rep ?st \<langle>\<langle>\<rangle>, (a, comparator n, 0), \<langle>\<rangle>\<rangle>"
    by (simp add: rb_rep_def bt_rep_def rb_pay_def)
  moreover have "key_at ?st = key_at st" using n by (auto simp: key_at_def fun_eq_iff)
  ultimately show thesis using that by simp
qed

lemma RBTree_insert_nonempty:
  assumes rep: "rb_rep st t" "t \<noteq> \<langle>\<rangle>" and n: "nodes st a = Some n" and a: "a \<notin> set (addrs t)"
  obtains st' t' where "RBTree_insert (Some a) st = Some (Inr st')" and "rb_rep st' t'"
    and "strip t' = strip (bst_ins (fst \<circ> snd) (a, comparator n, 1) t)"
    and "\<forall>b. b \<notin> insert a (set (addrs t)) \<longrightarrow> nodes st' b = nodes st b" and "key_at st' = key_at st"
proof -
  define c where "c = hole (fst \<circ> snd) (comparator n) t []"
  define par where "par = par_of c None"
  let ?n = "(set_links par n)\<lparr>color := 1\<rparr>"
  have t: "tree_at rb_pay (nodes st) None (root st) t" "distinct (addrs t)"
    using rep by (simp_all add: rb_rep_def bt_rep_def)
  have ct: "plug \<langle>\<rangle> c = t" by (simp add: c_def plug_hole)
  then have "c \<noteq> []" using rep(2) by auto
  then obtain q where q: "par = Some q" by (cases c) (auto simp: par_def par_of_def)
  have key: "\<And>m. fst (rb_pay m) = comparator m" by (simp add: rb_pay_def)
  have p: "par = par_of (hole (fst \<circ> snd) (comparator ?n) t []) None" by (simp add: par_def c_def)
  obtain h' where h': "link_under (Some a) par ((nodes st)(a \<mapsto> ?n)) = Inr h'" "link_under (Some a) par h' = Inr h'"
    "h' a = Some ?n" "tree_at rb_pay h' None (root st) (bst_ins (fst \<circ> snd) (a, rb_pay ?n) t)"
    "\<forall>b. b \<notin> insert a (set (addrs t)) \<longrightarrow> h' b = nodes st b"
    "\<forall>b. b \<noteq> a \<longrightarrow> map_option comparator (h' b) = map_option comparator (nodes st b)"
    using link_hole(2) [where f = fst and n' = ?n, OF t a key rb_pay_links(2) _ _ _ p] q by auto
  let ?st = "st\<lparr>nodes := h'\<rparr>"
  have at: "attach par (Some a) st = Inr ?st" using n h'(1) by (simp add: q attach_def mutate_Some)
  have "h'(a \<mapsto> ?n) = h'" using h'(3) by auto
  then have at': "attach par (Some a) ?st = Inr ?st"
    using h'(2,3) by (simp add: q attach_def mutate_Some)
  have desc: "insert_descend (nodes st) (Some a) None (root st) = Some (Inr par)"
    using insert_descend_hole [where f = fst, OF n key t(1), of "[]"] by (simp add: par_def c_def par_of_def)
  have ins: "plug \<langle>\<langle>\<rangle>, (a, comparator n, 1), \<langle>\<rangle>\<rangle> c = bst_ins (fst \<circ> snd) (a, comparator n, 1) t"
    using plug_hole_ins [of "(a, comparator n, 1)" "fst \<circ> snd" t "[]"] by (simp add: c_def)
  let ?t = "plug \<langle>\<langle>\<rangle>, (a, comparator n, 1), \<langle>\<rangle>\<rangle> c"
  have "bt_rep rb_pay ?st ?t"
    using h'(4) distinct_bst_ins [OF t(2) a] unfolding ins by (simp add: bt_rep_def rb_pay_def)
  then obtain st' t' where st': "bindX (balance_loop (Some a) ?st) (\<lambda>st. Some (set_color 0 (root st) st)) = Some (Inr st')"
    "becomes ?st ?t st' t'" "rb_rep st' t'"
    using balance_fixup_ok [of ?st a "comparator n" c] rep \<open>c \<noteq> []\<close> unfolding ct rb_rep_def by blast
  have "RBTree_insert (Some a) st = Some (Inr st')"
    using desc at at' st'(1) by (simp add: RBTree_insert_def balance_def)
  moreover have "set (addrs ?t) = insert a (set (addrs t))"
    using set_addrs_plug [of "\<langle>\<langle>\<rangle>, (a, comparator n, 1), \<langle>\<rangle>\<rangle>" c] set_addrs_plug [of "\<langle>\<rangle>" c] by (simp add: ct)
  then have "\<forall>b. b \<notin> insert a (set (addrs t)) \<longrightarrow> nodes st' b = nodes st b"
    using st'(2) h'(5) by (simp add: becomes_def keeps_def)
  moreover have "key_at ?st x = key_at st x" for x
    using h'(3,6) n by (cases "x = a") (simp_all add: key_at_def)
  then have "key_at st' = key_at st" using st'(2) by (simp add: becomes_def keeps_def fun_eq_iff)
  ultimately show thesis
    using that st'(2,3) ins by (simp add: becomes_def)
qed

lemma map_insert_gt: "map g (insert_gt f x xs) = insert_gt f' (g x) (map g xs)" if "\<And>y. f' (g y) = f y"
  by (induction xs) (simp_all add: that)

lemma strip_bst_ins:
  assumes "sorted (map snd (strip t))"
  shows "strip (bst_ins (fst \<circ> snd) (a, k, v) t) = insert_gt snd (a, k) (strip t)"
proof -
  have "sorted (map (fst \<circ> snd) (inorder t))"
    using assms by (simp add: strip_def comp_def split_beta)
  from inorder_bst_ins [OF this, of "(a, k, v)"]
    map_insert_gt [of snd "\<lambda>(a, k, v). (a, k)" "fst \<circ> snd" "(a, k, v)" "inorder t"]
  show ?thesis by (simp add: strip_def split_beta)
qed

definition rb_holds :: "'d::linorder RBTree \<Rightarrow> (addr \<times> 'd) list \<Rightarrow> bool" where
  "rb_holds st xs \<longleftrightarrow> (\<exists>t. rb_rep st t \<and> strip t = xs \<and> sorted (map snd xs))"

lemma RBTree_insert_rep:
  assumes "rb_rep st t" and "sorted (map snd (strip t))" and "nodes st a = Some n" and "a \<notin> set (addrs t)"
  obtains st' t' where "RBTree_insert (Some a) st = Some (Inr st')" and "rb_rep st' t'"
    and "strip t' = insert_gt snd (a, comparator n) (strip t)"
    and "\<forall>b. b \<notin> insert a (set (addrs t)) \<longrightarrow> nodes st' b = nodes st b" and "key_at st' = key_at st"
proof (cases "t = \<langle>\<rangle>")
  case True
  then have "root st = None" using assms(1) by (simp add: rb_rep_def bt_rep_def)
  then show thesis
    by (rule RBTree_insert_empty [OF _ assms(3)]) (use True that in \<open>simp add: strip_def\<close>)
next
  case False
  then show thesis
    by (rule RBTree_insert_nonempty [OF assms(1) _ assms(3,4)])
       (use that strip_bst_ins [OF assms(2)] in simp)
qed

interpretation rb: ordered_tree rb_holds key_at RBTree_insert RBTree_find
proof
  fix st :: "'d::linorder RBTree" and xs a k
  assume "rb_holds st xs" and "key_at st a = Some k" and a: "a \<notin> fst ` set xs"
  then obtain t n where t: "rb_rep st t" "strip t = xs" "sorted (map snd (strip t))"
    and n: "nodes st a = Some n" "comparator n = k"
    by (auto simp: rb_holds_def key_at_def)
  have a': "a \<notin> set (addrs t)" using a t(2) by (simp add: addrs_strip)
  obtain st' t' where "RBTree_insert (Some a) st = Some (Inr st')" "rb_rep st' t'"
    "strip t' = insert_gt snd (a, k) xs" "key_at st' = key_at st"
    by (rule RBTree_insert_rep [OF t(1,3) n(1) a']) (simp add: n(2) t(2))
  then show "\<exists>st'. RBTree_insert (Some a) st = Some (Inr st') \<and>
      rb_holds st' (insert_gt snd (a, k) xs) \<and> key_at st' = key_at st"
    using t sorted_insert_gt [OF t(3), of "(a, k)"] by (auto simp: rb_holds_def)
next
  fix st :: "'d::linorder RBTree" and xs k
  assume "rb_holds st xs"
  then obtain t where t: "tree_at rb_pay (nodes st) None (root st) t" "strip t = xs"
    and s: "sorted (map (fst \<circ> snd) (inorder t))"
    by (auto simp: rb_holds_def rb_rep_def bt_rep_def strip_def comp_def split_beta)
  have key: "\<And>m. fst (rb_pay m) = comparator m" by (simp add: rb_pay_def)
  note find = find_loop_rep [where f = fst, OF t(1) key s, of k]
  have xs: "(a, k) \<in> set xs \<longleftrightarrow> (\<exists>v. (a, k, v) \<in> set (inorder t))" for a k
    by (auto simp: strip_def simp flip: t(2)) force
  have mem: "k \<in> snd ` set xs \<longleftrightarrow> (\<exists>x \<in> set (inorder t). fst (snd x) = k)"
    by (force simp: strip_def simp flip: t(2))
  show "\<exists>a. RBTree_find k st = Some (Inr (Some a)) \<and> (a, k) \<in> set xs" if "k \<in> snd ` set xs"
    using find(1) that unfolding mem xs RBTree_find_def by auto
  show "RBTree_find k st = Some (Inl (runtime_error ''node not found''))" if "k \<notin> snd ` set xs"
    using find(2) that unfolding mem RBTree_find_def by blast
qed (auto simp: rb_holds_def)

text \<open>The height of a red-black tree is logarithmic.\<close>

lemma height_bheight: "invc t \<Longrightarrow> invh t \<Longrightarrow> height t \<le> 2 * bheight t + (if rcol t = 1 then 1 else 0)"
proof (induction t rule: invc.induct)
  case (2 l a k v r)
  then show ?case using invc_rcol [of l] invc_rcol [of r] by (auto split: if_splits)
qed simp

lemma bheight_size: "invh t \<Longrightarrow> 2 ^ bheight t \<le> size1 t"
proof (induction t rule: invh.induct)
  case (2 l a k v r)
  then have "2 ^ bheight l \<le> size1 l" "2 ^ bheight r \<le> size1 r" by simp_all
  then have "2 ^ bheight l + 2 ^ bheight l \<le> size1 l + size1 r" using 2(3) by simp
  then show ?case by auto
qed simp

lemma rb_rep_height:
  assumes "rb_rep st t"
  shows "2 ^ height t \<le> (size1 t)\<^sup>2"
proof -
  have "height t \<le> 2 * bheight t" using assms height_bheight [of t] by (simp add: rb_rep_def)
  then have "(2 :: nat) ^ height t \<le> 2 ^ (2 * bheight t)" by (rule power_increasing) simp
  also have "\<dots> = (2 ^ bheight t)\<^sup>2" by (simp only: mult.commute [of 2] power_mult)
  also have "\<dots> \<le> (size1 t)\<^sup>2" using assms bheight_size [of t] by (intro power_mono) (simp_all add: rb_rep_def)
  finally show ?thesis .
qed

section \<open>Insertion at a given node\<close>

text \<open>
  \<^verbatim>\<open>insert_at\<close> makes the node its own parent and its own child; the loop of
  \<^verbatim>\<open>balance\<close> then rotates it to the left and to the right for ever.
\<close>

definition self_loop :: "addr \<Rightarrow> 'd RBTree \<Rightarrow> bool" where
  "self_loop a st \<longleftrightarrow> (\<exists>n. nodes st a = Some n \<and> bparent n = Some a \<and> color n = 1 \<and>
     (bleft n = None \<and> bright n = Some a \<or> bleft n = Some a \<and> bright n = None))"

lemma rotate_left_self:
  assumes "nodes st a = Some n" and "bparent n = Some a" and "bleft n = None" and "bright n = Some a"
  shows "rotate_left (Some a) st = Inr (st\<lparr>nodes := (nodes st)(a \<mapsto> n\<lparr>bleft := Some a, bright := None\<rparr>)\<rparr>)"
  using assms
  by (cases n) (simp add: rotate_left_def relink_parent_def parent_of_def deref_Some mutate_Some Let_def)

lemma rotate_right_self:
  assumes "nodes st a = Some n" and "bparent n = Some a" and "bleft n = Some a" and "bright n = None"
  shows "rotate_right (Some a) st = Inr (st\<lparr>nodes := (nodes st)(a \<mapsto> n\<lparr>bleft := None, bright := Some a\<rparr>)\<rparr>)"
  using assms
  by (cases n) (simp add: rotate_right_def relink_parent_def parent_of_def deref_Some mutate_Some Let_def)

lemma set_color_Some: "nodes st a = Some n \<Longrightarrow> set_color v (Some a) st = Inr (st\<lparr>nodes := (nodes st)(a \<mapsto> n\<lparr>color := v\<rparr>)\<rparr>)"
  by (simp add: set_color_def mutate_Some)

lemma self_loop_round:
  assumes "self_loop a st"
  obtains st' where "self_loop a st'" and "balance_round (Some a) st = Inr (Some (Some a, st'))"
proof -
  obtain n where n: "nodes st a = Some n" "bparent n = Some a" "color n = 1"
    "bleft n = None \<and> bright n = Some a \<or> bleft n = Some a \<and> bright n = None"
    using assms by (auto simp: self_loop_def)
  define side where "side = (bleft n = Some a)"
  let ?st = "st\<lparr>nodes := (nodes st)(a \<mapsto> n\<lparr>color := 1\<rparr>)\<rparr>"
  have par: "parent_of (nodes st) (Some a) = Inr (Some a)" "color_of (nodes st) (Some a) = Inr 1"
    "deref (nodes st) (Some a) = Inr n"
    using n by (simp_all add: parent_of_def color_of_def deref_Some)
  have "\<exists>st'. (if side then rotate_right (Some a) ?st else rotate_left (Some a) ?st) = Inr st' \<and> self_loop a st'"
    using n rotate_left_self [of ?st a "n\<lparr>color := 1\<rparr>"] rotate_right_self [of ?st a "n\<lparr>color := 1\<rparr>"]
    by (auto simp: self_loop_def side_def)
  then obtain st' where st': "(if side then rotate_right (Some a) ?st else rotate_left (Some a) ?st) = Inr st'"
    "self_loop a st'" by blast
  have un: "(if side then bright n else bleft n) = None" "Some a = bleft n \<longleftrightarrow> side"
    using n(4) by (auto simp: side_def)
  have c0: "set_color 0 (Some a) st = Inr (st\<lparr>nodes := (nodes st)(a \<mapsto> n\<lparr>color := 0\<rparr>)\<rparr>)"
    "set_color 1 (Some a) (st\<lparr>nodes := (nodes st)(a \<mapsto> n\<lparr>color := 0\<rparr>)\<rparr>) = Inr ?st"
    "parent_of ((nodes st)(a \<mapsto> n\<lparr>color := 0\<rparr>)) (Some a) = Inr (Some a)"
    using n by (simp_all add: set_color_Some parent_of_def deref_Some)
  have "balance_rotate side (Some a) st = Inr (Some a, st')"
    unfolding balance_rotate_def using c0 st'(1) by (simp add: par un)
  then have "balance_round (Some a) st = Inr (Some (Some a, st'))"
    unfolding balance_round_def by (simp add: par un Let_def)
  with st'(2) show thesis using that by blast
qed

lemma self_loop_hangs:
  assumes "self_loop a st"
  shows "balance_loop (Some a) st = None"
proof (rule ccontr)
  assume "balance_loop (Some a) st \<noteq> None"
  then obtain r where r: "balance_loop (Some a) st = Some r" by blast
  have "Some a = Some a \<longrightarrow> self_loop a st \<longrightarrow> False"
  proof (rule balance_loop.raw_induct [where P = "\<lambda>p st r. p = Some a \<longrightarrow> self_loop a st \<longrightarrow> False", OF _ r])
    fix f p and st :: "'a RBTree" and r
    assume IH: "\<And>p st r. f p st = Some r \<Longrightarrow> p = Some a \<longrightarrow> self_loop a st \<longrightarrow> False"
      and body: "bindX (Some (balance_round p st)) (\<lambda>r. case r of None \<Rightarrow> Some (Inr st) | Some (n, st) \<Rightarrow> f n st) = Some r"
    show "p = Some a \<longrightarrow> self_loop a st \<longrightarrow> False"
    proof (intro impI)
      assume p: "p = Some a" and "self_loop a st"
      then obtain st' where "self_loop a st'" "balance_round (Some a) st = Inr (Some (Some a, st'))"
        using self_loop_round by blast
      with IH [of "Some a" st' r] body p show False by simp
    qed
  qed
  with assms show False by blast
qed

section \<open>Deletion of a node with at most one child\<close>

lemma delete_fixup_null: "root st \<noteq> None \<Longrightarrow> delete_fixup_loop None st = Some (Inl undefined_behaviour)"
  by (subst delete_fixup_loop.simps) (auto simp: color_of_def)

lemma delete_descend_find:
  assumes "tree_at rb_pay h par p t" and "find_loop h k p = Some (Inr q)"
  shows "delete_descend h k p = Some (Inr q)"
  using assms
proof (induction t arbitrary: par p)
  case (Node l y r)
  obtain b x where y: "y = (b, x)" by (cases y)
  with Node.prems obtain m where m: "h b = Some m" "p = Some b"
    "tree_at rb_pay h (Some b) (bleft m) l" "tree_at rb_pay h (Some b) (bright m) r" by auto
  from Node.prems(2) show ?case
    using Node.IH(1) [OF m(3)] Node.IH(2) [OF m(4)] m(1)
    unfolding m(2) find_loop.simps [of h k "Some b"] delete_descend.simps [of h k "Some b"]
    by (auto simp: deref_Some split: if_splits)
qed (simp add: find_loop.simps)

lemma unique_key:
  assumes "distinct (map snd (strip t))" and "(a, k, v) \<in> set (inorder t)" and "(b, k, w) \<in> set (inorder t)"
  shows "a = b"
proof -
  have "(a, k) \<in> set (strip t)" "(b, k) \<in> set (strip t)"
    using assms(2,3) by (force simp: strip_def)+
  with assms(1) show ?thesis
    using inj_onD [of snd "set (strip t)" "(a, k)" "(b, k)"] by (simp add: distinct_map)
qed

text \<open>Transplanting the only child of a node leaves the tree non-empty.\<close>

lemma transplant_child:
  assumes rep: "bt_rep rb_pay st (plug (node_of b t (a, x) \<langle>\<rangle>) c)" and "c \<noteq> [] \<or> t \<noteq> \<langle>\<rangle>"
  obtains st' where "transplant (Some a) (tptr t) st = Inr st'" and "root st' \<noteq> None" and "nodes st' a \<noteq> None"
proof -
  obtain n where n: "nodes st a = Some n" "bparent n = par_of c None" by (rule focus_node [OF rep])
  obtain par where ctx: "ctx_at rb_pay (nodes st) (root st) par (Some a) c"
    and ta: "tree_at rb_pay (nodes st) (Some a) (tptr t) t"
    using rep tree_at_tptr unfolding bt_rep_def tree_at_plug tree_at_node_of by metis
  have "distinct (addrs (node_of b t (a, x) \<langle>\<rangle>) @ map fst (ctx_list c))"
    using rep by (simp add: bt_rep_def distinct_plug)
  then have d: "a \<notin> set (map fst (ctx_list c))" "set (addrs t) \<inter> set (map fst (ctx_list c)) = {}" "a \<notin> set (addrs t)"
    by (cases b; auto simp: node_of_def)+
  let ?st = "relink c (tptr t) st"
  have r: "relink_parent (Some a) (tptr t) st = Inr ?st"
    using relink_parent_eq [OF ctx n(1) _ d(1)] n(2) ctx_at_par [OF ctx] by simp
  have na: "nodes ?st a = Some n" using relink_outside [OF d(1), of "tptr t" st] n(1) by simp
  have rt: "root ?st \<noteq> None"
  proof (cases c)
    case (Cons e c')
    have "inorder (plug (node_of b t (a, x) \<langle>\<rangle>) c) \<noteq> []" by (simp add: inorder_plug node_of_def)
    then have "plug (node_of b t (a, x) \<langle>\<rangle>) c \<noteq> \<langle>\<rangle>" by auto
    then have "root st \<noteq> None" using rep tree_at_ptr unfolding bt_rep_def by blast
    then show ?thesis by (auto simp: relink_def Cons split: prod.splits)
  qed (use assms(2) in \<open>auto simp: relink_def tptr_def split: tree.splits\<close>)
  show thesis
  proof (cases "tptr t")
    case None
    then show thesis using that [of ?st] r rt na by (simp add: transplant_def)
  next
    case (Some z)
    then have z: "z \<in> set (addrs t)" by (rule tptr_in)
    then obtain m where m: "nodes st z = Some m" using tree_at_dom [OF ta] by blast
    have "nodes ?st z = Some m" using relink_outside [of z c "tptr t" st] d(2) z m by auto
    moreover have "z \<noteq> a" using d(3) z by blast
    ultimately show thesis
      using that [of "?st\<lparr>nodes := (nodes ?st)(z \<mapsto> m\<lparr>bparent := bparent n\<rparr>)\<rparr>"] r rt na
      by (simp add: transplant_def Some parent_of_def deref_Some mutate_Some)
  qed
qed

lemma delete_one_child:
  assumes rep: "bt_rep rb_pay st (plug (node_of b t (a, k, v) \<langle>\<rangle>) c)" and ne: "c \<noteq> [] \<or> t \<noteq> \<langle>\<rangle>"
    and found: "delete_descend (nodes st) k (root st) = Some (Inr (Some a))"
  shows "RBTree_delete k st = Some (Inl undefined_behaviour)"
proof -
  obtain n where n: "nodes st a = Some n" "rb_pay n = (k, v)" "child_of b n = tptr t"
      "child_of (opposite b) n = None"
    by (rule focus_node [OF rep]) simp
  obtain st' where st': "transplant (Some a) (tptr t) st = Inr st'" "root st' \<noteq> None" "nodes st' a \<noteq> None"
    by (rule transplant_child [OF rep ne])
  have "bleft n = None \<and> bright n = tptr t \<or> bleft n = tptr t \<and> bright n = None"
    using n(3,4) bchild_cases [of b] by (auto simp: side_simps)
  then have "unlink_node (Some a) st = Some (Inr (None, 0, st'))"
    using n(1) st'(1) by (auto simp: unlink_node_def deref_Some)
  moreover obtain m where "nodes st' a = Some m" using st'(3) by blast
  ultimately show ?thesis
    using found n(1,2) delete_fixup_null [of "st'\<lparr>nodes := (nodes st')(a := None)\<rparr>"] st'(2)
    by (simp add: RBTree_delete_def deref_Some free_node_Some rb_pay_def Let_def)
qed

section \<open>Properties\<close>

definition rb_node :: "'d \<Rightarrow> 'd RBNode" where
  "rb_node k = \<lparr>comparator = k, bparent = None, bleft = None, bright = None, color = 0\<rparr>"

definition rb_example :: "int RBTree" where
  "rb_example = \<lparr>nodes = [2 \<mapsto> rb_node 5, 3 \<mapsto> rb_node 2, 4 \<mapsto> rb_node 8], root = None, depth = 0\<rparr>"

text \<open>
  C7. Inserting a node that is not in it into a red-black tree returns, for every colour
  and rotation case: the result is again a red-black tree (black root, no red node with a
  red child, equal black heights, consistent parent pointers) whose in-order sequence is
  the old one with the new node before the first greater key; nodes outside the tree are
  untouched.
\<close>

theorem RBTree_insert_refines:
  assumes "rb_rep st t" and "sorted (map snd (strip t))" and "nodes st a = Some n" and "a \<notin> set (addrs t)"
  shows "\<exists>st' t'. RBTree_insert (Some a) st = Some (Inr st') \<and> rb_rep st' t' \<and>
    strip t' = insert_gt snd (a, comparator n) (strip t) \<and>
    (\<forall>b. b \<notin> insert a (set (addrs t)) \<longrightarrow> nodes st' b = nodes st b)"
  by (rule RBTree_insert_rep [OF assms]) blast

theorem RBTree_insert_refines_witness:
  "\<exists>st' t'. RBTree_insert (Some 2) rb_example = Some (Inr st') \<and> rb_rep st' t' \<and> strip t' = [(2, 5)]"
proof -
  have "rb_rep rb_example \<langle>\<rangle>" by (simp add: rb_rep_def bt_rep_def rb_example_def)
  moreover have "nodes rb_example 2 = Some (rb_node 5)" "comparator (rb_node 5 :: int RBNode) = 5"
    by (simp_all add: rb_example_def rb_node_def)
  moreover have "strip (\<langle>\<rangle> :: (addr \<times> int \<times> 8 word) tree) = []" by (simp add: strip_def)
  ultimately show ?thesis using RBTree_insert_refines [of rb_example "\<langle>\<rangle>" 2 "rb_node 5"] by auto
qed

text \<open>
  C24. Inserting any nodes, each once, into an empty tree returns a red-black tree that
  holds exactly them in ascending order of comparator, whose height is at most twice the
  binary logarithm of the number of nodes plus one; searches then find exactly the
  comparators inserted.
\<close>

theorem RBTree_insert_all:
  assumes "root st = None" and "distinct as" and "\<forall>a \<in> set as. nodes st a \<noteq> None"
  shows "\<exists>st' t. foldX (\<lambda>a. RBTree_insert (Some a)) as st = Some (Inr st') \<and> rb_rep st' t \<and>
    mset (strip t) = mset (map (\<lambda>a. (a, the (key_at st a))) as) \<and>
    map snd (strip t) = sort (map (\<lambda>a. the (key_at st a)) as) \<and>
    2 ^ height t \<le> (length as + 1)\<^sup>2 \<and>
    (\<forall>k. k \<in> (\<lambda>a. the (key_at st a)) ` set as \<longrightarrow>
       (\<exists>b \<in> set as. RBTree_find k st' = Some (Inr (Some b)) \<and> key_at st b = Some k)) \<and>
    (\<forall>k. k \<notin> (\<lambda>a. the (key_at st a)) ` set as \<longrightarrow>
       RBTree_find k st' = Some (Inl (runtime_error ''node not found'')))"
proof -
  have h: "rb_holds st []"
    using assms(1) by (auto simp: rb_holds_def rb_rep_def bt_rep_def strip_def intro: exI [of _ "\<langle>\<rangle>"])
  have k: "\<forall>a \<in> set as. key_at st a \<noteq> None" using assms(3) by (simp add: key_at_def)
  obtain st' ys where s: "foldX (\<lambda>a. RBTree_insert (Some a)) as st = Some (Inr st')" "rb_holds st' ys"
    "mset ys = mset (map (\<lambda>a. (a, the (key_at st a))) as)"
    "map snd ys = sort (map (\<lambda>a. the (key_at st a)) as)"
    using rb.insert_all_sorted [OF h assms(2) k] by blast
  then obtain t where t: "rb_rep st' t" "strip t = ys" by (auto simp: rb_holds_def)
  have "length ys = length as" using arg_cong [OF s(3), of size] by simp
  moreover have "length (inorder t) = length ys" using t(2) by (auto simp: strip_def)
  ultimately have "size1 t = length as + 1" by (simp add: size1_size flip: length_inorder)
  with rb_rep_height [OF t(1)] have "2 ^ height t \<le> (length as + 1)\<^sup>2" by simp
  moreover have f: "\<forall>a \<in> set as. \<forall>q. key_at st a = Some q \<longrightarrow>
      (\<exists>b \<in> set as. RBTree_find q st' = Some (Inr (Some b)) \<and> key_at st b = Some q)"
    "\<forall>q. q \<notin> (\<lambda>a. the (key_at st a)) ` set as \<longrightarrow>
      RBTree_find q st' = Some (Inl (runtime_error ''node not found''))"
    using rb.insert_all_find [OF h assms(2) k] s(1) by simp_all
  moreover have "\<exists>b \<in> set as. RBTree_find q st' = Some (Inr (Some b)) \<and> key_at st b = Some q"
    if "q \<in> (\<lambda>a. the (key_at st a)) ` set as" for q
  proof -
    from that obtain a where "a \<in> set as" "key_at st a = Some q" using k by force
    with f(1) show ?thesis by simp
  qed
  ultimately show ?thesis using s t by blast
qed

theorem RBTree_insert_all_witness:
  "\<exists>st'. foldX (\<lambda>a. RBTree_insert (Some a)) [2, 3, 4] rb_example = Some (Inr st') \<and>
     RBTree_find 7 st' = Some (Inl (runtime_error ''node not found''))"
proof -
  have pre: "root rb_example = None" "distinct [2, 3, 4 :: nat]"
    "\<forall>a \<in> set [2, 3, 4]. nodes rb_example a \<noteq> None"
    by (simp_all add: rb_example_def)
  have "7 \<notin> (\<lambda>a. the (key_at rb_example a)) ` set [2, 3, 4]"
    by (simp add: rb_example_def rb_node_def key_at_def)
  with RBTree_insert_all [OF pre] show ?thesis by blast
qed

text \<open>
  C25. \<^verbatim>\<open>RBTree::insert_at\<close> never inserts: it throws when the left child of the given
  node is populated, whichever side is asked for, and otherwise never returns.
\<close>

theorem RBTree_insert_at_hangs:
  assumes "nodes st a = Some n" and "nodes st q = Some m" and "q \<noteq> a"
  shows "RBTree_insert_at (Some a) (Some q) pos st =
    (if bleft m \<noteq> None then Some (Inl (runtime_error ''Left child already populated'')) else None)"
proof (cases "bleft m = None")
  case True
  let ?h = "(nodes st)(a \<mapsto> (set_links (Some q) n)\<lparr>color := 1\<rparr>, q \<mapsto> set_child pos (Some a) m)"
  let ?m = "set_child RIGHT (Some q) ((set_links (Some q) (set_child pos (Some a) m))\<lparr>color := 1\<rparr>)"
  have "attach (Some q) (Some q) (st\<lparr>nodes := ?h\<rparr>) = Inr (st\<lparr>nodes := ?h(q \<mapsto> ?m)\<rparr>)"
    using assms(3) by (simp add: attach_def link_under_def deref_Some mutate_Some)
  moreover have "self_loop q (st\<lparr>nodes := ?h(q \<mapsto> ?m)\<rparr>)"
    by (simp add: self_loop_def set_child_def set_links_def)
  then have "balance_loop (Some q) (st\<lparr>nodes := ?h(q \<mapsto> ?m)\<rparr>) = None" by (rule self_loop_hangs)
  ultimately have "balance (Some q) (Some q) (st\<lparr>nodes := ?h\<rparr>) = None"
    by (simp only: balance_def bindX_simps)
  with True assms show ?thesis
    by (simp add: RBTree_insert_at_def deref_Some mutate_Some)
qed (use assms in \<open>simp add: RBTree_insert_at_def deref_Some\<close>)

theorem RBTree_insert_at_hangs_witness: "RBTree_insert_at (Some 3) (Some 2) LEFT rb_example = None"
  using RBTree_insert_at_hangs [of rb_example 3 "rb_node 2" 2 "rb_node 5" LEFT]
  by (simp add: rb_example_def rb_node_def)

text \<open>
  C26. Deleting the comparator of a node that lacks a child, from a tree with another
  node, reads through a null pointer: the fix-up starts from \<^verbatim>\<open>old\<close>, which that case
  leaves null.
\<close>

theorem RBTree_delete_null:
  assumes "rb_rep st (plug \<langle>l, (a, k, v), r\<rangle> c)"
    and "sorted (map snd (strip (plug \<langle>l, (a, k, v), r\<rangle> c)))"
    and "distinct (map snd (strip (plug \<langle>l, (a, k, v), r\<rangle> c)))"
    and "l = \<langle>\<rangle> \<or> r = \<langle>\<rangle>" and "c \<noteq> [] \<or> l \<noteq> \<langle>\<rangle> \<or> r \<noteq> \<langle>\<rangle>"
  shows "RBTree_delete k st = Some (Inl undefined_behaviour)"
proof -
  let ?t = "plug \<langle>l, (a, k, v), r\<rangle> c"
  have t: "tree_at rb_pay (nodes st) None (root st) ?t" and rep: "bt_rep rb_pay st ?t"
    using assms(1) by (simp_all add: rb_rep_def bt_rep_def)
  have "(a, k, v) \<in> set (inorder ?t)" by (simp add: inorder_plug)
  moreover have "sorted (map (fst \<circ> snd) (inorder ?t))"
    using assms(2) by (simp add: strip_def comp_def split_beta)
  moreover have "\<And>m. fst (rb_pay m) = comparator m" by (simp add: rb_pay_def)
  ultimately obtain b w where "find_loop (nodes st) k (root st) = Some (Inr (Some b))" "(b, k, w) \<in> set (inorder ?t)"
    using find_loop_rep(1) [where f = fst, OF t, of k] by force
  moreover from this \<open>(a, k, v) \<in> set (inorder ?t)\<close> have "b = a" using unique_key [OF assms(3)] by blast
  ultimately have found: "delete_descend (nodes st) k (root st) = Some (Inr (Some a))"
    using delete_descend_find [OF t] by simp
  show ?thesis
  proof (cases "r = \<langle>\<rangle>")
    case True
    show ?thesis
      by (rule delete_one_child [of st LEFT l a k v c]) (use rep found True assms(5) in \<open>simp_all add: node_of_def\<close>)
  next
    case False
    show ?thesis
      by (rule delete_one_child [of st RIGHT r a k v c]) (use rep found False assms(4,5) in \<open>simp_all add: node_of_def\<close>)
  qed
qed

theorem RBTree_delete_null_witness:
  "RBTree_delete (2 :: int) \<lparr>nodes = [2 \<mapsto> (rb_node 5)\<lparr>bleft := Some 3\<rparr>,
     3 \<mapsto> (rb_node 2)\<lparr>bparent := Some 2, color := 1\<rparr>], root = Some 2, depth = 0\<rparr>
   = Some (Inl undefined_behaviour)"
  by (rule RBTree_delete_null [of _ "\<langle>\<rangle>" 3 2 1 "\<langle>\<rangle>" "[(LEFT, (2, 5 :: int, 0), \<langle>\<rangle>)]"])
     (simp_all add: rb_rep_def bt_rep_def rb_node_def rb_pay_def node_of_def strip_def)

end
