(* ===== verification/Matrix_IO.thy ===== *)
theory Matrix_IO
  imports Common_Types
begin

text \<open>
  \<^verbatim>\<open>src/src/io/IO.hpp\<close>, \<^verbatim>\<open>src/src/io/IOfactory.hpp\<close>,
  \<^verbatim>\<open>src/src/io/vecs_reader.hpp\<close> and \<^verbatim>\<open>src/src/utils/FileUtil.hpp\<close>: a matrix kept
  in memory or read from a file on demand. A file is a list of 32-bit words, the size of an
  \<^verbatim>\<open>int\<close> and of a \<^verbatim>\<open>data_t\<close>; \<open>of_bits\<close> and \<open>to_bits\<close> are the reinterpreting
  casts between words and values. A pointer into the data is the rest of the data from
  there, and an array made by \<^verbatim>\<open>new\<close> is a list; the value \<open>g\<close> stands for the content
  of memory that was not written.
\<close>

section \<open>Files\<close>

type_synonym file_system = "string \<rightharpoonup> 32 word list"

definition get_file_size :: "file_system \<Rightarrow> string \<Rightarrow> size_t" where
  "get_file_size files filename =
     (case files filename of Some ws \<Rightarrow> word_of_nat (4 * length ws) | None \<Rightarrow> - 1)"

definition file_exists :: "file_system \<Rightarrow> string \<Rightarrow> bool" where
  "file_exists files f \<longleftrightarrow> files f \<noteq> None"

definition get_file_ext :: "string \<Rightarrow> string" where
  "get_file_ext s =
     (if CHR ''.'' \<in> set s then rev (takeWhile (\<lambda>c. c \<noteq> CHR ''.'') (rev s)) else '''')"

text \<open>\<^verbatim>\<open>fs.read\<close> of \<open>n\<close> values into fresh memory; at the end of the file the rest is not written.\<close>

definition read_vals :: "(32 word \<Rightarrow> 'd) \<Rightarrow> 'd \<Rightarrow> nat \<Rightarrow> 32 word list \<Rightarrow> 'd list" where
  "read_vals of_bits g n ws = map of_bits (take n ws) @ replicate (n - length ws) g"

fun fvecs_read ::
  "(32 word \<Rightarrow> 'd) \<Rightarrow> 'd \<Rightarrow> nat \<Rightarrow> nat \<Rightarrow> 32 word \<Rightarrow> 32 word list \<Rightarrow> 'd list result" where
  "fvecs_read of_bits g 0 ncol read_dim ws = Inr []"
| "fvecs_read of_bits g (Suc nrow) ncol read_dim ws =
     (let read_dim = (case ws of [] \<Rightarrow> read_dim | w # _ \<Rightarrow> w); ws = drop 1 ws in
      if read_dim = word_of_nat ncol
      then bindE (fvecs_read of_bits g nrow ncol read_dim (drop ncol ws)) (\<lambda>buf.
           Inr (read_vals of_bits g ncol ws @ buf))
      else Inl assert_failure)"

section \<open>A matrix in memory\<close>

record 'd MemoryIO =
  mio_fn :: string
  mio_data :: "'d list option"
  mio_orientation :: mat_orient_t
  mio_dim :: "nat \<times> nat"
  is_data_local :: "bool option"

definition MemoryIO_new :: "'d MemoryIO" where
  "MemoryIO_new = \<lparr>mio_fn = '''', mio_data = None, mio_orientation = INVALID, mio_dim = (0, 0),
     is_data_local = Some False\<rparr>"

text \<open>This constructor does not initialise the flag of local data.\<close>

definition MemoryIO_of :: "'d list \<Rightarrow> nat \<times> nat \<Rightarrow> mat_orient_t \<Rightarrow> 'd MemoryIO" where
  "MemoryIO_of data dim orient = \<lparr>mio_fn = '''', mio_data = Some data, mio_orientation = orient,
     mio_dim = dim, is_data_local = None\<rparr>"

text \<open>The singleton, and with it the object that is returned.\<close>

definition MemoryIO_create :: "'d MemoryIO option \<Rightarrow> 'd MemoryIO" where
  "MemoryIO_create singleton = (case singleton of None \<Rightarrow> MemoryIO_new | Some m \<Rightarrow> m)"

definition MemoryIO_create_of ::
  "'d list \<Rightarrow> nat \<times> nat \<Rightarrow> mat_orient_t \<Rightarrow> 'd MemoryIO option \<Rightarrow> 'd MemoryIO" where
  "MemoryIO_create_of data dim orient singleton =
     (case singleton of None \<Rightarrow> MemoryIO_of data dim orient | Some m \<Rightarrow> m)"

definition mio_set_fn :: "string \<Rightarrow> 'd MemoryIO \<Rightarrow> 'd MemoryIO" where
  "mio_set_fn f m = (if mio_fn m = '''' then m\<lparr>mio_fn := f\<rparr> else m)"

definition mio_set_orientation :: "mat_orient_t \<Rightarrow> 'd MemoryIO \<Rightarrow> 'd MemoryIO" where
  "mio_set_orientation orient m =
     (if mio_orientation m = INVALID then m\<lparr>mio_orientation := orient\<rparr> else m)"

definition mio_shape :: "nat \<times> nat \<Rightarrow> 'd MemoryIO \<Rightarrow> 'd MemoryIO" where
  "mio_shape dim m = (if mio_dim m = (0, 0) then m\<lparr>mio_dim := dim\<rparr> else m)"

definition mio_set_data :: "'d list \<Rightarrow> 'd MemoryIO \<Rightarrow> 'd MemoryIO" where
  "mio_set_data data m = (if mio_data m \<noteq> None then m else m\<lparr>mio_data := Some data\<rparr>)"

text \<open>
  The array is made before the file is opened, so an object whose file could not be opened
  keeps the unwritten array; the state comes back with the exception.
\<close>

definition open_failure :: "string \<Rightarrow> error" where
  "open_failure f = io_exception (''Failure to open file: '' @ [CHR 0x27] @ f @ [CHR 0x27, CHR 0x0A])"

definition from_file ::
  "file_system \<Rightarrow> (32 word \<Rightarrow> 'd) \<Rightarrow> 'd \<Rightarrow> 32 word \<Rightarrow> 'd MemoryIO \<Rightarrow> unit result \<times> 'd MemoryIO" where
  "from_file files of_bits g g_dim m =
     (if mio_data m \<noteq> None then (Inr (), m)
      else if mio_fn m = '''' then (Inl assert_failure, m)
      else let (nrow, ncol) = mio_dim m; m' = m\<lparr>mio_data := Some (replicate (nrow * ncol) g)\<rparr> in
      case files (mio_fn m) of
        None \<Rightarrow> (Inl (open_failure (mio_fn m)), m')
      | Some ws \<Rightarrow>
          (case if get_file_ext (mio_fn m) = ''fvecs'' then fvecs_read of_bits g nrow ncol g_dim ws
                else Inr (read_vals of_bits g (nrow * ncol) ws) of
             Inl e \<Rightarrow> (Inl e, m')
           | Inr data \<Rightarrow> (Inr (), m\<lparr>mio_data := Some data, is_data_local := Some True\<rparr>)))"

text \<open>\<^verbatim>\<open>read\<close> assigns its parameter, a copy of the caller's pointer.\<close>

definition mio_read :: "'d list \<Rightarrow> nat \<Rightarrow> 'd MemoryIO \<Rightarrow> 'd list" where
  "mio_read buf offset m = buf"

definition mio_write :: "('d \<Rightarrow> 32 word) \<Rightarrow> file_system \<Rightarrow> 'd MemoryIO \<Rightarrow> file_system result" where
  "mio_write to_bits files m =
     (if mio_fn m = '''' then Inl assert_failure
      else case mio_data m of
        None \<Rightarrow> Inl undefined_behaviour
      | Some data \<Rightarrow>
          let n = fst (mio_dim m) * snd (mio_dim m)
          in if n \<le> length data then Inr (files(mio_fn m \<mapsto> map to_bits (take n data)))
             else Inl undefined_behaviour)"

definition transpose_loop :: "nat \<Rightarrow> nat \<Rightarrow> 'd list \<Rightarrow> 'd list \<Rightarrow> 'd list" where
  "transpose_loop nrow ncol data tmp =
     foldl (\<lambda>tmp row. foldl (\<lambda>tmp col. tmp[col * nrow + row := data ! (row * ncol + col)]) tmp [0..<ncol])
       tmp [0..<nrow]"

definition mio_transpose :: "'d \<Rightarrow> 'd MemoryIO \<Rightarrow> 'd MemoryIO result" where
  "mio_transpose g m =
     (let (nrow, ncol) = mio_dim m in
      case mio_data m of
        None \<Rightarrow> if nrow * ncol = 0 then Inr (m\<lparr>mio_data := Some [], mio_dim := (ncol, nrow),
            mio_orientation := (if mio_orientation m = ROW then COL else ROW)\<rparr>)
          else Inl undefined_behaviour
      | Some data \<Rightarrow>
          if nrow * ncol \<le> length data
          then Inr (m\<lparr>mio_data := Some (transpose_loop nrow ncol data (replicate (nrow * ncol) g)),
                 mio_dim := (ncol, nrow),
                 mio_orientation := (if mio_orientation m = ROW then COL else ROW)\<rparr>)
          else Inl undefined_behaviour)"

text \<open>\<^verbatim>\<open>tmp[i] = data[f i]\<close> for \<open>i < n\<close> into a new array.\<close>

fun gather :: "'d list \<Rightarrow> (nat \<Rightarrow> nat) \<Rightarrow> nat \<Rightarrow> nat \<Rightarrow> 'd list result" where
  "gather data f i 0 = Inr []"
| "gather data f i (Suc n) =
     bindE (read_at data (f i)) (\<lambda>x. bindE (gather data f (i + 1) n) (\<lambda>xs. Inr (x # xs)))"

definition data_of :: "'d MemoryIO \<Rightarrow> 'd list result" where
  "data_of m = (case mio_data m of None \<Rightarrow> Inl undefined_behaviour | Some data \<Rightarrow> Inr data)"

definition pointer_to :: "nat \<Rightarrow> 'd list \<Rightarrow> 'd list result" where
  "pointer_to i data = (if i \<le> length data then Inr (drop i data) else Inl undefined_behaviour)"

definition mio_get_col :: "nat \<Rightarrow> 'd MemoryIO \<Rightarrow> 'd list result" where
  "mio_get_col offset m =
     (case mio_orientation m of
        COL \<Rightarrow> bindE (data_of m) (pointer_to (offset * fst (mio_dim m)))
      | ROW \<Rightarrow> bindE (data_of m) (\<lambda>data.
          gather data (\<lambda>row. row * snd (mio_dim m) + offset) 0 (fst (mio_dim m)))
      | _ \<Rightarrow> Inl not_implemented_exception)"

definition mio_get_row :: "nat \<Rightarrow> 'd MemoryIO \<Rightarrow> 'd list result" where
  "mio_get_row offset m =
     (case mio_orientation m of
        ROW \<Rightarrow> bindE (data_of m) (pointer_to (offset * snd (mio_dim m)))
      | COL \<Rightarrow> bindE (data_of m) (\<lambda>data.
          gather data (\<lambda>col. col * fst (mio_dim m) + offset) 0 (snd (mio_dim m)))
      | _ \<Rightarrow> Inl not_implemented_exception)"

definition mio_destroy :: "'d MemoryIO \<Rightarrow> 'd MemoryIO result" where
  "mio_destroy m =
     (if mio_data m = None then Inr m
      else case is_data_local m of
        None \<Rightarrow> Inl undefined_behaviour
      | Some b \<Rightarrow> Inr (if b then m\<lparr>mio_data := None\<rparr> else m))"

section \<open>A matrix in a file\<close>

text \<open>
  \<^verbatim>\<open>std::fstream\<close>: the open file, the position in words, and the fail bit, after which
  seeks, reads and writes do nothing. Opening an open stream sets the bit and keeps the file.
\<close>

record stream =
  st_file :: "string option"
  st_pos :: nat
  st_fail :: bool

definition stream_new :: stream where
  "stream_new = \<lparr>st_file = None, st_pos = 0, st_fail = False\<rparr>"

definition stream_open :: "file_system \<Rightarrow> string \<Rightarrow> stream \<Rightarrow> stream" where
  "stream_open files f s =
     (if st_file s = None \<and> file_exists files f then \<lparr>st_file = Some f, st_pos = 0, st_fail = False\<rparr>
      else s\<lparr>st_fail := True\<rparr>)"

definition stream_close :: "stream \<Rightarrow> stream" where
  "stream_close s = s\<lparr>st_file := None\<rparr>"

definition stream_seek :: "nat \<Rightarrow> stream \<Rightarrow> stream" where
  "stream_seek p s =
     (if st_fail s then s else if st_file s = None then s\<lparr>st_fail := True\<rparr> else s\<lparr>st_pos := p\<rparr>)"

definition content :: "file_system \<Rightarrow> string \<Rightarrow> 32 word list" where
  "content files f = (case files f of None \<Rightarrow> [] | Some ws \<Rightarrow> ws)"

definition stream_read ::
  "file_system \<Rightarrow> (32 word \<Rightarrow> 'd) \<Rightarrow> nat \<Rightarrow> 'd list \<Rightarrow> stream \<Rightarrow> 'd list \<times> stream" where
  "stream_read files of_bits n buf s =
     (if st_fail s then (buf, s)
      else case st_file s of
        None \<Rightarrow> (buf, s\<lparr>st_fail := True\<rparr>)
      | Some f \<Rightarrow>
          let ws = drop (st_pos s) (content files f); k = min n (length ws)
          in (map of_bits (take k ws) @ drop k buf, s\<lparr>st_pos := st_pos s + k, st_fail := k < n\<rparr>))"

definition stream_write ::
  "('d \<Rightarrow> 32 word) \<Rightarrow> 'd list \<Rightarrow> file_system \<Rightarrow> stream \<Rightarrow> file_system \<times> stream" where
  "stream_write to_bits buf files s =
     (if st_fail s then (files, s)
      else case st_file s of
        None \<Rightarrow> (files, s\<lparr>st_fail := True\<rparr>)
      | Some f \<Rightarrow>
          let ws = content files f; p = st_pos s
          in (files(f \<mapsto> take p ws @ replicate (p - length ws) 0 @ map to_bits buf
                 @ drop (p + length buf) ws), s\<lparr>st_pos := p + length buf\<rparr>))"

record 'd SyncIO =
  sio_fn :: string
  sio_data :: "'d list option"
  sio_orientation :: mat_orient_t
  sio_dim :: "nat \<times> nat"
  sio_fs :: stream

definition SyncIO_new :: "'d SyncIO" where
  "SyncIO_new = \<lparr>sio_fn = '''', sio_data = None, sio_orientation = INVALID, sio_dim = (0, 0),
     sio_fs = stream_new\<rparr>"

definition SyncIO_of_fn :: "string \<Rightarrow> 'd SyncIO" where
  "SyncIO_of_fn f = SyncIO_new\<lparr>sio_fn := f\<rparr>"

definition sio_open :: "file_system \<Rightarrow> 'd SyncIO \<Rightarrow> 'd SyncIO result" where
  "sio_open files s =
     (let fs = stream_open files (sio_fn s) (sio_fs s)
      in if st_file fs = None then Inl (open_failure (sio_fn s)) else Inr (s\<lparr>sio_fs := fs\<rparr>))"

definition sio_set_fn :: "file_system \<Rightarrow> string \<Rightarrow> 'd SyncIO \<Rightarrow> 'd SyncIO result" where
  "sio_set_fn files f s = sio_open files (s\<lparr>sio_fn := f\<rparr>)"

definition sio_set_orientation :: "mat_orient_t \<Rightarrow> 'd SyncIO \<Rightarrow> 'd SyncIO" where
  "sio_set_orientation orient s = s\<lparr>sio_orientation := orient\<rparr>"

definition sio_shape :: "nat \<times> nat \<Rightarrow> 'd SyncIO \<Rightarrow> 'd SyncIO" where
  "sio_shape dim s = s\<lparr>sio_dim := dim\<rparr>"

definition SyncIO_of ::
  "file_system \<Rightarrow> string \<Rightarrow> nat \<times> nat \<Rightarrow> mat_orient_t \<Rightarrow> 'd SyncIO result" where
  "SyncIO_of files f dim orient =
     sio_set_fn files f (SyncIO_new\<lparr>sio_dim := dim, sio_orientation := orient\<rparr>)"

text \<open>\<^verbatim>\<open>read\<close> fills the caller's array; \<open>size\<close> is the size of the file in words.\<close>

definition sio_read ::
  "file_system \<Rightarrow> (32 word \<Rightarrow> 'd) \<Rightarrow> 'd list \<Rightarrow> 'd SyncIO \<Rightarrow> ('d list \<times> 'd SyncIO) result" where
  "sio_read files of_bits buf s =
     bindE (if st_file (sio_fs s) = None then sio_open files s else Inr s) (\<lambda>s.
     let size = unat (get_file_size files (sio_fn s)) div 4;
         (buf', fs) = stream_read files of_bits size buf (sio_fs s)
     in if length buf' = length buf then Inr (buf', s\<lparr>sio_fs := fs\<rparr>) else Inl undefined_behaviour)"

definition sio_write ::
  "('d \<Rightarrow> 32 word) \<Rightarrow> 'd list \<Rightarrow> file_system \<times> 'd SyncIO \<Rightarrow> file_system \<times> 'd SyncIO" where
  "sio_write to_bits buf = (\<lambda>(files, s).
     let (files, fs) = stream_write to_bits buf files (sio_fs s) in (files, s\<lparr>sio_fs := fs\<rparr>))"

definition sio_write_at ::
  "('d \<Rightarrow> 32 word) \<Rightarrow> 'd list \<Rightarrow> nat \<Rightarrow> file_system \<times> 'd SyncIO \<Rightarrow> file_system \<times> 'd SyncIO" where
  "sio_write_at to_bits buf offset = (\<lambda>(files, s).
     sio_write to_bits buf (files, s\<lparr>sio_fs := stream_seek offset (sio_fs s)\<rparr>))"

definition sio_append ::
  "('d \<Rightarrow> 32 word) \<Rightarrow> 'd list \<Rightarrow> nat \<Rightarrow> file_system \<times> 'd SyncIO \<Rightarrow> file_system \<times> 'd SyncIO" where
  "sio_append to_bits buf nelem st = sio_write to_bits (take nelem buf) st"

text \<open>One value at a time, from the places \<open>f i\<close>, into a new array.\<close>

fun stream_gather ::
  "file_system \<Rightarrow> (32 word \<Rightarrow> 'd) \<Rightarrow> 'd \<Rightarrow> (nat \<Rightarrow> nat) \<Rightarrow> nat \<Rightarrow> nat \<Rightarrow> stream \<Rightarrow> 'd list \<times> stream" where
  "stream_gather files of_bits g f i 0 s = ([], s)"
| "stream_gather files of_bits g f i (Suc n) s =
     (let (x, s) = stream_read files of_bits 1 [g] (stream_seek (f i) s);
          (xs, s) = stream_gather files of_bits g f (i + 1) n s
      in (x @ xs, s))"

definition sio_get_col ::
  "file_system \<Rightarrow> (32 word \<Rightarrow> 'd) \<Rightarrow> 'd \<Rightarrow> nat \<Rightarrow> 'd SyncIO \<Rightarrow> ('d list \<times> 'd SyncIO) result" where
  "sio_get_col files of_bits g offset s =
     bindE (guardE (st_file (sio_fs s) \<noteq> None) assert_failure) (\<lambda>_.
     let (nrow, ncol) = sio_dim s in
     case sio_orientation s of
       COL \<Rightarrow>
         (let fs = stream_seek (offset * nrow) (sio_fs s);
              data = (case sio_data s of None \<Rightarrow> replicate nrow g | Some data \<Rightarrow> data);
              (data', fs) = stream_read files of_bits nrow data fs
          in if length data' = length data
             then Inr (data', s\<lparr>sio_data := Some data', sio_fs := fs\<rparr>)
             else Inl undefined_behaviour)
     | ROW \<Rightarrow>
         (let (tmp, fs) = stream_gather files of_bits g (\<lambda>row. row * ncol + offset) 0 nrow (sio_fs s)
          in Inr (tmp, s\<lparr>sio_fs := fs\<rparr>))
     | _ \<Rightarrow> Inl not_implemented_exception)"

definition sio_get_row ::
  "file_system \<Rightarrow> (32 word \<Rightarrow> 'd) \<Rightarrow> 'd \<Rightarrow> nat \<Rightarrow> 'd SyncIO \<Rightarrow> ('d list \<times> 'd SyncIO) result" where
  "sio_get_row files of_bits g offset s =
     bindE (guardE (st_file (sio_fs s) \<noteq> None) assert_failure) (\<lambda>_.
     let (nrow, ncol) = sio_dim s in
     case sio_orientation s of
       ROW \<Rightarrow>
         (let (tmp, fs) = stream_read files of_bits ncol (replicate ncol g)
                (stream_seek (offset * ncol) (sio_fs s))
          in Inr (tmp, s\<lparr>sio_fs := fs\<rparr>))
     | COL \<Rightarrow>
         (let (tmp, fs) = stream_gather files of_bits g (\<lambda>col. col * nrow + offset) 0 ncol (sio_fs s)
          in Inr (tmp, s\<lparr>sio_fs := fs\<rparr>))
     | _ \<Rightarrow> Inl not_implemented_exception)"

text \<open>
  \<^verbatim>\<open>destroy\<close> frees the array and keeps the pointer; \<open>freed\<close> says that this was
  done before, when a second call frees it again.
\<close>

definition sio_destroy :: "bool \<Rightarrow> 'd SyncIO \<Rightarrow> 'd SyncIO result" where
  "sio_destroy freed s =
     (if freed \<and> sio_data s \<noteq> None then Inl undefined_behaviour
      else Inr (if st_file (sio_fs s) \<noteq> None then s\<lparr>sio_fs := stream_close (sio_fs s)\<rparr> else s))"

section \<open>The factory\<close>

datatype 'd IO = Memory "'d MemoryIO" | Sync "'d SyncIO"

definition IOfactory_create :: "io_t \<Rightarrow> 'd MemoryIO option \<Rightarrow> 'd IO result" where
  "IOfactory_create t singleton =
     (case t of
        MEM \<Rightarrow> Inr (Memory (MemoryIO_create singleton))
      | SEM \<Rightarrow> Inl not_implemented_exception
      | SYNC \<Rightarrow> Inr (Sync SyncIO_new))"

text \<open>The virtual calls through an \<^verbatim>\<open>IO::raw_ptr\<close>; the base class throws what is not overridden.\<close>

definition io_get_row ::
  "file_system \<Rightarrow> (32 word \<Rightarrow> 'd) \<Rightarrow> 'd \<Rightarrow> nat \<Rightarrow> 'd IO \<Rightarrow> ('d list \<times> 'd IO) result" where
  "io_get_row files of_bits g i io =
     (case io of
        Memory m \<Rightarrow> bindE (mio_get_row i m) (\<lambda>buf. Inr (buf, Memory m))
      | Sync s \<Rightarrow> bindE (sio_get_row files of_bits g i s) (\<lambda>(buf, s). Inr (buf, Sync s)))"

definition io_get_col ::
  "file_system \<Rightarrow> (32 word \<Rightarrow> 'd) \<Rightarrow> 'd \<Rightarrow> nat \<Rightarrow> 'd IO \<Rightarrow> ('d list \<times> 'd IO) result" where
  "io_get_col files of_bits g j io =
     (case io of
        Memory m \<Rightarrow> bindE (mio_get_col j m) (\<lambda>buf. Inr (buf, Memory m))
      | Sync s \<Rightarrow> bindE (sio_get_col files of_bits g j s) (\<lambda>(buf, s). Inr (buf, Sync s)))"

definition io_transpose :: "'d \<Rightarrow> 'd IO \<Rightarrow> 'd IO result" where
  "io_transpose g io =
     (case io of
        Memory m \<Rightarrow> bindE (mio_transpose g m) (\<lambda>m. Inr (Memory m))
      | Sync s \<Rightarrow> Inl not_implemented_exception)"

definition io_write :: "('d \<Rightarrow> 32 word) \<Rightarrow> file_system \<Rightarrow> 'd IO \<Rightarrow> file_system result" where
  "io_write to_bits files io =
     (case io of Memory m \<Rightarrow> mio_write to_bits files m | Sync s \<Rightarrow> Inl not_implemented_exception)"

definition io_append ::
  "('d \<Rightarrow> 32 word) \<Rightarrow> 'd list \<Rightarrow> nat \<Rightarrow> file_system \<times> 'd IO \<Rightarrow> (file_system \<times> 'd IO) result" where
  "io_append to_bits buf nelem = (\<lambda>(files, io).
     case io of
       Memory m \<Rightarrow> Inl not_implemented_exception
     | Sync s \<Rightarrow> (let (files, s) = sio_append to_bits buf nelem (files, s) in Inr (files, Sync s)))"

definition io_set_fn :: "file_system \<Rightarrow> string \<Rightarrow> 'd IO \<Rightarrow> 'd IO result" where
  "io_set_fn files f io =
     (case io of
        Memory m \<Rightarrow> Inr (Memory (mio_set_fn f m))
      | Sync s \<Rightarrow> bindE (sio_set_fn files f s) (\<lambda>s. Inr (Sync s)))"

definition io_shape :: "nat \<times> nat \<Rightarrow> 'd IO \<Rightarrow> 'd IO" where
  "io_shape dim io = (case io of Memory m \<Rightarrow> Memory (mio_shape dim m) | Sync s \<Rightarrow> Sync (sio_shape dim s))"

definition io_set_orientation :: "mat_orient_t \<Rightarrow> 'd IO \<Rightarrow> 'd IO" where
  "io_set_orientation orient io =
     (case io of
        Memory m \<Rightarrow> Memory (mio_set_orientation orient m)
      | Sync s \<Rightarrow> Sync (sio_set_orientation orient s))"

section \<open>The interface of a matrix\<close>

text \<open>
  What the tree programs use of an \<^verbatim>\<open>IO\<close> object: \<^verbatim>\<open>get_row\<close> and \<^verbatim>\<open>get_col\<close>
  of an index in range return at least a whole row or column, and keep the matrix. A client
  calls them one after the other, here with \<open>read_seq\<close>.
\<close>

fun read_seq :: "(nat \<Rightarrow> 's \<Rightarrow> ('d list \<times> 's) result) \<Rightarrow> nat list \<Rightarrow> 's \<Rightarrow> ('d list list \<times> 's) result" where
  "read_seq get [] s = Inr ([], s)"
| "read_seq get (i # is) s =
     bindE (get i s) (\<lambda>(buf, s'). bindE (read_seq get is s') (\<lambda>(bufs, s''). Inr (buf # bufs, s'')))"

locale matrix_io =
  fixes get_row get_col :: "nat \<Rightarrow> 's \<Rightarrow> ('d list \<times> 's) result"
    and inv :: "'s \<Rightarrow> bool"
    and dims :: "'s \<Rightarrow> nat \<times> nat"
    and entry :: "'s \<Rightarrow> nat \<Rightarrow> nat \<Rightarrow> 'd"
  assumes get_row_law: "inv s \<Longrightarrow> i < fst (dims s) \<Longrightarrow>
      \<exists>buf s'. get_row i s = Inr (buf, s') \<and> inv s' \<and> dims s' = dims s \<and> entry s' = entry s
        \<and> take (snd (dims s)) buf = map (entry s i) [0..<snd (dims s)]"
    and get_col_law: "inv s \<Longrightarrow> j < snd (dims s) \<Longrightarrow>
      \<exists>buf s'. get_col j s = Inr (buf, s') \<and> inv s' \<and> dims s' = dims s \<and> entry s' = entry s
        \<and> take (fst (dims s)) buf = map (\<lambda>i. entry s i j) [0..<fst (dims s)]"
begin

lemma read_rows_ok:
  assumes "inv s" "\<forall>i\<in>set is. i < fst (dims s)"
  shows "\<exists>bufs s'. read_seq get_row is s = Inr (bufs, s') \<and> inv s' \<and> dims s' = dims s \<and> entry s' = entry s
    \<and> map (take (snd (dims s))) bufs = map (\<lambda>i. map (entry s i) [0..<snd (dims s)]) is"
  using assms
proof (induction "is" arbitrary: s)
  case (Cons i "is")
  from Cons.prems get_row_law [of s i] obtain buf s' where 1: "get_row i s = Inr (buf, s')" "inv s'"
    "dims s' = dims s" "entry s' = entry s"
    "take (snd (dims s)) buf = map (entry s i) [0..<snd (dims s)]" by auto
  with Cons.IH [of s'] Cons.prems show ?case by fastforce
qed simp

lemma read_cols_ok:
  assumes "inv s" "\<forall>j\<in>set js. j < snd (dims s)"
  shows "\<exists>bufs s'. read_seq get_col js s = Inr (bufs, s') \<and> inv s' \<and> dims s' = dims s \<and> entry s' = entry s
    \<and> map (take (fst (dims s))) bufs = map (\<lambda>j. map (\<lambda>i. entry s i j) [0..<fst (dims s)]) js"
  using assms
proof (induction js arbitrary: s)
  case (Cons j js)
  from Cons.prems get_col_law [of s j] obtain buf s' where 1: "get_col j s = Inr (buf, s')" "inv s'"
    "dims s' = dims s" "entry s' = entry s"
    "take (fst (dims s)) buf = map (\<lambda>i. entry s i j) [0..<fst (dims s)]" by auto
  with Cons.IH [of s'] Cons.prems show ?case by fastforce
qed simp

end

subsection \<open>The matrix that a layout stores\<close>

definition place :: "mat_orient_t \<Rightarrow> nat \<times> nat \<Rightarrow> nat \<Rightarrow> nat \<Rightarrow> nat" where
  "place orient dim i j = (if orient = ROW then i * snd dim + j else j * fst dim + i)"

lemma mat_index_less: "i < (r::nat) \<Longrightarrow> j < c \<Longrightarrow> i * c + j < r * c"
  using mult_le_mono1 [of "Suc i" r c] by simp

lemma place_less:
  "i < fst dim \<Longrightarrow> j < snd dim \<Longrightarrow> place orient dim i j < fst dim * snd dim"
  using mat_index_less [of i "fst dim" j "snd dim"] mat_index_less [of j "snd dim" i "fst dim"]
  by (simp add: place_def mult.commute)

definition mio_ok :: "'d MemoryIO \<Rightarrow> bool" where
  "mio_ok m \<longleftrightarrow> mio_orientation m \<in> {ROW, COL}
     \<and> (case mio_data m of None \<Rightarrow> False | Some data \<Rightarrow> length data = fst (mio_dim m) * snd (mio_dim m))"

definition mio_entry :: "'d MemoryIO \<Rightarrow> nat \<Rightarrow> nat \<Rightarrow> 'd" where
  "mio_entry m i j = the (mio_data m) ! place (mio_orientation m) (mio_dim m) i j"

lemma mio_okE:
  assumes "mio_ok m"
  obtains data where "mio_data m = Some data" "length data = fst (mio_dim m) * snd (mio_dim m)"
    "mio_orientation m = ROW \<or> mio_orientation m = COL"
  using assms by (auto simp: mio_ok_def split: option.splits)

lemma gather_ok:
  assumes "\<And>i. i < n \<Longrightarrow> f (k + i) < length data"
  shows "gather data f k n = Inr (map (\<lambda>i. data ! f (k + i)) [0..<n])"
  using assms
proof (induction n arbitrary: k)
  case (Suc n)
  from Suc.prems [of 0] have "read_at data (f k) = Inr (data ! f k)" by simp
  moreover have "gather data f (k + 1) n = Inr (map (\<lambda>i. data ! f (k + 1 + i)) [0..<n])"
    using Suc.prems [of "Suc i" for i] by (intro Suc.IH) simp
  moreover have "[0..<Suc n] = 0 # map Suc [0..<n]"
    by (simp add: upt_conv_Cons map_Suc_upt del: upt_Suc)
  ultimately show ?case by (simp del: upt_Suc)
qed simp

lemma take_drop_map_nth:
  "a + n \<le> length xs \<Longrightarrow> take n (drop a xs) = map (\<lambda>j. xs ! (a + j)) [0..<n]"
  by (rule nth_equalityI) auto

lemma mio_get_row_ok:
  assumes "mio_ok m" "i < fst (mio_dim m)"
  obtains buf where "mio_get_row i m = Inr buf"
    "take (snd (mio_dim m)) buf = map (mio_entry m i) [0..<snd (mio_dim m)]"
proof -
  obtain r c where d: "mio_dim m = (r, c)" by (cases "mio_dim m")
  from assms(1) obtain data where 1: "mio_data m = Some data" "length data = r * c"
    "mio_orientation m = ROW \<or> mio_orientation m = COL" by (rule mio_okE) (simp add: d)
  have "i * c + c \<le> length data"
    using assms(2) mult_le_mono1 [of "Suc i" r c] by (simp add: 1 d)
  then show ?thesis
    using that 1 assms(2) mat_index_less [of _ c i r]
    by (auto simp: mio_get_row_def data_of_def pointer_to_def d mio_entry_def place_def
        take_drop_map_nth gather_ok mult.commute)
qed

lemma mio_get_col_ok:
  assumes "mio_ok m" "j < snd (mio_dim m)"
  obtains buf where "mio_get_col j m = Inr buf"
    "take (fst (mio_dim m)) buf = map (\<lambda>i. mio_entry m i j) [0..<fst (mio_dim m)]"
proof -
  obtain r c where d: "mio_dim m = (r, c)" by (cases "mio_dim m")
  from assms(1) obtain data where 1: "mio_data m = Some data" "length data = r * c"
    "mio_orientation m = ROW \<or> mio_orientation m = COL" by (rule mio_okE) (simp add: d)
  have "j * r + r \<le> length data"
    using assms(2) mult_le_mono1 [of "Suc j" c r] by (simp add: 1 d mult.commute)
  then show ?thesis
    using that 1 assms(2) mat_index_less [of _ r j c]
    by (auto simp: mio_get_col_def data_of_def pointer_to_def d mio_entry_def place_def
        take_drop_map_nth gather_ok)
qed

abbreviation mem_get_row :: "nat \<Rightarrow> 'd MemoryIO \<Rightarrow> ('d list \<times> 'd MemoryIO) result" where
  "mem_get_row i m \<equiv> bindE (mio_get_row i m) (\<lambda>buf. Inr (buf, m))"

abbreviation mem_get_col :: "nat \<Rightarrow> 'd MemoryIO \<Rightarrow> ('d list \<times> 'd MemoryIO) result" where
  "mem_get_col j m \<equiv> bindE (mio_get_col j m) (\<lambda>buf. Inr (buf, m))"

interpretation mem: matrix_io mem_get_row mem_get_col
    mio_ok mio_dim mio_entry
proof
  fix m :: "'d MemoryIO" and i
  assume "mio_ok m" "i < fst (mio_dim m)"
  then obtain buf where "mio_get_row i m = Inr buf"
    "take (snd (mio_dim m)) buf = map (mio_entry m i) [0..<snd (mio_dim m)]" by (rule mio_get_row_ok)
  with \<open>mio_ok m\<close> show "\<exists>buf s'. mem_get_row i m = Inr (buf, s') \<and> mio_ok s' \<and> mio_dim s' = mio_dim m
    \<and> mio_entry s' = mio_entry m \<and> take (snd (mio_dim m)) buf = map (mio_entry m i) [0..<snd (mio_dim m)]"
    by auto
next
  fix m :: "'d MemoryIO" and j
  assume "mio_ok m" "j < snd (mio_dim m)"
  then obtain buf where "mio_get_col j m = Inr buf"
    "take (fst (mio_dim m)) buf = map (\<lambda>i. mio_entry m i j) [0..<fst (mio_dim m)]" by (rule mio_get_col_ok)
  with \<open>mio_ok m\<close> show "\<exists>buf s'. mem_get_col j m = Inr (buf, s') \<and> mio_ok s' \<and> mio_dim s' = mio_dim m
    \<and> mio_entry s' = mio_entry m
    \<and> take (fst (mio_dim m)) buf = map (\<lambda>i. mio_entry m i j) [0..<fst (mio_dim m)]"
    by auto
qed

subsection \<open>The matrix that a file stores\<close>

definition sio_ok :: "file_system \<Rightarrow> 'd SyncIO \<Rightarrow> bool" where
  "sio_ok files s \<longleftrightarrow> sio_orientation s \<in> {ROW, COL} \<and> \<not> st_fail (sio_fs s)
     \<and> (case st_file (sio_fs s) of None \<Rightarrow> False
        | Some f \<Rightarrow> fst (sio_dim s) * snd (sio_dim s) \<le> length (content files f))
     \<and> (case sio_data s of None \<Rightarrow> True | Some data \<Rightarrow> length data = fst (sio_dim s))"

definition sio_entry :: "file_system \<Rightarrow> (32 word \<Rightarrow> 'd) \<Rightarrow> 'd SyncIO \<Rightarrow> nat \<Rightarrow> nat \<Rightarrow> 'd" where
  "sio_entry files of_bits s i j =
     of_bits (content files (the (st_file (sio_fs s))) ! place (sio_orientation s) (sio_dim s) i j)"

lemma sio_okE:
  assumes "sio_ok files s"
  obtains f where "st_file (sio_fs s) = Some f" "\<not> st_fail (sio_fs s)"
    "fst (sio_dim s) * snd (sio_dim s) \<le> length (content files f)"
    "sio_orientation s = ROW \<or> sio_orientation s = COL"
    "\<And>data. sio_data s = Some data \<Longrightarrow> length data = fst (sio_dim s)"
  using assms by (auto simp: sio_ok_def split: option.splits)

lemma stream_read_seek:
  assumes "st_file s = Some f" "\<not> st_fail s" "p + n \<le> length (content files f)" "length buf = n"
  obtains s' where "stream_read files of_bits n buf (stream_seek p s)
      = (map (\<lambda>i. of_bits (content files f ! (p + i))) [0..<n], s')"
    "st_file s' = Some f" "\<not> st_fail s'"
proof -
  have "map of_bits (take n (drop p (content files f)))
      = map (\<lambda>i. of_bits (content files f ! (p + i))) [0..<n]"
    using assms(3) by (simp add: take_drop_map_nth)
  with assms show ?thesis
    using that by (auto simp: stream_read_def stream_seek_def Let_def)
qed

lemma stream_gather_ok:
  assumes "st_file s = Some f" "\<not> st_fail s" "\<And>i. i < n \<Longrightarrow> p (k + i) < length (content files f)"
  shows "\<exists>s'. stream_gather files of_bits g p k n s
      = (map (\<lambda>i. of_bits (content files f ! p (k + i))) [0..<n], s')
    \<and> st_file s' = Some f \<and> \<not> st_fail s'"
  using assms
proof (induction n arbitrary: k s)
  case (Suc n)
  have "p k + 1 \<le> length (content files f)" using Suc.prems(3) [of 0] by simp
  from stream_read_seek [OF Suc.prems(1,2) this, of "[g]" of_bits] obtain s1
    where 1: "stream_read files of_bits 1 [g] (stream_seek (p k) s) = ([of_bits (content files f ! p k)], s1)"
      "st_file s1 = Some f" "\<not> st_fail s1" by auto
  have "\<And>i. i < n \<Longrightarrow> p (k + 1 + i) < length (content files f)"
    using Suc.prems(3) [of "Suc i" for i] by simp
  from Suc.IH [OF 1(2,3) this] obtain s2
    where "stream_gather files of_bits g p (k + 1) n s1
        = (map (\<lambda>i. of_bits (content files f ! p (k + 1 + i))) [0..<n], s2)"
      "st_file s2 = Some f" "\<not> st_fail s2" by blast
  moreover have "[0..<Suc n] = 0 # map Suc [0..<n]"
    by (simp add: upt_conv_Cons map_Suc_upt del: upt_Suc)
  ultimately show ?case using 1 by (simp add: Let_def del: upt_Suc)
qed simp

lemma sio_get_row_ok:
  assumes ok: "sio_ok files s" and i: "i < fst (sio_dim s)"
  shows "\<exists>buf s'. sio_get_row files of_bits g i s = Inr (buf, s') \<and> sio_ok files s'
    \<and> sio_dim s' = sio_dim s \<and> sio_entry files of_bits s' = sio_entry files of_bits s
    \<and> take (snd (sio_dim s)) buf = map (sio_entry files of_bits s i) [0..<snd (sio_dim s)]"
proof -
  obtain r c where d: "sio_dim s = (r, c)" by (cases "sio_dim s")
  from ok obtain f where f: "st_file (sio_fs s) = Some f" "\<not> st_fail (sio_fs s)"
    "r * c \<le> length (content files f)" "sio_orientation s = ROW \<or> sio_orientation s = COL"
    "\<And>data. sio_data s = Some data \<Longrightarrow> length data = r"
    by (rule sio_okE) (simp add: d)
  have le: "i * c + c \<le> length (content files f)"
    using i f(3) mult_le_mono1 [of "Suc i" r c] by (simp add: d)
  have lt: "j * r + i < length (content files f)" if "j < c" for j
    using mat_index_less [OF that, of i r] i f(3) by (simp add: d mult.commute)
  from f(4) show ?thesis
  proof
    assume o: "sio_orientation s = ROW"
    obtain s' where "stream_read files of_bits c (replicate c g) (stream_seek (i * c) (sio_fs s))
      = (map (\<lambda>j. of_bits (content files f ! (i * c + j))) [0..<c], s')" "st_file s' = Some f" "\<not> st_fail s'"
      by (rule stream_read_seek [OF f(1,2) le, of "replicate c g" of_bits]) auto
    with o f ok show ?thesis
      by (auto simp: sio_get_row_def d sio_ok_def sio_entry_def place_def fun_eq_iff split: option.splits)
  next
    assume o: "sio_orientation s = COL"
    obtain s' where "stream_gather files of_bits g (\<lambda>col. col * r + i) 0 c (sio_fs s)
      = (map (\<lambda>j. of_bits (content files f ! (j * r + i))) [0..<c], s')" "st_file s' = Some f" "\<not> st_fail s'"
      using stream_gather_ok [OF f(1,2), where p = "\<lambda>col. col * r + i" and k = 0 and n = c
          and files = files and of_bits = of_bits and g = g] lt by auto
    with o f ok show ?thesis
      by (auto simp: sio_get_row_def d sio_ok_def sio_entry_def place_def fun_eq_iff split: option.splits)
  qed
qed

lemma sio_get_col_ok:
  assumes ok: "sio_ok files s" and j: "j < snd (sio_dim s)"
  shows "\<exists>buf s'. sio_get_col files of_bits g j s = Inr (buf, s') \<and> sio_ok files s'
    \<and> sio_dim s' = sio_dim s \<and> sio_entry files of_bits s' = sio_entry files of_bits s
    \<and> take (fst (sio_dim s)) buf = map (\<lambda>i. sio_entry files of_bits s i j) [0..<fst (sio_dim s)]"
proof -
  obtain r c where d: "sio_dim s = (r, c)" by (cases "sio_dim s")
  from ok obtain f where f: "st_file (sio_fs s) = Some f" "\<not> st_fail (sio_fs s)"
    "r * c \<le> length (content files f)" "sio_orientation s = ROW \<or> sio_orientation s = COL"
    "\<And>data. sio_data s = Some data \<Longrightarrow> length data = r"
    by (rule sio_okE) (simp add: d)
  have le: "j * r + r \<le> length (content files f)"
    using j f(3) mult_le_mono1 [of "Suc j" c r] by (simp add: d mult.commute)
  have lt: "i * c + j < length (content files f)" if "i < r" for i
    using mat_index_less [OF that, of j c] j f(3) by (simp add: d)
  define data where "data = (case sio_data s of None \<Rightarrow> replicate r g | Some data \<Rightarrow> data)"
  have len: "length data = r" using f(5) by (auto simp: data_def split: option.splits)
  from f(4) show ?thesis
  proof
    assume o: "sio_orientation s = ROW"
    obtain s' where "stream_gather files of_bits g (\<lambda>row. row * c + j) 0 r (sio_fs s)
      = (map (\<lambda>i. of_bits (content files f ! (i * c + j))) [0..<r], s')" "st_file s' = Some f" "\<not> st_fail s'"
      using stream_gather_ok [OF f(1,2), where p = "\<lambda>row. row * c + j" and k = 0 and n = r
          and files = files and of_bits = of_bits and g = g] lt by auto
    with o f ok show ?thesis
      by (auto simp: sio_get_col_def d sio_ok_def sio_entry_def place_def fun_eq_iff split: option.splits)
  next
    assume o: "sio_orientation s = COL"
    obtain s' where "stream_read files of_bits r data (stream_seek (j * r) (sio_fs s))
      = (map (\<lambda>i. of_bits (content files f ! (j * r + i))) [0..<r], s')" "st_file s' = Some f" "\<not> st_fail s'"
      by (rule stream_read_seek [OF f(1,2) le len])
    with o f(1-4) ok len show ?thesis
      by (auto simp: sio_get_col_def d sio_ok_def sio_entry_def place_def fun_eq_iff data_def [symmetric])
  qed
qed

interpretation sync: matrix_io "sio_get_row files of_bits g" "sio_get_col files of_bits g"
    "sio_ok files" sio_dim "sio_entry files of_bits" for files of_bits g
  by unfold_locales (rule sio_get_row_ok sio_get_col_ok; assumption)+

section \<open>What the operations do\<close>

subsection \<open>Transposition\<close>

lemma foldl_update_length: "length (foldl (\<lambda>t j. t[p j := v j]) t js) = length t"
  by (induction js arbitrary: t) simp_all

lemma foldl_update_nth:
  assumes "inj_on p (set js)" "\<forall>j\<in>set js. p j < length t" "j \<in> set js"
  shows "foldl (\<lambda>t j. t[p j := v j]) t js ! p j = v j"
  using assms
proof (induction js rule: rev_induct)
  case (snoc k js)
  then show ?case
    by (cases "j = k")
      (auto simp: foldl_update_length nth_list_update inj_on_def)
qed simp

lemma foldl_product:
  "foldl (\<lambda>s a. foldl (\<lambda>s b. f s (a, b)) s ys) s xs = foldl f s (List.product xs ys)"
proof (induction xs arbitrary: s)
  case (Cons x xs)
  have "foldl (\<lambda>s b. f s (x, b)) s ys = foldl f s (map (Pair x) ys)" for s
    by (induction ys arbitrary: s) simp_all
  with Cons show ?case by simp
qed simp

lemma transpose_loop_product:
  "transpose_loop nrow ncol data tmp =
     foldl (\<lambda>t (row, col). t[col * nrow + row := data ! (row * ncol + col)]) tmp
       (List.product [0..<nrow] [0..<ncol])"
  using foldl_product [where f = "\<lambda>t (row, col). t[col * nrow + row := data ! (row * ncol + col)]"
      and xs = "[0..<nrow]" and ys = "[0..<ncol]"]
  by (simp add: transpose_loop_def)

lemma mat_index_inj:
  assumes "col * nrow + row = col' * nrow + (row'::nat)" "row < nrow" "row' < nrow"
  shows "row = row' \<and> col = col'"
proof -
  have "(col * nrow + row) mod nrow = row" "(col' * nrow + row') mod nrow = row'"
    using assms(2,3) by simp_all
  moreover have "(col * nrow + row) div nrow = col" "(col' * nrow + row') div nrow = col'"
    using assms(2,3) by simp_all
  ultimately show ?thesis using assms(1) by metis
qed

lemma transpose_loop_length: "length (transpose_loop nrow ncol data tmp) = length tmp"
  using foldl_update_length [where p = "\<lambda>(row, col). col * nrow + row"
      and v = "\<lambda>(row, col). data ! (row * ncol + col)" and t = tmp]
  by (simp add: transpose_loop_product case_prod_unfold)

lemma transpose_loop_nth:
  assumes "length tmp = nrow * ncol" "row < nrow" "col < ncol"
  shows "transpose_loop nrow ncol data tmp ! (col * nrow + row) = data ! (row * ncol + col)"
proof -
  let ?p = "\<lambda>(row, col). col * nrow + row" and ?js = "List.product [0..<nrow] [0..<ncol]"
  have "inj_on ?p (set ?js)"
    by (auto simp: inj_on_def dest: mat_index_inj)
  moreover have "\<forall>j\<in>set ?js. ?p j < length tmp"
    using mat_index_less [of _ ncol _ nrow] by (auto simp: assms(1) mult.commute)
  moreover have "(row, col) \<in> set ?js" using assms(2,3) by simp
  ultimately show ?thesis
    using foldl_update_nth [of ?p ?js tmp "(row, col)" "\<lambda>(row, col). data ! (row * ncol + col)"]
    by (simp add: transpose_loop_product case_prod_unfold)
qed

lemma mat_index_ex:
  assumes "k < r * (c::nat)"
  obtains i j where "k = i * c + j" "i < r" "j < c"
proof
  from assms have "0 < c" by (cases c) simp_all
  then show "k mod c < c" by simp
  show "k = k div c * c + k mod c" by simp
  show "k div c < r" using assms by (simp add: less_mult_imp_div_less)
qed

lemma transpose_loop_twice:
  assumes "length data = r * c" "length t = r * c" "length t' = r * c"
  shows "transpose_loop c r (transpose_loop r c data t) t' = data"
proof (rule nth_equalityI)
  fix k assume "k < length (transpose_loop c r (transpose_loop r c data t) t')"
  then obtain i j where k: "k = i * c + j" "i < r" "j < c"
    using mat_index_ex [of k r c] assms(3) by (auto simp: transpose_loop_length)
  then show "transpose_loop c r (transpose_loop r c data t) t' ! k = data ! k"
    using assms by (simp add: transpose_loop_nth mult.commute [of c r])
qed (simp add: transpose_loop_length assms)

lemma mio_transpose_ok:
  assumes "mio_ok m" "mio_dim m = (r, c)"
  shows "mio_transpose g m = Inr (m\<lparr>mio_data := Some (transpose_loop r c (the (mio_data m)) (replicate (r * c) g)),
      mio_dim := (c, r), mio_orientation := (if mio_orientation m = ROW then COL else ROW)\<rparr>)"
  using assms by (auto simp: mio_transpose_def elim: mio_okE)

subsection \<open>Files\<close>

text \<open>The \<^verbatim>\<open>fvecs\<close> format: every row is preceded by its length.\<close>

definition fvecs_file :: "('d \<Rightarrow> 32 word) \<Rightarrow> nat \<Rightarrow> 'd list list \<Rightarrow> 32 word list" where
  "fvecs_file to_bits ncol rows = concat (map (\<lambda>row. word_of_nat ncol # map to_bits row) rows)"

lemma fvecs_read_file:
  assumes "\<forall>x. of_bits (to_bits x) = x" "\<forall>row\<in>set rows. length row = ncol"
  shows "fvecs_read of_bits g (length rows) ncol g_dim (fvecs_file to_bits ncol rows) = Inr (concat rows)"
  using assms(2)
proof (induction rows arbitrary: g_dim)
  case (Cons row rows)
  then have "read_vals of_bits g ncol (map to_bits row @ ws) = row" for ws
    using assms(1) by (simp add: read_vals_def map_idI)
  with Cons show ?case by (simp add: fvecs_file_def)
qed (simp add: fvecs_file_def)

lemma mio_write_ok:
  assumes "mio_ok m" "mio_fn m \<noteq> ''''"
  shows "mio_write to_bits files m = Inr (files(mio_fn m \<mapsto> map to_bits (the (mio_data m))))"
  using assms by (auto simp: mio_write_def elim: mio_okE)

lemma SyncIO_of_written:
  assumes "mio_ok m" "\<forall>x. of_bits (to_bits x) = x"
    and "files' = files(mio_fn m \<mapsto> map to_bits (the (mio_data m)))"
  shows "\<exists>s. SyncIO_of files' (mio_fn m) (mio_dim m) (mio_orientation m) = Inr s
    \<and> sio_ok files' s \<and> sio_dim s = mio_dim m
    \<and> (\<forall>i < fst (mio_dim m). \<forall>j < snd (mio_dim m). sio_entry files' of_bits s i j = mio_entry m i j)"
proof -
  from assms(1) obtain data where d: "mio_data m = Some data"
    "length data = fst (mio_dim m) * snd (mio_dim m)"
    "mio_orientation m = ROW \<or> mio_orientation m = COL" by (rule mio_okE)
  have nth: "of_bits (map to_bits data ! place (mio_orientation m) (mio_dim m) i j)
      = data ! place (mio_orientation m) (mio_dim m) i j"
    if "i < fst (mio_dim m)" "j < snd (mio_dim m)" for i j
    using place_less [OF that] assms(2) by (simp add: d)
  show ?thesis
    by (rule exI [of _ "SyncIO_new\<lparr>sio_fn := mio_fn m, sio_dim := mio_dim m,
        sio_orientation := mio_orientation m, sio_fs := \<lparr>st_file = Some (mio_fn m), st_pos = 0, st_fail = False\<rparr>\<rparr>"])
      (use d nth in \<open>auto simp: SyncIO_of_def sio_set_fn_def sio_open_def stream_open_def stream_new_def
        SyncIO_new_def file_exists_def assms(3) sio_ok_def content_def sio_entry_def mio_entry_def\<close>)
qed

lemma mem_read_same:
  "read_seq mem_get_row is m = Inr (rows, m') \<Longrightarrow> m' = m"
  "read_seq mem_get_col is m = Inr (rows, m') \<Longrightarrow> m' = m"
  by (induction "is" arbitrary: rows) (auto simp: res_simps)

lemma mem_read_rows:
  assumes "mio_ok m" "\<forall>i\<in>set is. i < fst (mio_dim m)"
  shows "\<exists>rows. read_seq mem_get_row is m = Inr (rows, m)
    \<and> map (take (snd (mio_dim m))) rows = map (\<lambda>i. map (mio_entry m i) [0..<snd (mio_dim m)]) is"
proof -
  from mem.read_rows_ok [OF assms] obtain rows m' where "read_seq mem_get_row is m = Inr (rows, m')"
    "map (take (snd (mio_dim m))) rows = map (\<lambda>i. map (mio_entry m i) [0..<snd (mio_dim m)]) is" by blast
  with mem_read_same(1) [OF this(1)] show ?thesis by simp
qed

lemma mem_read_cols:
  assumes "mio_ok m" "\<forall>j\<in>set js. j < snd (mio_dim m)"
  shows "\<exists>cols. read_seq mem_get_col js m = Inr (cols, m)
    \<and> map (take (fst (mio_dim m))) cols = map (\<lambda>j. map (\<lambda>i. mio_entry m i j) [0..<fst (mio_dim m)]) js"
proof -
  from mem.read_cols_ok [OF assms] obtain cols m' where "read_seq mem_get_col js m = Inr (cols, m')"
    "map (take (fst (mio_dim m))) cols = map (\<lambda>j. map (\<lambda>i. mio_entry m i j) [0..<fst (mio_dim m)]) js" by blast
  with mem_read_same(2) [OF this(1)] show ?thesis by simp
qed

section \<open>Properties\<close>

text \<open>
  C10. A matrix written to its file by \<^verbatim>\<open>MemoryIO::write\<close> and opened as a \<^verbatim>\<open>SyncIO\<close>
  of the same shape and orientation gives the same rows and then the same columns, in any
  order and number of calls, as the object in memory.
\<close>

theorem SyncIO_reads_MemoryIO:
  assumes "mio_ok m" "mio_fn m \<noteq> ''''" "\<forall>x. of_bits (to_bits x) = x"
    and "\<forall>i\<in>set is. i < fst (mio_dim m)" "\<forall>j\<in>set js. j < snd (mio_dim m)"
  shows "\<exists>files' s s' s'' rows rows' cols cols'. mio_write to_bits files m = Inr files'
    \<and> SyncIO_of files' (mio_fn m) (mio_dim m) (mio_orientation m) = Inr s
    \<and> read_seq mem_get_row is m = Inr (rows, m) \<and> read_seq (sio_get_row files' of_bits g) is s = Inr (rows', s')
    \<and> read_seq mem_get_col js m = Inr (cols, m) \<and> read_seq (sio_get_col files' of_bits g) js s' = Inr (cols', s'')
    \<and> map (take (snd (mio_dim m))) rows' = map (take (snd (mio_dim m))) rows
    \<and> map (take (fst (mio_dim m))) cols' = map (take (fst (mio_dim m))) cols"
proof -
  let ?files = "files(mio_fn m \<mapsto> map to_bits (the (mio_data m)))"
  from SyncIO_of_written [OF assms(1,3) refl [of ?files]] obtain s where s: "SyncIO_of ?files (mio_fn m) (mio_dim m) (mio_orientation m) = Inr s"
    "sio_ok ?files s" "sio_dim s = mio_dim m"
    "\<And>i j. i < fst (mio_dim m) \<Longrightarrow> j < snd (mio_dim m) \<Longrightarrow> sio_entry ?files of_bits s i j = mio_entry m i j"
    by blast
  let ?r = "fst (mio_dim m)" and ?c = "snd (mio_dim m)"
  from mem_read_rows [OF assms(1,4)] obtain rows where
    r: "read_seq mem_get_row is m = Inr (rows, m)"
       "map (take ?c) rows = map (\<lambda>i. map (mio_entry m i) [0..<?c]) is" by blast
  from mem_read_cols [OF assms(1,5)] obtain cols where
    c: "read_seq mem_get_col js m = Inr (cols, m)"
       "map (take ?r) cols = map (\<lambda>j. map (\<lambda>i. mio_entry m i j) [0..<?r]) js" by blast
  have "\<forall>i\<in>set is. i < fst (sio_dim s)" using assms(4) s(3) by simp
  from sync.read_rows_ok [OF s(2) this, where of_bits = of_bits and g = g, unfolded s(3)] obtain rows' s' where
    r': "read_seq (sio_get_row ?files of_bits g) is s = Inr (rows', s')" "sio_ok ?files s'"
      "sio_dim s' = mio_dim m" "sio_entry ?files of_bits s' = sio_entry ?files of_bits s"
      "map (take ?c) rows' = map (\<lambda>i. map (sio_entry ?files of_bits s i) [0..<?c]) is" by blast
  have "\<forall>j\<in>set js. j < snd (sio_dim s')" using assms(5) r'(3) by simp
  from sync.read_cols_ok [OF r'(2) this, where of_bits = of_bits and g = g, unfolded r'(3,4)] obtain cols' s'' where
    c': "read_seq (sio_get_col ?files of_bits g) js s' = Inr (cols', s'')"
      "map (take ?r) cols' = map (\<lambda>j. map (\<lambda>i. sio_entry ?files of_bits s i j) [0..<?r]) js" by blast
  have "map (take ?c) rows' = map (take ?c) rows"
    unfolding r'(5) r(2) by (rule map_cong [OF refl]) (simp add: assms(4) s(4))
  moreover have "map (take ?r) cols' = map (take ?r) cols"
    unfolding c'(2) c(2) by (rule map_cong [OF refl]) (simp add: assms(5) s(4))
  ultimately show ?thesis
    using mio_write_ok [OF assms(1,2), of to_bits files] s(1) r(1) r'(1) c(1) c'(1) by blast
qed

theorem SyncIO_reads_MemoryIO_witness:
  "\<exists>files' s s' s'' rows rows' cols cols'.
      mio_write id Map.empty (MemoryIO_of [1, 2, 3, 4, 5, 6] (2, 3) ROW\<lparr>mio_fn := ''m''\<rparr>) = Inr files'
    \<and> SyncIO_of files' ''m'' (2, 3) ROW = Inr s
    \<and> read_seq mem_get_row [1, 0] (MemoryIO_of [1, 2, 3, 4, 5, 6] (2, 3) ROW\<lparr>mio_fn := ''m''\<rparr>)
        = Inr (rows, MemoryIO_of [1, 2, 3, 4, 5, 6] (2, 3) ROW\<lparr>mio_fn := ''m''\<rparr>)
    \<and> read_seq (sio_get_row files' id 0) [1, 0] s = Inr (rows', s')
    \<and> read_seq mem_get_col [2] (MemoryIO_of [1, 2, 3, 4, 5, 6] (2, 3) ROW\<lparr>mio_fn := ''m''\<rparr>)
        = Inr (cols, MemoryIO_of [1, 2, 3, 4, 5, 6] (2, 3) ROW\<lparr>mio_fn := ''m''\<rparr>)
    \<and> read_seq (sio_get_col files' id 0) [2] s' = Inr (cols', s'')
    \<and> map (take 3) rows' = map (take 3) rows \<and> map (take 2) cols' = map (take 2) cols"
  using SyncIO_reads_MemoryIO [of "MemoryIO_of [1, 2, 3, 4, 5, 6] (2, 3) ROW\<lparr>mio_fn := ''m''\<rparr>" id id
      "[1, 0]" "[2]" Map.empty 0]
  by (simp add: MemoryIO_of_def mio_ok_def)

text \<open>
  \<^verbatim>\<open>MemoryIO::transpose\<close> called twice restores the object: the data, the shape and
  the orientation.
\<close>

theorem MemoryIO_transpose_twice:
  assumes "mio_ok m"
  shows "bindE (mio_transpose g m) (mio_transpose g') = Inr m"
proof -
  obtain r c where d: "mio_dim m = (r, c)" by (cases "mio_dim m")
  from assms obtain data where 1: "mio_data m = Some data" "length data = r * c"
    "mio_orientation m = ROW \<or> mio_orientation m = COL" by (rule mio_okE) (simp add: d)
  let ?m = "m\<lparr>mio_data := Some (transpose_loop r c (the (mio_data m)) (replicate (r * c) g)),
      mio_dim := (c, r), mio_orientation := (if mio_orientation m = ROW then COL else ROW)\<rparr>"
  have "mio_ok ?m" using 1 by (simp add: mio_ok_def transpose_loop_length)
  then have "mio_transpose g' ?m = Inr m"
    using 1 by (subst mio_transpose_ok [where r = c and c = r])
      (auto simp: transpose_loop_twice d mult.commute [of c r])
  then show ?thesis by (simp only: mio_transpose_ok [OF assms d] bindE_simps)
qed

theorem MemoryIO_transpose_twice_witness:
  "bindE (mio_transpose 0 (MemoryIO_of [1, 2, 3, 4, 5, 6 :: int] (2, 3) ROW)) (mio_transpose 0)
     = Inr (MemoryIO_of [1, 2, 3, 4, 5, 6] (2, 3) ROW)"
  by (rule MemoryIO_transpose_twice) (simp add: mio_ok_def MemoryIO_of_def)

text \<open>
  C29. A file in the \<^verbatim>\<open>fvecs\<close> format is read back by \<^verbatim>\<open>from_file\<close> as the rows that
  were written, whatever the memory held before.
\<close>

theorem from_file_fvecs:
  assumes "mio_data m = None" "get_file_ext (mio_fn m) = ''fvecs''"
    and "files (mio_fn m) = Some (fvecs_file to_bits ncol rows)" "mio_dim m = (length rows, ncol)"
    and "\<forall>row\<in>set rows. length row = ncol" "\<forall>x. of_bits (to_bits x) = x"
  shows "from_file files of_bits g g_dim m
    = (Inr (), m\<lparr>mio_data := Some (concat rows), is_data_local := Some True\<rparr>)"
proof -
  from assms(2) have "mio_fn m \<noteq> ''''" by (auto simp: get_file_ext_def)
  with assms show ?thesis by (simp add: from_file_def fvecs_read_file)
qed

theorem from_file_fvecs_witness:
  "from_file [''a.fvecs'' \<mapsto> fvecs_file id 2 [[7, 8], [9, 10], [11, 12]]] id 0 0
     (MemoryIO_new\<lparr>mio_fn := ''a.fvecs'', mio_dim := (3, 2)\<rparr>)
   = (Inr (), MemoryIO_new\<lparr>mio_fn := ''a.fvecs'', mio_dim := (3, 2)\<rparr>
       \<lparr>mio_data := Some [7, 8, 9, 10, 11, 12], is_data_local := Some True\<rparr>)"
  using from_file_fvecs [of "MemoryIO_new\<lparr>mio_fn := ''a.fvecs'', mio_dim := (3, 2)\<rparr>"
      "[''a.fvecs'' \<mapsto> fvecs_file id 2 [[7, 8], [9, 10], [11, 12]]]" id 2
      "[[7, 8], [9, 10], [11, 12]]" id 0 0]
  by (simp add: MemoryIO_new_def get_file_ext_def)

text \<open>
  When the file cannot be opened, \<^verbatim>\<open>from_file\<close> throws, but it has already
  installed an array that nothing was written to: a second call, with whatever files are there
  by then, returns normally without reading anything and leaves the object with that array.
\<close>

theorem from_file_retry:
  assumes "mio_data m = None" "mio_fn m \<noteq> ''''" "files (mio_fn m) = None"
  shows "\<exists>m'. from_file files of_bits g g_dim m = (Inl (open_failure (mio_fn m)), m')
    \<and> (\<forall>files'. from_file files' of_bits g g_dim m' = (Inr (), m'))
    \<and> mio_data m' = Some (replicate (fst (mio_dim m) * snd (mio_dim m)) g)"
  using assms by (auto simp: from_file_def split: prod.splits)

theorem from_file_retry_witness:
  "\<exists>m'. from_file Map.empty id 0 0 (MemoryIO_new\<lparr>mio_fn := ''x.bin'', mio_dim := (1, 2)\<rparr>)
      = (Inl (open_failure ''x.bin''), m')
    \<and> (\<forall>files'. from_file files' id 0 0 m' = (Inr (), m')) \<and> mio_data m' = Some [0, 0]"
  using from_file_retry [of "MemoryIO_new\<lparr>mio_fn := ''x.bin'', mio_dim := (1, 2)\<rparr>" Map.empty id 0 0]
  by (simp add: MemoryIO_new_def numeral_2_eq_2)

text \<open>
  One call of \<^verbatim>\<open>transpose\<close> on a 2 by 3 row-wise matrix gives neither the matrix nor
  its transpose: the data are permuted, the orientation is flipped and the shape is swapped
  as well, so row 0 of the result is not column 0 of the argument.
\<close>

theorem MemoryIO_transpose_wrong:
  "\<exists>m'. mio_transpose 0 (MemoryIO_of [0, 1, 2, 3, 4, 5 :: int] (2, 3) ROW) = Inr m'
    \<and> mio_dim m' = (3, 2) \<and> mio_get_row 0 m' = Inr [0, 4]
    \<and> mio_get_col 0 (MemoryIO_of [0, 1, 2, 3, 4, 5 :: int] (2, 3) ROW) = Inr [0, 3]"
  by (simp add: mio_transpose_def MemoryIO_of_def transpose_loop_def mio_get_row_def mio_get_col_def
      data_of_def read_at_def eval_nat_numeral)

end
