(* ===== verification/Task_Queue.thy ===== *)
theory Task_Queue
  imports Common_Types
begin

text \<open>
  \<^verbatim>\<open>src/src/structures/TaskQueue.cpp\<close> and \<^verbatim>\<open>src/src/structures/TaskQueue.hpp\<close>: the
  queue of nodes a worker thread takes its tasks from. The queue carries its mutex, which
  checks for errors: locking it twice from one thread and unlocking it from another raise the
  exception of the program, and locking it while another thread holds it does not return, the
  value \<open>None\<close>. The steps of concurrent calls are a relation at the end of the theory.
\<close>

section \<open>The queue and its lock\<close>

type_synonym tid = nat

record 'n BuildTaskQueue =
  tasks :: "'n list"
  mutex :: "tid option"

definition BuildTaskQueue_new :: "'n BuildTaskQueue" where
  "BuildTaskQueue_new = \<lparr>tasks = [], mutex = None\<rparr>"

definition acquire_lock :: "tid \<Rightarrow> 'n BuildTaskQueue \<Rightarrow> 'n BuildTaskQueue exec" where
  "acquire_lock t q =
     (case mutex q of
        None \<Rightarrow> Some (Inr (q\<lparr>mutex := Some t\<rparr>))
      | Some t' \<Rightarrow> if t' = t then Some (Inl (concurrency_exception ''pthread_mutex_lock'')) else None)"

definition release_lock :: "tid \<Rightarrow> 'n BuildTaskQueue \<Rightarrow> 'n BuildTaskQueue exec" where
  "release_lock t q =
     (if mutex q = Some t then Some (Inr (q\<lparr>mutex := None\<rparr>))
      else Some (Inl (concurrency_exception ''pthread_mutex_unlock'')))"

definition queue_size :: "'n BuildTaskQueue \<Rightarrow> nat" where
  "queue_size q = length (tasks q)"

definition has_task :: "tid \<Rightarrow> 'n BuildTaskQueue \<Rightarrow> (bool \<times> 'n BuildTaskQueue) exec" where
  "has_task t q =
     bindX (acquire_lock t q) (\<lambda>q.
     let b = (tasks q \<noteq> []) in
     bindX (release_lock t q) (\<lambda>q. Some (Inr (b, q))))"

text \<open>\<open>runnables\<close> is the array from the pointer that is passed.\<close>

fun push_loop :: "'n list \<Rightarrow> nat \<Rightarrow> nat \<Rightarrow> 'n BuildTaskQueue \<Rightarrow> 'n BuildTaskQueue result" where
  "push_loop runnables i 0 q = Inr q"
| "push_loop runnables i (Suc n) q =
     bindE (read_at runnables i) (\<lambda>x. push_loop runnables (i + 1) n (q\<lparr>tasks := tasks q @ [x]\<rparr>))"

definition enqueue_all :: "tid \<Rightarrow> 'n list \<Rightarrow> nat \<Rightarrow> 'n BuildTaskQueue \<Rightarrow> 'n BuildTaskQueue exec" where
  "enqueue_all t runnables nnodes q =
     bindX (acquire_lock t q) (\<lambda>q.
     bindX (Some (push_loop runnables 0 nnodes q)) (release_lock t))"

definition enqueue :: "tid \<Rightarrow> 'n \<Rightarrow> 'n BuildTaskQueue \<Rightarrow> 'n BuildTaskQueue exec" where
  "enqueue t runnable q =
     bindX (acquire_lock t q) (\<lambda>q. release_lock t (q\<lparr>tasks := tasks q @ [runnable]\<rparr>))"

text \<open>\<^verbatim>\<open>front\<close> and \<^verbatim>\<open>pop\<close> of an empty queue are undefined.\<close>

definition front_pop :: "'n BuildTaskQueue \<Rightarrow> ('n \<times> 'n BuildTaskQueue) result" where
  "front_pop q =
     (case tasks q of [] \<Rightarrow> Inl undefined_behaviour | x # xs \<Rightarrow> Inr (x, q\<lparr>tasks := xs\<rparr>))"

definition dequeue :: "tid \<Rightarrow> 'n BuildTaskQueue \<Rightarrow> ('n option \<times> 'n BuildTaskQueue) exec" where
  "dequeue t q =
     (if tasks q = [] then Some (Inr (None, q))
      else bindX (acquire_lock t q) (\<lambda>q.
           bindX (Some (front_pop q)) (\<lambda>(x, q).
           bindX (release_lock t q) (\<lambda>q. Some (Inr (Some x, q))))))"

definition steal_task :: "'n BuildTaskQueue \<Rightarrow> bool result" where
  "steal_task q = Inl not_implemented_exception"

text \<open>
  The loop of \<^verbatim>\<open>WorkerThread::run\<close> for the state \<^verbatim>\<open>BUILD\<close>: it requests tasks until
  \<^verbatim>\<open>dequeue\<close> returns null; \<open>process\<close> is \<^verbatim>\<open>prep\<close> and \<^verbatim>\<open>run\<close> of the node.
\<close>

partial_function (option) build_loop ::
  "('q \<Rightarrow> ('n option \<times> 'q) exec) \<Rightarrow> ('n \<Rightarrow> 's \<Rightarrow> 's exec) \<Rightarrow> 'q \<Rightarrow> 's \<Rightarrow> ('q \<times> 's) exec" where
  "build_loop deq process q s =
     bindX (deq q) (\<lambda>r. case fst r of
         None \<Rightarrow> Some (Inr (snd r, s))
       | Some active_node \<Rightarrow> bindX (process active_node s) (build_loop deq process (snd r)))"

declare build_loop.simps [code]

section \<open>The interface of a task queue\<close>

text \<open>
  What the scheduler and the workers rely on: first in, first out. A worker that calls
  \<^verbatim>\<open>dequeue\<close> until it returns null gets every task once, in the order of the calls that
  put them there.
\<close>

locale task_queue =
  fixes idle :: "'q \<Rightarrow> bool"
    and content :: "'q \<Rightarrow> 'n list"
    and enq :: "'n list \<Rightarrow> 'q \<Rightarrow> 'q exec"
    and deq :: "'q \<Rightarrow> ('n option \<times> 'q) exec"
  assumes enq_law: "idle q \<Longrightarrow> \<exists>q'. enq xs q = Some (Inr q') \<and> idle q' \<and> content q' = content q @ xs"
    and deq_empty: "idle q \<Longrightarrow> content q = [] \<Longrightarrow> deq q = Some (Inr (None, q))"
    and deq_law: "idle q \<Longrightarrow> content q = x # xs \<Longrightarrow>
      \<exists>q'. deq q = Some (Inr (Some x, q')) \<and> idle q' \<and> content q' = xs"
begin

lemma build_loop_content:
  assumes "idle q"
  shows "\<exists>q'. idle q' \<and> content q' = [] \<and>
    build_loop deq process q s = bindX (foldX process (content q) s) (\<lambda>s. Some (Inr (q', s)))"
  using assms
proof (induction "content q" arbitrary: q s)
  case Nil
  then show ?case by (auto simp: build_loop.simps [of deq] deq_empty)
next
  case (Cons x xs)
  then obtain q1 where q1: "deq q = Some (Inr (Some x, q1))" "idle q1" "content q1 = xs"
    using deq_law [of q x xs] by auto
  show ?case
  proof (cases "process x s")
    case None
    with q1 Cons(2) show ?thesis
      using Cons(1) [of q1 s] by (auto simp: build_loop.simps [of deq process q] simp flip: Cons(2))
  next
    case (Some r)
    with q1 Cons(2) Cons(1) [of q1 "projr r"] show ?thesis
      by (cases r) (auto simp: build_loop.simps [of deq process q] simp flip: Cons(2))
  qed
qed

lemma enq_all_content:
  assumes "idle q"
  shows "\<exists>q'. foldX enq xss q = Some (Inr q') \<and> idle q' \<and> content q' = content q @ concat xss"
  using assms
proof (induction xss arbitrary: q)
  case (Cons xs xss)
  obtain q1 where "enq xs q = Some (Inr q1)" "idle q1" "content q1 = content q @ xs"
    using enq_law [OF Cons.prems] by blast
  with Cons.IH [of q1] show ?case by auto
qed simp

lemma enq_then_build:
  assumes "idle q" "content q = []"
  shows "\<exists>q' q''. foldX enq xss q = Some (Inr q') \<and>
    build_loop deq process q' s = bindX (foldX process (concat xss) s) (\<lambda>s. Some (Inr (q'', s)))"
proof -
  from enq_all_content [OF assms(1), of xss] assms(2) obtain q' where
    "foldX enq xss q = Some (Inr q')" "idle q'" "content q' = concat xss" by auto
  with build_loop_content [of q' process s] show ?thesis by auto
qed

end

lemma push_loop_ok:
  "i + n \<le> length xs \<Longrightarrow> push_loop xs i n q = Inr (q\<lparr>tasks := tasks q @ take n (drop i xs)\<rparr>)"
proof (induction n arbitrary: i q)
  case (Suc n)
  then have "drop i xs = xs ! i # drop (Suc i) xs" by (simp add: Cons_nth_drop_Suc)
  with Suc show ?case by simp
qed simp

lemma enqueue_all_ok:
  assumes "mutex q = None" "n \<le> length xs"
  shows "enqueue_all t xs n q = Some (Inr (q\<lparr>tasks := tasks q @ take n xs\<rparr>))"
  using assms by (simp add: enqueue_all_def acquire_lock_def release_lock_def push_loop_ok)

lemma dequeue_ok:
  assumes "mutex q = None"
  shows "dequeue t q = Some (Inr (case tasks q of [] \<Rightarrow> (None, q) | x # xs \<Rightarrow> (Some x, q\<lparr>tasks := xs\<rparr>)))"
  using assms
  by (auto simp: dequeue_def acquire_lock_def release_lock_def front_pop_def split: list.splits)

interpretation btq: task_queue "\<lambda>q. mutex q = None" tasks "\<lambda>xs. enqueue_all p xs (length xs)" "dequeue t"
    for p t
  by unfold_locales (auto simp: enqueue_all_ok dequeue_ok)

section \<open>Concurrent calls\<close>

text \<open>
  \<^verbatim>\<open>dequeue\<close> looks whether the queue is empty before it takes the lock. A thread is
  before the call, past that check, holding the lock, or has met the undefined
  \<^verbatim>\<open>front\<close> of an empty queue; producers push under the lock, so that a push is one step.
\<close>

datatype deq_pc = Outside | Checked | Locked | Undefined

record 'n deq_state =
  dq :: "'n BuildTaskQueue"
  pcs :: "tid \<Rightarrow> deq_pc"

inductive deq_step :: "tid set \<Rightarrow> 'n deq_state \<Rightarrow> 'n deq_state \<Rightarrow> bool" for consumers where
  push: "mutex (dq s) = None \<Longrightarrow>
    deq_step consumers s (s\<lparr>dq := (dq s)\<lparr>tasks := tasks (dq s) @ [x]\<rparr>\<rparr>)"
| check: "t \<in> consumers \<Longrightarrow> pcs s t = Outside \<Longrightarrow> tasks (dq s) \<noteq> [] \<Longrightarrow>
    deq_step consumers s (s\<lparr>pcs := (pcs s)(t := Checked)\<rparr>)"
| lock: "t \<in> consumers \<Longrightarrow> pcs s t = Checked \<Longrightarrow> acquire_lock t (dq s) = Some (Inr q) \<Longrightarrow>
    deq_step consumers s (s\<lparr>dq := q, pcs := (pcs s)(t := Locked)\<rparr>)"
| pop: "t \<in> consumers \<Longrightarrow> pcs s t = Locked \<Longrightarrow> front_pop (dq s) = Inr (x, q) \<Longrightarrow>
    release_lock t q = Some (Inr q') \<Longrightarrow>
    deq_step consumers s (s\<lparr>dq := q', pcs := (pcs s)(t := Outside)\<rparr>)"
| pop_empty: "t \<in> consumers \<Longrightarrow> pcs s t = Locked \<Longrightarrow> front_pop (dq s) = Inl e \<Longrightarrow>
    deq_step consumers s (s\<lparr>pcs := (pcs s)(t := Undefined)\<rparr>)"

inductive_cases deq_stepE: "deq_step consumers s s'"

definition deq_init :: "'n deq_state" where
  "deq_init = \<lparr>dq = BuildTaskQueue_new, pcs = (\<lambda>t. Outside)\<rparr>"

definition deq_inv :: "tid \<Rightarrow> 'n deq_state \<Rightarrow> bool" where
  "deq_inv t s \<longleftrightarrow> pcs s t \<noteq> Undefined \<and> (pcs s t \<in> {Checked, Locked} \<longrightarrow> tasks (dq s) \<noteq> [])"

lemma deq_inv_step: "deq_step {t} s s' \<Longrightarrow> deq_inv t s \<Longrightarrow> deq_inv t s'"
  by (erule deq_stepE)
    (auto simp: deq_inv_def acquire_lock_def release_lock_def front_pop_def
      split: option.splits if_splits list.splits)

lemma deq_inv_reachable:
  assumes "(deq_step {t})\<^sup>*\<^sup>* deq_init s"
  shows "deq_inv t s"
  using assms
proof (induction rule: rtranclp_induct)
  case base
  show ?case by (simp add: deq_inv_def deq_init_def)
next
  case (step s s')
  then show ?case using deq_inv_step by blast
qed

section \<open>Properties\<close>

text \<open>
  C32. Blocks of nodes that are put into a new queue one after the other are then run by the
  worker's loop: every node once, in the order of the blocks, and the loop ends unless running
  a node does not.
\<close>

theorem worker_runs_queue:
  "\<exists>q q'. foldX (\<lambda>xs. enqueue_all p xs (length xs)) xss BuildTaskQueue_new = Some (Inr q)
    \<and> build_loop (dequeue t) process q s
        = bindX (foldX process (concat xss) s) (\<lambda>s. Some (Inr (q', s)))"
  using btq.enq_then_build [of BuildTaskQueue_new] by (simp add: BuildTaskQueue_new_def)

text \<open>
  The unlocked check in \<^verbatim>\<open>dequeue\<close> is safe as long as one thread takes tasks out:
  however its steps interleave with those of threads that add tasks, it never takes the front
  of an empty queue.
\<close>

theorem dequeue_one_consumer:
  assumes "(deq_step {t})\<^sup>*\<^sup>* deq_init s"
  shows "pcs s t \<noteq> Undefined"
  using deq_inv_reachable [OF assms] by (simp add: deq_inv_def)

theorem dequeue_one_consumer_witness:
  "pcs (deq_init\<lparr>dq := \<lparr>tasks = [7 :: nat], mutex = None\<rparr>, pcs := (\<lambda>t. Outside)(0 := Checked)\<rparr>) 0 \<noteq> Undefined"
proof -
  let ?q = "\<lparr>tasks = [7 :: nat], mutex = None\<rparr>"
  have "deq_step {0} deq_init (deq_init\<lparr>dq := ?q\<rparr>)"
    using deq_step.push [of deq_init "{0}" 7] by (simp add: deq_init_def BuildTaskQueue_new_def)
  moreover have "deq_step {0} (deq_init\<lparr>dq := ?q\<rparr>)
      (deq_init\<lparr>dq := ?q, pcs := (\<lambda>t. Outside)(0 := Checked)\<rparr>)"
    using deq_step.check [of 0 "{0}" "deq_init\<lparr>dq := ?q\<rparr>"] by (simp add: deq_init_def)
  ultimately show ?thesis
    by (intro dequeue_one_consumer) (rule converse_rtranclp_into_rtranclp [OF _ r_into_rtranclp])
qed

end
