(* ===== verification/Thread_Pool.thy ===== *)
theory Thread_Pool
  imports Common_Types
begin

text \<open>
  \<^verbatim>\<open>src/src/structures/ThreadState.hpp\<close>, \<^verbatim>\<open>src/src/structures/WorkerThread.cpp\<close> and the
  waiting part of \<^verbatim>\<open>src/src/structures/Scheduler.cpp\<close>: how the scheduler hands a level to
  the worker threads and waits for them. Every thread has a program counter, and a step of the
  pool is a step of one thread. What a thread does while it holds a lock that no other thread
  can see is one step. A worker holds its state lock at \<open>W_Dec\<close>, \<open>W_Signal\<close> and
  \<open>W_Sleep\<close>; a signal reaches a thread that sleeps and is lost otherwise.
\<close>

section \<open>Threads\<close>

datatype ThreadState_t = TEST | BUILD | QUERY | WAIT | EXIT

definition ThreadState_to :: "ThreadState_t \<Rightarrow> string" where
  "ThreadState_to st =
     (case st of TEST \<Rightarrow> ''TEST'' | BUILD \<Rightarrow> ''BUILD'' | QUERY \<Rightarrow> ''QUERY'' | WAIT \<Rightarrow> ''WAIT'' | EXIT \<Rightarrow> ''EXIT'')"

datatype worker_pc =
    W_Loop | W_Run | W_Wait | W_Dec | W_Signal | W_Sleep | W_Asleep | W_Woken | W_Exit

record 'n WorkerThread =
  wstate :: ThreadState_t
  wpc :: worker_pc
  wqueue :: "'n list"

definition WorkerThread_new :: "'n WorkerThread" where
  "WorkerThread_new = \<lparr>wstate = WAIT, wpc = W_Loop, wqueue = []\<rparr>"

definition state_locked :: "'n WorkerThread \<Rightarrow> bool" where
  "state_locked w \<longleftrightarrow> wpc w \<in> {W_Dec, W_Signal, W_Sleep}"

text \<open>
  The scheduler is idle between two levels, wakes thread \<open>i\<close> (the lock, the state and the
  count, then the signal), checks the count, has found it positive and is about to sleep, or
  sleeps; at the end it has freed the threads.
\<close>

datatype sched_pc =
    S_Idle | S_Wake nat ThreadState_t | S_Notify nat ThreadState_t | S_Check | S_Blocked | S_Asleep | S_Freed

section \<open>Steps\<close>

text \<open>\<^verbatim>\<open>WorkerThread::wait\<close>.\<close>

definition wait_step ::
  "'n WorkerThread \<Rightarrow> unsigned \<Rightarrow> sched_pc \<Rightarrow> ('n WorkerThread \<times> unsigned \<times> sched_pc) option" where
  "wait_step w ppt s =
     (case wpc w of
        W_Wait \<Rightarrow> Some (w\<lparr>wstate := WAIT, wpc := W_Dec\<rparr>, ppt - 1, s)
      | W_Dec \<Rightarrow> Some (w\<lparr>wpc := if ppt = 0 then W_Signal else W_Sleep\<rparr>, ppt, s)
      | W_Signal \<Rightarrow> Some (w\<lparr>wpc := W_Sleep\<rparr>, ppt, if s = S_Asleep then S_Check else s)
      | W_Sleep \<Rightarrow> Some (w\<lparr>wpc := if wstate w = WAIT then W_Asleep else W_Loop\<rparr>, ppt, s)
      | W_Woken \<Rightarrow> Some (w\<lparr>wpc := if wstate w = WAIT then W_Asleep else W_Loop\<rparr>, ppt, s)
      | _ \<Rightarrow> None)"

text \<open>The loop of \<^verbatim>\<open>WorkerThread::run\<close> over \<^verbatim>\<open>request_task\<close>; the second component is the task that ran.\<close>

definition run_step :: "'n WorkerThread \<Rightarrow> ('n WorkerThread \<times> 'n list) option" where
  "run_step w =
     (if wpc w = W_Run
      then Some (case wqueue w of [] \<Rightarrow> (w\<lparr>wpc := W_Wait\<rparr>, []) | x # xs \<Rightarrow> (w\<lparr>wqueue := xs\<rparr>, [x]))
      else None)"

text \<open>
  The loop of \<^verbatim>\<open>callback\<close> with the switch of \<^verbatim>\<open>run\<close>; \<^verbatim>\<open>QUERY\<close> raises an exception
  that nothing catches.
\<close>

definition callback_step :: "'n WorkerThread \<Rightarrow> 'n WorkerThread option" where
  "callback_step w =
     (if wpc w = W_Loop
      then case wstate w of
          WAIT \<Rightarrow> Some (w\<lparr>wpc := W_Wait\<rparr>)
        | EXIT \<Rightarrow> Some (w\<lparr>wpc := W_Exit\<rparr>)
        | TEST \<Rightarrow> Some (w\<lparr>wpc := W_Wait\<rparr>)
        | BUILD \<Rightarrow> Some (w\<lparr>wpc := W_Run\<rparr>)
        | QUERY \<Rightarrow> None
      else None)"

record 'n pool =
  workers :: "'n WorkerThread list"
  pending :: unsigned
  sched :: sched_pc
  given :: "'n list"
  ran :: "'n list"

definition worker_step :: "nat \<Rightarrow> 'n pool \<Rightarrow> 'n pool option" where
  "worker_step i p =
     (let w = workers p ! i in
      case wait_step w (pending p) (sched p) of
        Some (w, ppt, s) \<Rightarrow> Some (p\<lparr>workers := (workers p)[i := w], pending := ppt, sched := s\<rparr>)
      | None \<Rightarrow>
     (case run_step w of
        Some (w, xs) \<Rightarrow> Some (p\<lparr>workers := (workers p)[i := w], ran := ran p @ xs\<rparr>)
      | None \<Rightarrow>
     (case callback_step w of
        Some w \<Rightarrow> Some (p\<lparr>workers := (workers p)[i := w]\<rparr>)
      | None \<Rightarrow> None)))"

text \<open>\<^verbatim>\<open>WorkerThread::wake\<close>, which blocks while the worker holds its lock; and its signal.\<close>

definition wake :: "ThreadState_t \<Rightarrow> nat \<Rightarrow> 'n pool \<Rightarrow> 'n pool option" where
  "wake st i p =
     (let w = workers p ! i in
      if state_locked w then None
      else Some (p\<lparr>workers := (workers p)[i := w\<lparr>wstate := st\<rparr>], pending := pending p + 1,
                   sched := S_Notify i st\<rparr>))"

definition notify :: "ThreadState_t \<Rightarrow> nat \<Rightarrow> 'n pool \<Rightarrow> 'n pool" where
  "notify st i p =
     (let w = workers p ! i in
      p\<lparr>workers := (workers p)[i := w\<lparr>wpc := if wpc w = W_Asleep then W_Woken else wpc w\<rparr>],
        sched := S_Wake (i + 1) st\<rparr>)"

text \<open>\<^verbatim>\<open>Scheduler::wake4run\<close> and what follows it: waiting for the level, or freeing the threads.\<close>

definition wake4run_step :: "ThreadState_t \<Rightarrow> nat \<Rightarrow> 'n pool \<Rightarrow> 'n pool option" where
  "wake4run_step st i p =
     (if i < length (workers p) then wake st i p
      else Some (p\<lparr>sched := if st = EXIT then S_Freed else S_Check\<rparr>))"

text \<open>\<^verbatim>\<open>Scheduler::wait4completion\<close>; the mutex of the scheduler is not used by the workers.\<close>

definition wait4completion_step :: "'n pool \<Rightarrow> 'n pool option" where
  "wait4completion_step p =
     (case sched p of
        S_Check \<Rightarrow> Some (p\<lparr>sched := if pending p = 0 then S_Idle else S_Blocked\<rparr>)
      | S_Blocked \<Rightarrow> Some (p\<lparr>sched := S_Asleep\<rparr>)
      | _ \<Rightarrow> None)"

definition sched_step :: "'n pool \<Rightarrow> 'n pool option" where
  "sched_step p =
     (case sched p of
        S_Wake i st \<Rightarrow> wake4run_step st i p
      | S_Notify i st \<Rightarrow> Some (notify st i p)
      | _ \<Rightarrow> wait4completion_step p)"

text \<open>\<^verbatim>\<open>Scheduler::run_level\<close> gives every worker its share and starts the wake-up.\<close>

definition give :: "'n list list \<Rightarrow> 'n pool \<Rightarrow> 'n pool" where
  "give qs p =
     p\<lparr>workers := map (\<lambda>(w, q). w\<lparr>wqueue := wqueue w @ q\<rparr>) (zip (workers p) qs),
       given := given p @ concat qs, sched := S_Wake 0 BUILD\<rparr>"

inductive pool_step :: "'n pool \<Rightarrow> 'n pool \<Rightarrow> bool" where
  work: "i < length (workers p) \<Longrightarrow> worker_step i p = Some p' \<Longrightarrow> pool_step p p'"
| schedule: "sched_step p = Some p' \<Longrightarrow> pool_step p p'"
| level: "sched p = S_Idle \<Longrightarrow> length qs = length (workers p) \<Longrightarrow> pool_step p (give qs p)"
| destroy: "sched p = S_Idle \<Longrightarrow> pool_step p (p\<lparr>sched := S_Wake 0 EXIT\<rparr>)"

text \<open>The constructor of the scheduler: it has made the threads and waits for them.\<close>

definition pool_init :: "nat \<Rightarrow> 'n pool" where
  "pool_init n = \<lparr>workers = replicate n WorkerThread_new, pending = word_of_nat n, sched = S_Check,
     given = [], ran = []\<rparr>"

section \<open>The invariant\<close>

text \<open>A busy worker has been woken, or made, and has not yet decremented the count.\<close>

definition busy :: "'n WorkerThread \<Rightarrow> bool" where
  "busy w \<longleftrightarrow> wpc w \<in> {W_Loop, W_Run, W_Wait, W_Exit} \<or> wpc w \<in> {W_Asleep, W_Woken} \<and> wstate w \<noteq> WAIT"

definition to_wake :: "sched_pc \<Rightarrow> nat \<Rightarrow> bool" where
  "to_wake s i = (case s of S_Wake j st \<Rightarrow> j \<le> i | S_Notify j st \<Rightarrow> j < i | _ \<Rightarrow> False)"

definition exiting :: "sched_pc \<Rightarrow> bool" where
  "exiting s = (case s of S_Wake j st \<Rightarrow> st = EXIT | S_Notify j st \<Rightarrow> st = EXIT | S_Freed \<Rightarrow> True | _ \<Rightarrow> False)"

definition notified :: "sched_pc \<Rightarrow> nat \<Rightarrow> ThreadState_t option" where
  "notified s i = (case s of S_Notify j st \<Rightarrow> if j = i then Some st else None | _ \<Rightarrow> None)"

text \<open>
  The invariant of a worker, given whether the scheduler is between two levels, has still to
  wake the worker, has changed its state without having signalled yet, or shuts down.
\<close>

definition winv :: "bool \<Rightarrow> bool \<Rightarrow> ThreadState_t option \<Rightarrow> bool \<Rightarrow> 'n WorkerThread \<Rightarrow> bool" where
  "winv idle waking signal exit w \<longleftrightarrow>
     (state_locked w \<longrightarrow> wstate w = WAIT) \<and>
     (wpc w = W_Exit \<longrightarrow> wstate w = EXIT) \<and>
     (wpc w = W_Woken \<longrightarrow> wstate w \<noteq> WAIT) \<and>
     (wpc w = W_Wait \<or> wpc w = W_Loop \<and> wstate w = WAIT \<longrightarrow> wqueue w = []) \<and>
     (case signal of None \<Rightarrow> wpc w = W_Asleep \<longrightarrow> wstate w = WAIT
      | Some st \<Rightarrow> wpc w = W_Asleep \<and> wstate w = st) \<and>
     (idle \<or> waking \<longrightarrow> \<not> busy w) \<and>
     (\<not> busy w \<and> \<not> waking \<longrightarrow> wqueue w = []) \<and>
     (wstate w = WAIT \<or> wstate w = BUILD \<or> wstate w = EXIT \<and> exit)"

definition worker_inv :: "sched_pc \<Rightarrow> nat \<Rightarrow> 'n WorkerThread \<Rightarrow> bool" where
  "worker_inv s i w \<longleftrightarrow> winv (s = S_Idle) (to_wake s i) (notified s i) (exiting s) w"

lemmas sched_defs = worker_inv_def to_wake_def notified_def exiting_def

definition sched_inv :: "nat \<Rightarrow> sched_pc \<Rightarrow> bool" where
  "sched_inv n s = (case s of S_Wake j st \<Rightarrow> st \<in> {BUILD, EXIT} | S_Notify j st \<Rightarrow> j < n \<and> st \<in> {BUILD, EXIT}
     | _ \<Rightarrow> True)"

definition pool_inv :: "nat \<Rightarrow> 'n pool \<Rightarrow> bool" where
  "pool_inv n p \<longleftrightarrow> length (workers p) = n \<and> unat (pending p) = length (filter busy (workers p)) \<and>
     (\<forall>i<n. worker_inv (sched p) i (workers p ! i)) \<and> sched_inv n (sched p) \<and>
     mset (given p) = mset (ran p) + mset (concat (map wqueue (workers p)))"

lemma filter_update:
  assumes "i < length ws"
  shows "length (filter P (ws[i := w])) + of_bool (P (ws ! i)) = length (filter P ws) + of_bool (P w)"
proof -
  obtain as x bs where "ws = as @ x # bs" "length as = i" by (rule split_at [OF assms])
  then show ?thesis by (simp add: list_update_append nth_append)
qed

lemma queues_update:
  assumes "i < length ws"
  shows "mset (concat (map f (ws[i := w]))) + mset (f (ws ! i)) = mset (concat (map f ws)) + mset (f w)"
proof -
  obtain as x bs where "ws = as @ x # bs" "length as = i" by (rule split_at [OF assms])
  then show ?thesis by (simp add: list_update_append nth_append)
qed

lemma unat_pred: "(w :: 'a::len word) \<noteq> 0 \<Longrightarrow> Suc (unat (w - 1)) = unat w"
  by (simp add: unat_minus_one unat_gt_0)

lemma filter_pos: "i < length ws \<Longrightarrow> P (ws ! i) \<Longrightarrow> 0 < length (filter P ws)"
  by (metis filter_empty_conv length_greater_0_conv nth_mem)

lemma filter_all: "length (filter P ws) = 0 \<Longrightarrow> i < length ws \<Longrightarrow> \<not> P (ws ! i)"
  by (metis filter_pos less_numeral_extra(3))

lemma filter_not_all: "i < length ws \<Longrightarrow> \<not> P (ws ! i) \<Longrightarrow> length (filter P ws) < length ws"
  by (metis length_filter_less nth_mem)

text \<open>A step that replaces one worker.\<close>

lemma pool_inv_update:
  assumes inv: "pool_inv n p" and i: "i < n"
    and w: "worker_inv s i w"
    and others: "\<And>j. j < n \<Longrightarrow> j \<noteq> i \<Longrightarrow> worker_inv (sched p) j (workers p ! j) \<Longrightarrow> worker_inv s j (workers p ! j)"
    and s: "sched_inv n s"
    and cnt: "unat ppt + of_bool (busy (workers p ! i)) = unat (pending p) + of_bool (busy w)"
    and q: "wqueue (workers p ! i) = xs @ wqueue w"
  shows "pool_inv n (p\<lparr>workers := (workers p)[i := w], pending := ppt, sched := s, ran := ran p @ xs\<rparr>)"
proof -
  have len: "length (workers p) = n" using inv by (simp add: pool_inv_def)
  have "length (filter busy ((workers p)[i := w])) + of_bool (busy (workers p ! i))
      = length (filter busy (workers p)) + of_bool (busy w)"
    using i len by (intro filter_update) simp
  then have "unat ppt = length (filter busy ((workers p)[i := w]))"
    using inv cnt by (simp add: pool_inv_def)
  moreover have "mset (given p) = mset (ran p @ xs) + mset (concat (map wqueue ((workers p)[i := w])))"
    using inv queues_update [of i "workers p" wqueue w] i len q by (simp add: pool_inv_def add.commute)
  moreover have "\<forall>j<n. worker_inv s j ((workers p)[i := w] ! j)"
    using inv w others i len by (auto simp: pool_inv_def nth_list_update)
  ultimately show ?thesis using len s by (simp add: pool_inv_def)
qed

lemmas worker_defs = winv_def state_locked_def busy_def

lemma worker_inv_check: "worker_inv S_Check j w \<longleftrightarrow> worker_inv S_Asleep j w"
  by (simp add: sched_defs)

lemma sched_inv_check: "sched_inv n S_Check" by (simp add: sched_inv_def)

lemma wait_step_sched:
  "wait_step w ppt s = Some (w', ppt', s') \<Longrightarrow> (s' = s \<or> s = S_Asleep \<and> s' = S_Check) \<and> wqueue w' = wqueue w"
  by (cases "wpc w"; cases "s = S_Asleep") (auto simp: wait_step_def)

lemma wait_step_busy:
  assumes "wait_step w ppt s = Some (w', ppt', s')" "winv idle waking signal exit w"
  shows "busy w \<and> \<not> busy w' \<and> ppt' = ppt - 1 \<or> busy w' = busy w \<and> ppt' = ppt"
proof (cases w)
  case (fields st pc q)
  then show ?thesis
    using assms by (cases pc; cases signal) (auto simp: wait_step_def worker_defs split: if_splits)
qed

lemma wait_step_cases:
  assumes "wait_step w ppt s = Some (w', ppt', s')"
  obtains "wpc w = W_Wait" "w' = w\<lparr>wstate := WAIT, wpc := W_Dec\<rparr>"
  | "wpc w = W_Dec" "w' = w\<lparr>wpc := W_Signal\<rparr>"
  | "wpc w \<in> {W_Dec, W_Signal}" "w' = w\<lparr>wpc := W_Sleep\<rparr>"
  | "wpc w \<in> {W_Sleep, W_Woken}" "wstate w = WAIT" "w' = w\<lparr>wpc := W_Asleep\<rparr>"
  | "wpc w \<in> {W_Sleep, W_Woken}" "wstate w \<noteq> WAIT" "w' = w\<lparr>wpc := W_Loop\<rparr>"
  using assms by (cases "wpc w") (auto simp: wait_step_def split: if_splits)

lemma wait_step_winv:
  assumes "wait_step w ppt s = Some (w', ppt', s')" "winv idle waking signal exit w"
  shows "winv idle waking signal exit w'"
  using assms(1)
proof (cases rule: wait_step_cases)
  case 1
  then show ?thesis using assms(2) by (cases w; cases signal) (auto simp: worker_defs)
next
  case 2
  then show ?thesis using assms(2) by (cases w; cases signal) (auto simp: worker_defs)
next
  case 3
  then show ?thesis using assms(2) by (cases w; cases signal) (auto simp: worker_defs)
next
  case 4
  then show ?thesis using assms(2) by (cases w; cases signal) (auto simp: worker_defs)
next
  case 5
  then show ?thesis using assms(2) by (cases w; cases signal) (auto simp: worker_defs)
qed

lemma wait_step_inv:
  assumes "wait_step w ppt s = Some (w', ppt', s')" "worker_inv s i w"
  shows "worker_inv s' i w'"
proof -
  have "worker_inv s i w'" using assms wait_step_winv unfolding worker_inv_def by blast
  then show ?thesis using wait_step_sched [OF assms(1)] worker_inv_check [of i w'] by auto
qed

lemma run_step_winv:
  assumes "run_step w = Some (w', xs)" "winv idle waking signal exit w"
  shows "winv idle waking signal exit w'"
  using assms by (cases "wqueue w"; cases signal) (auto simp: run_step_def worker_defs split: if_splits)

lemma callback_step_winv:
  assumes "callback_step w = Some w'" "winv idle waking signal exit w"
  shows "winv idle waking signal exit w'"
  using assms
  by (cases "wstate w"; cases signal) (auto simp: callback_step_def worker_defs split: if_splits)

lemma pool_inv_wait:
  assumes inv: "pool_inv n p" and i: "i < n"
    and st: "wait_step (workers p ! i) (pending p) (sched p) = Some (w, ppt, s)"
  shows "pool_inv n (p\<lparr>workers := (workers p)[i := w], pending := ppt, sched := s\<rparr>)"
proof -
  have len: "length (workers p) = n" and wi: "worker_inv (sched p) i (workers p ! i)"
    and si: "sched_inv n (sched p)" and cnt: "unat (pending p) = length (filter busy (workers p))"
    using inv i by (auto simp: pool_inv_def)
  have "pending p \<noteq> 0" if "busy (workers p ! i)"
    using filter_pos [of i "workers p" busy] that i len cnt by auto
  then have "unat ppt + of_bool (busy (workers p ! i)) = unat (pending p) + of_bool (busy w)"
    using wait_step_busy [OF st wi [unfolded worker_inv_def]] unat_pred [of "pending p"] by auto
  moreover have "sched_inv n s" using wait_step_sched [OF st] si sched_inv_check by auto
  moreover have "worker_inv s j v" if "worker_inv (sched p) j v" for j and v :: "'a WorkerThread"
    using wait_step_sched [OF st] that worker_inv_check [of j v] by auto
  ultimately have "pool_inv n (p\<lparr>workers := (workers p)[i := w], pending := ppt, sched := s, ran := ran p @ []\<rparr>)"
    using wait_step_sched [OF st] wait_step_inv [OF st wi] by (intro pool_inv_update [OF inv i]) auto
  then show ?thesis by simp
qed

lemma pool_inv_run:
  assumes inv: "pool_inv n p" and i: "i < n" and st: "run_step (workers p ! i) = Some (w, xs)"
  shows "pool_inv n (p\<lparr>workers := (workers p)[i := w], ran := ran p @ xs\<rparr>)"
proof -
  have wi: "worker_inv (sched p) i (workers p ! i)" and si: "sched_inv n (sched p)"
    using inv i by (auto simp: pool_inv_def)
  have "worker_inv (sched p) i w"
    using run_step_winv [OF st] wi unfolding worker_inv_def by blast
  moreover have "busy w = busy (workers p ! i)"
    using st by (auto simp: run_step_def busy_def split: if_splits list.splits)
  moreover have "wqueue (workers p ! i) = xs @ wqueue w"
    using st by (auto simp: run_step_def split: if_splits list.splits)
  ultimately have "pool_inv n (p\<lparr>workers := (workers p)[i := w], pending := pending p, sched := sched p, ran := ran p @ xs\<rparr>)"
    using si by (intro pool_inv_update [OF inv i]) auto
  then show ?thesis by simp
qed

lemma pool_inv_callback:
  assumes inv: "pool_inv n p" and i: "i < n" and st: "callback_step (workers p ! i) = Some w"
  shows "pool_inv n (p\<lparr>workers := (workers p)[i := w]\<rparr>)"
proof -
  have wi: "worker_inv (sched p) i (workers p ! i)" and si: "sched_inv n (sched p)"
    using inv i by (auto simp: pool_inv_def)
  have "worker_inv (sched p) i w"
    using callback_step_winv [OF st] wi unfolding worker_inv_def by blast
  moreover have "busy w = busy (workers p ! i)"
    using st by (auto simp: callback_step_def busy_def split: if_splits ThreadState_t.splits)
  moreover have "wqueue (workers p ! i) = [] @ wqueue w"
    using st by (auto simp: callback_step_def split: if_splits ThreadState_t.splits)
  ultimately have "pool_inv n (p\<lparr>workers := (workers p)[i := w], pending := pending p, sched := sched p, ran := ran p @ []\<rparr>)"
    using si by (intro pool_inv_update [OF inv i]) auto
  then show ?thesis by simp
qed

lemma pool_inv_worker:
  "pool_inv n p \<Longrightarrow> i < n \<Longrightarrow> worker_step i p = Some p' \<Longrightarrow> pool_inv n p'"
  by (auto simp: worker_step_def Let_def intro: pool_inv_wait pool_inv_run pool_inv_callback
      split: option.splits)

lemma winv_wake:
  assumes "winv False True None ex w" "\<not> state_locked w" "st = BUILD \<or> st = EXIT \<and> ex"
  shows "\<not> busy w \<and> busy (w\<lparr>wstate := st\<rparr>) \<and> winv False False (Some st) ex (w\<lparr>wstate := st\<rparr>)"
proof (cases w)
  case (fields s pc q)
  with assms show ?thesis by (cases pc) (auto simp: worker_defs)
qed

lemma winv_notify:
  assumes "winv False False (Some st) ex w" "st = BUILD \<or> st = EXIT \<and> ex"
  shows "wpc w = W_Asleep \<and> busy w \<and> busy (w\<lparr>wpc := W_Woken\<rparr>) \<and> winv False False None ex (w\<lparr>wpc := W_Woken\<rparr>)"
proof (cases w)
  case (fields s pc q)
  with assms show ?thesis by (cases pc) (auto simp: worker_defs)
qed

lemma winv_idle: "winv False False None ex w \<Longrightarrow> \<not> busy w \<Longrightarrow> winv True False None ex w"
  by (simp add: winv_def)

lemma winv_start: "winv True False None ex w \<Longrightarrow> winv False True None ex' (w\<lparr>wqueue := q\<rparr>)"
proof (cases w)
  case (fields s pc q')
  then show "winv True False None ex w \<Longrightarrow> ?thesis" by (cases pc) (auto simp: worker_defs)
qed

lemma pool_inv_wake:
  assumes inv: "pool_inv n p" and i: "i < n" and s: "sched p = S_Wake i st" and n: "n < 2 ^ 32"
    and st: "wake st i p = Some p'"
  shows "pool_inv n p'"
proof -
  let ?w = "workers p ! i"
  have len: "length (workers p) = n" and wi: "worker_inv (S_Wake i st) i ?w" and si: "sched_inv n (S_Wake i st)"
    and cnt: "unat (pending p) = length (filter busy (workers p))"
    using inv i s by (auto simp: pool_inv_def)
  have nl: "\<not> state_locked ?w" using st by (auto simp: wake_def Let_def split: if_splits)
  have w: "\<not> busy ?w" "busy (?w\<lparr>wstate := st\<rparr>)" "worker_inv (S_Notify i st) i (?w\<lparr>wstate := st\<rparr>)"
    using winv_wake [of "st = EXIT" ?w st] wi si nl by (auto simp: sched_defs sched_inv_def)
  then have "unat (pending p) < n" using filter_not_all [of i "workers p" busy] cnt i len by simp
  then have "unat (pending p + 1) = Suc (unat (pending p))"
    using n by (intro unat_Suc_word) (auto simp: unsigned_minus_1_eq_mask mask_eq_exp_minus_1)
  then have "pool_inv n (p\<lparr>workers := (workers p)[i := ?w\<lparr>wstate := st\<rparr>], pending := pending p + 1,
      sched := S_Notify i st, ran := ran p @ []\<rparr>)"
    using si i w s
    by (intro pool_inv_update [OF inv i]) (auto simp: sched_defs sched_inv_def le_eq_less_or_eq)
  then show ?thesis using st nl by (auto simp: wake_def Let_def)
qed

lemma pool_inv_notify:
  assumes inv: "pool_inv n p" and s: "sched p = S_Notify i st"
  shows "pool_inv n (notify st i p)"
proof -
  let ?w = "workers p ! i"
  have si: "sched_inv n (S_Notify i st)" using inv s by (simp add: pool_inv_def)
  then have i: "i < n" by (simp add: sched_inv_def)
  have wi: "worker_inv (S_Notify i st) i ?w" using inv s i by (auto simp: pool_inv_def)
  have w: "wpc ?w = W_Asleep" "busy ?w" "busy (?w\<lparr>wpc := W_Woken\<rparr>)" "worker_inv (S_Wake (Suc i) st) i (?w\<lparr>wpc := W_Woken\<rparr>)"
    using winv_notify [of st "st = EXIT" ?w] wi si by (auto simp: sched_defs sched_inv_def)
  then have "pool_inv n (p\<lparr>workers := (workers p)[i := ?w\<lparr>wpc := W_Woken\<rparr>], pending := pending p,
      sched := S_Wake (Suc i) st, ran := ran p @ []\<rparr>)"
    using si s by (intro pool_inv_update [OF inv i]) (auto simp: sched_defs sched_inv_def Suc_le_eq)
  then show ?thesis by (simp add: notify_def w(1) Let_def)
qed

text \<open>A step that only moves the scheduler.\<close>

lemma pool_inv_sched:
  assumes "pool_inv n p" "sched_inv n s"
    and "\<And>j. j < n \<Longrightarrow> worker_inv (sched p) j (workers p ! j) \<Longrightarrow> worker_inv s j (workers p ! j)"
  shows "pool_inv n (p\<lparr>sched := s\<rparr>)"
  using assms by (simp add: pool_inv_def)

lemma pool_inv_wait4completion:
  assumes inv: "pool_inv n p" and st: "wait4completion_step p = Some p'"
  shows "pool_inv n p'"
proof -
  have nb: "\<not> busy (workers p ! j)" if "pending p = 0" "j < n" for j
    using that inv filter_all [of busy "workers p" j] by (simp add: pool_inv_def)
  from st consider "sched p = S_Check" "pending p = 0" "p' = p\<lparr>sched := S_Idle\<rparr>"
    | "sched p = S_Check" "p' = p\<lparr>sched := S_Blocked\<rparr>" | "sched p = S_Blocked" "p' = p\<lparr>sched := S_Asleep\<rparr>"
    by (cases "sched p") (auto simp: wait4completion_step_def split: if_splits)
  then show ?thesis
  proof cases
    case 1
    show ?thesis unfolding 1(3)
      by (rule pool_inv_sched [OF inv]) (use 1 nb in \<open>auto simp: sched_inv_def sched_defs intro: winv_idle\<close>)
  qed (auto simp: sched_inv_def sched_defs intro!: pool_inv_sched [OF inv])
qed

lemma pool_inv_schedule:
  assumes inv: "pool_inv n p" and n: "n < 2 ^ 32" and st: "sched_step p = Some p'"
  shows "pool_inv n p'"
proof (cases "sched p")
  case (S_Wake i s)
  have len: "length (workers p) = n" using inv by (simp add: pool_inv_def)
  have "pool_inv n (p\<lparr>sched := if s = EXIT then S_Freed else S_Check\<rparr>)" if "n \<le> i"
    using that S_Wake by (intro pool_inv_sched [OF inv]) (auto simp: sched_inv_def sched_defs)
  with S_Wake st pool_inv_wake [OF inv _ S_Wake n] len show ?thesis
    by (auto simp: sched_step_def wake4run_step_def split: if_splits)
next
  case (S_Notify i s)
  with pool_inv_notify [OF inv this] st show ?thesis by (simp add: sched_step_def)
qed (use st pool_inv_wait4completion [OF inv] in \<open>simp_all add: sched_step_def\<close>)

lemma give_queues:
  "length qs = length ws \<Longrightarrow>
    mset (concat (map wqueue (map (\<lambda>(w, q). w\<lparr>wqueue := wqueue w @ q\<rparr>) (zip ws qs))))
      = mset (concat (map wqueue ws)) + mset (concat qs)"
  by (induction ws qs rule: list_induct2') auto

lemma pool_inv_give:
  assumes inv: "pool_inv n p" and s: "sched p = S_Idle" and len: "length qs = length (workers p)"
  shows "pool_inv n (give qs p)"
proof -
  let ?ws = "map (\<lambda>(w, q). w\<lparr>wqueue := wqueue w @ q\<rparr>) (zip (workers p) qs)"
  have n: "length (workers p) = n" using inv by (simp add: pool_inv_def)
  have 1: "map busy ?ws = map busy (workers p)"
    using len by (intro nth_equalityI) (auto simp: busy_def)
  have "length (filter busy ?ws) = length (filter busy (workers p))"
    using arg_cong [OF 1, of "\<lambda>bs. length (filter id bs)"] by (simp add: filter_map o_def)
  moreover have "mset (concat (map wqueue ?ws)) = mset (concat (map wqueue (workers p))) + mset (concat qs)"
    using len by (rule give_queues)
  moreover have "worker_inv (S_Wake 0 BUILD) i (?ws ! i)" if "i < n" for i
    using that inv s n len winv_start [of False "workers p ! i"] by (auto simp: pool_inv_def sched_defs)
  ultimately show ?thesis using inv n len by (simp add: give_def pool_inv_def sched_inv_def)
qed

lemma pool_inv_destroy:
  assumes inv: "pool_inv n p" and s: "sched p = S_Idle"
  shows "pool_inv n (p\<lparr>sched := S_Wake 0 EXIT\<rparr>)"
proof -
  have "winv False True None True w" if "winv True False None False w" for w :: "'a WorkerThread"
    using winv_start [OF that, of True "wqueue w"] by simp
  with s show ?thesis by (intro pool_inv_sched [OF inv]) (auto simp: sched_inv_def sched_defs)
qed

lemma pool_inv_step:
  assumes "pool_step p p'" "pool_inv n p" "n < 2 ^ 32"
  shows "pool_inv n p'"
proof -
  have len: "length (workers p) = n" using assms(2) by (simp add: pool_inv_def)
  from assms(1) show ?thesis
  proof cases
    case (work i)
    with len show ?thesis by (intro pool_inv_worker [OF assms(2)]) auto
  next
    case schedule
    then show ?thesis by (rule pool_inv_schedule [OF assms(2,3)])
  next
    case (level qs)
    then show ?thesis using pool_inv_give [OF assms(2)] by simp
  next
    case destroy
    then show ?thesis using pool_inv_destroy [OF assms(2)] by simp
  qed
qed

lemma pool_inv_init: "n < 2 ^ 32 \<Longrightarrow> pool_inv n (pool_init n)"
  by (simp add: pool_inv_def pool_init_def WorkerThread_new_def worker_defs sched_defs sched_inv_def
      unsigned_of_nat take_bit_nat_eq_self map_replicate_const)

lemma pool_inv_reachable:
  assumes "pool_step\<^sup>*\<^sup>* (pool_init n) p" "n < 2 ^ 32"
  shows "pool_inv n p"
  using assms(1)
proof (induction rule: rtranclp_induct)
  case base
  show ?case using assms(2) by (rule pool_inv_init)
next
  case (step p p')
  then show ?case using pool_inv_step assms(2) by blast
qed

section \<open>Progress\<close>

lemma winv_no_query: "winv idle waking signal exit w \<Longrightarrow> wstate w \<noteq> QUERY"
  unfolding winv_def by force

lemma winv_not_busy:
  assumes "winv False False None False w" "wpc w = W_Asleep \<or> wpc w = W_Exit"
  shows "\<not> busy w"
  using assms(2)
proof
  assume "wpc w = W_Asleep"
  moreover from this assms(1) have "wstate w = WAIT" by (simp add: winv_def)
  ultimately show ?thesis by (simp add: busy_def)
next
  assume "wpc w = W_Exit"
  with assms(1) have False by (auto simp: winv_def)
  then show ?thesis ..
qed

lemma worker_stuck:
  assumes "i < length (workers p)" "worker_step i p = None"
  shows "wpc (workers p ! i) = W_Asleep \<or> wpc (workers p ! i) = W_Exit
    \<or> wpc (workers p ! i) = W_Loop \<and> wstate (workers p ! i) = QUERY"
  using assms
  by (cases "wpc (workers p ! i)"; cases "wstate (workers p ! i)")
    (auto simp: worker_step_def wait_step_def run_step_def callback_step_def Let_def split: list.splits)

lemma sched_stuck:
  assumes "sched_step p = None" "\<nexists>i. i < length (workers p) \<and> state_locked (workers p ! i)"
  shows "sched p \<in> {S_Idle, S_Asleep, S_Freed}"
  using assms
  by (cases "sched p")
    (auto simp: sched_step_def wake4run_step_def wake_def wait4completion_step_def Let_def split: if_splits)

definition worker_at :: "ThreadState_t \<Rightarrow> worker_pc \<Rightarrow> 'n WorkerThread" where
  "worker_at st pc = \<lparr>wstate = st, wpc = pc, wqueue = []\<rparr>"

definition lone_pool :: "worker_pc \<Rightarrow> unsigned \<Rightarrow> sched_pc \<Rightarrow> 'n pool" where
  "lone_pool pc ppt s = \<lparr>workers = [worker_at WAIT pc], pending = ppt, sched = s, given = [], ran = []\<rparr>"

lemmas lone_simps = lone_pool_def worker_at_def worker_step_def wait_step_def callback_step_def
  run_step_def sched_step_def wait4completion_step_def Let_def

lemma lone_work: "worker_step 0 (lone_pool pc ppt s) = Some p' \<Longrightarrow> pool_step (lone_pool pc ppt s) p'"
  by (rule pool_step.work [of 0]) (simp_all add: lone_pool_def)

lemma lone_init: "pool_init 1 = lone_pool W_Loop 1 S_Check"
  by (simp add: pool_init_def lone_pool_def WorkerThread_new_def worker_at_def)

lemma lone_trace:
  "pool_step\<^sup>*\<^sup>* (lone_pool W_Loop 1 S_Check) (lone_pool W_Asleep 0 S_Asleep)"
proof -
  have "pool_step\<^sup>*\<^sup>* (lone_pool W_Loop 1 S_Check) (lone_pool W_Wait 1 S_Check)"
    by (rule r_into_rtranclp, rule lone_work) (simp add: lone_simps)
  also have "pool_step\<^sup>*\<^sup>* \<dots> (lone_pool W_Wait 1 S_Blocked)"
    by (rule r_into_rtranclp, rule pool_step.schedule) (simp add: lone_simps)
  also have "pool_step\<^sup>*\<^sup>* \<dots> (lone_pool W_Dec 0 S_Blocked)"
    by (rule r_into_rtranclp, rule lone_work) (simp add: lone_simps)
  also have "pool_step\<^sup>*\<^sup>* \<dots> (lone_pool W_Signal 0 S_Blocked)"
    by (rule r_into_rtranclp, rule lone_work) (simp add: lone_simps)
  also have "pool_step\<^sup>*\<^sup>* \<dots> (lone_pool W_Sleep 0 S_Blocked)"
    by (rule r_into_rtranclp, rule lone_work) (simp add: lone_simps)
  also have "pool_step\<^sup>*\<^sup>* \<dots> (lone_pool W_Asleep 0 S_Blocked)"
    by (rule r_into_rtranclp, rule lone_work) (simp add: lone_simps)
  also have "pool_step\<^sup>*\<^sup>* \<dots> (lone_pool W_Asleep 0 S_Asleep)"
    by (rule r_into_rtranclp, rule pool_step.schedule) (simp add: lone_simps)
  finally show ?thesis .
qed

lemma lone_idle:
  "pool_step\<^sup>*\<^sup>* (lone_pool W_Loop 1 S_Check) (lone_pool W_Dec 0 S_Idle)"
proof -
  have "pool_step\<^sup>*\<^sup>* (lone_pool W_Loop 1 S_Check) (lone_pool W_Wait 1 S_Check)"
    by (rule r_into_rtranclp, rule lone_work) (simp add: lone_simps)
  also have "pool_step\<^sup>*\<^sup>* \<dots> (lone_pool W_Dec 0 S_Check)"
    by (rule r_into_rtranclp, rule lone_work) (simp add: lone_simps)
  also have "pool_step\<^sup>*\<^sup>* \<dots> (lone_pool W_Dec 0 S_Idle)"
    by (rule r_into_rtranclp, rule pool_step.schedule) (simp add: lone_simps)
  finally show ?thesis .
qed

lemma lone_stuck: "\<not> pool_step (lone_pool W_Asleep 0 S_Asleep) p"
proof
  let ?p = "lone_pool W_Asleep 0 S_Asleep :: 'a pool"
  assume "pool_step ?p p"
  then show False
  proof cases
    case (work i)
    then have "i = 0" by (simp add: lone_pool_def)
    with work show False by (simp add: lone_simps)
  qed (simp_all add: lone_simps)
qed

section \<open>Properties\<close>





text \<open>
  C31. That state is reached: a worker that decrements the count and signals between the
  scheduler's check of the count and its sleep signals in vain, because it does not hold the
  scheduler's mutex; with one worker nothing can move any more.
\<close>

theorem lost_wakeup:
  "\<exists>p :: 'n pool. pool_step\<^sup>*\<^sup>* (pool_init 1) p \<and> sched p = S_Asleep \<and> pending p = 0 \<and> (\<nexists>p'. pool_step p p')"
proof (intro exI conjI)
  show "pool_step\<^sup>*\<^sup>* (pool_init 1) (lone_pool W_Asleep 0 S_Asleep :: 'n pool)"
    unfolding lone_init by (rule lone_trace)
  show "\<nexists>p'. pool_step (lone_pool W_Asleep 0 S_Asleep :: 'n pool) p'" using lone_stuck by blast
qed (simp_all add: lone_pool_def)

end
