(* ===== verification/Level_Scheduler.thy ===== *)
theory Level_Scheduler
  imports Task_Queue
begin

text \<open>
  \<^verbatim>\<open>src/src/structures/Scheduler.cpp\<close> and \<^verbatim>\<open>src/src/structures/Scheduler.hpp\<close>: a tree is
  built level by level; a level that is full is cut into blocks, the blocks go round robin
  into the queues of the workers, and the workers run them. The interleaving of the workers is
  the subject of \<open>Thread_Pool\<close>; here they run one after the other, and the lemmas show that
  the order does not matter as long as running a node changes that node only.
\<close>

section \<open>Scheduling\<close>

text \<open>The threads are represented by their task queues; the scheduler is thread 0.\<close>

record 'n Scheduler =
  sfanout :: nat
  max_levels :: nat
  current_level :: nat
  stree_id :: nat
  levels :: "'n list list"
  queues :: "'n BuildTaskQueue list"

definition Scheduler_new :: "nat \<Rightarrow> nat \<Rightarrow> nat \<Rightarrow> nat \<Rightarrow> 'n Scheduler" where
  "Scheduler_new fo md tree nthr =
     \<lparr>sfanout = fo, max_levels = md, current_level = 0, stree_id = tree, levels = [],
      queues = replicate nthr BuildTaskQueue_new\<rparr>"

definition level_is_full :: "nat \<Rightarrow> 'n Scheduler \<Rightarrow> bool result" where
  "level_is_full level S =
     bindE (read_at (levels S) level) (\<lambda>ns. Inr (sfanout S ^ level = length ns))"

definition get_nodes :: "nat \<Rightarrow> 'n Scheduler \<Rightarrow> 'n list result" where
  "get_nodes level S = read_at (levels S) level"

definition MIN_TASKS_PT :: nat where
  "MIN_TASKS_PT = 8"

definition ntasks :: "nat \<Rightarrow> nat \<Rightarrow> nat" where
  "ntasks task_index n = (if task_index + MIN_TASKS_PT < n + 1 then MIN_TASKS_PT else n - task_index)"

text \<open>The loop that goes round the threads.\<close>

partial_function (option) hand_out ::
  "'n list \<Rightarrow> cunsigned \<Rightarrow> nat \<Rightarrow> 'n BuildTaskQueue list \<Rightarrow> 'n BuildTaskQueue list exec" where
  "hand_out level_nodes tid task_index qs =
     bindX (Some (read_at qs (unat (cval tid)))) (\<lambda>q.
     bindX (enqueue_all 0 (drop task_index level_nodes) (ntasks task_index (length level_nodes)) q) (\<lambda>q.
     if task_index + ntasks task_index (length level_nodes) = length level_nodes
     then Some (Inr (qs[unat (cval tid) := q]))
     else hand_out level_nodes (snd (cunsigned_inc tid))
            (task_index + ntasks task_index (length level_nodes)) (qs[unat (cval tid) := q])))"

fun run_workers ::
  "('n \<Rightarrow> 's \<Rightarrow> 's exec) \<Rightarrow> tid \<Rightarrow> 'n BuildTaskQueue list \<Rightarrow> 's \<Rightarrow> ('n BuildTaskQueue list \<times> 's) exec" where
  "run_workers process t [] s = Some (Inr ([], s))"
| "run_workers process t (q # qs) s =
     bindX (build_loop (dequeue t) process q s) (\<lambda>(q, s).
     bindX (run_workers process (t + 1) qs s) (\<lambda>(qs, s). Some (Inr (q # qs, s))))"

definition run_level ::
  "('n \<Rightarrow> 's \<Rightarrow> 's exec) \<Rightarrow> nat \<Rightarrow> 'n Scheduler \<Rightarrow> 's \<Rightarrow> ('n Scheduler \<times> 's) exec" where
  "run_level process level S s =
     bindX (Some (get_nodes level S)) (\<lambda>level_nodes.
     bindX (Some (guardE (level_nodes \<noteq> []) assert_failure)) (\<lambda>_.
     bindX (Some (cunsigned_new (word_of_nat (length (queues S))))) (\<lambda>tid.
     bindX (hand_out level_nodes tid 0 (queues S)) (\<lambda>qs.
     bindX (run_workers process 1 qs s) (\<lambda>(qs, s). Some (Inr (S\<lparr>queues := qs\<rparr>, s)))))))"

definition place_node :: "'n \<Rightarrow> 'n Scheduler \<Rightarrow> 'n Scheduler" where
  "place_node node S =
     (if current_level S + 1 > length (levels S) then S\<lparr>levels := levels S @ [[node]]\<rparr>
      else S\<lparr>levels := (levels S)[current_level S := levels S ! current_level S @ [node]]\<rparr>)"

definition schedule ::
  "('n \<Rightarrow> 's \<Rightarrow> 's exec) \<Rightarrow> 'n \<Rightarrow> 'n Scheduler \<Rightarrow> 's \<Rightarrow> ('n Scheduler \<times> 's) exec" where
  "schedule process node S s =
     (let S = place_node node S in
      bindX (Some (level_is_full (current_level S) S)) (\<lambda>full.
      if full then run_level process (current_level S) (S\<lparr>current_level := current_level S + 1\<rparr>) s
      else Some (Inr (S, s))))"

declare hand_out.simps [code]

section \<open>Handing out a level\<close>

text \<open>The queues when no thread is using them.\<close>

definition queues_idle :: "'n BuildTaskQueue list \<Rightarrow> bool" where
  "queues_idle qs \<longleftrightarrow> (\<forall>q\<in>set qs. mutex q = None)"

definition queues_content :: "'n BuildTaskQueue list \<Rightarrow> 'n list" where
  "queues_content qs = concat (map tasks qs)"

lemma ntasks_pos: "i < n \<Longrightarrow> 0 < ntasks i n \<and> i + ntasks i n \<le> n"
  by (auto simp: ntasks_def MIN_TASKS_PT_def)

lemma queues_content_update:
  assumes "i < length qs" "tasks q = tasks (qs ! i) @ xs"
  shows "mset (queues_content (qs[i := q])) = mset (queues_content qs) + mset xs"
proof -
  obtain as x bs where "qs = as @ x # bs" "length as = i" by (rule split_at [OF assms(1)])
  with assms(2) show ?thesis by (simp add: queues_content_def list_update_append nth_append)
qed

lemma hand_out_ok:
  assumes "i < length ns" "queues_idle qs" "cunsigned_ok tid" "unat (cmax tid) = length qs"
  shows "\<exists>qs'. hand_out ns tid i qs = Some (Inr qs') \<and> length qs' = length qs \<and> queues_idle qs'
    \<and> mset (queues_content qs') = mset (queues_content qs) + mset (drop i ns)"
  using assms
proof (induction "length ns - i" arbitrary: i tid qs rule: less_induct)
  case less
  let ?t = "unat (cval tid)" and ?n = "ntasks i (length ns)"
  let ?q = "(qs ! ?t)\<lparr>tasks := tasks (qs ! ?t) @ take ?n (drop i ns)\<rparr>"
  have t: "?t < length qs"
    using less.prems(3,4) by (simp add: cunsigned_ok_def word_less_nat_alt)
  have n: "0 < ?n" "i + ?n \<le> length ns" using ntasks_pos [OF less.prems(1)] by simp_all
  have "mutex (qs ! ?t) = None" using less.prems(2) t by (simp add: queues_idle_def)
  then have enq: "enqueue_all 0 (drop i ns) ?n (qs ! ?t) = Some (Inr ?q)"
    using n by (intro enqueue_all_ok) simp_all
  let ?qs = "qs[?t := ?q]"
  have idle: "queues_idle ?qs"
    using less.prems(2) \<open>mutex (qs ! ?t) = None\<close> set_update_subset_insert [of qs ?t ?q]
    by (auto simp: queues_idle_def)
  have content: "mset (queues_content ?qs) = mset (queues_content qs) + mset (take ?n (drop i ns))"
    using t by (intro queues_content_update) simp_all
  show ?case
  proof (cases "i + ?n = length ns")
    case True
    then have "take ?n (drop i ns) = drop i ns" by (intro take_all) simp
    with True t enq idle content show ?thesis by (auto simp: hand_out.simps [of ns tid i])
  next
    case False
    have ok: "cunsigned_ok (snd (cunsigned_inc tid))" using less.prems(3) by (rule cunsigned_inc_ok)
    have "length ns - (i + ?n) < length ns - i" "i + ?n < length ns" using n False by auto
    from less.hyps [OF this idle ok] obtain qs' where
      "hand_out ns (snd (cunsigned_inc tid)) (i + ?n) ?qs = Some (Inr qs')" "length qs' = length qs"
      "queues_idle qs'" "mset (queues_content qs') = mset (queues_content ?qs) + mset (drop (i + ?n) ns)"
      using less.prems(4) by (auto simp: cunsigned_inc_def Let_def)
    moreover have "mset (drop i ns) = mset (take ?n (drop i ns)) + mset (drop (i + ?n) ns)"
      by (metis add.commute append_take_drop_id drop_drop mset_append)
    moreover have "hand_out ns tid i qs = hand_out ns (snd (cunsigned_inc tid)) (i + ?n) ?qs"
      using False t enq by (subst hand_out.simps) simp
    ultimately show ?thesis using content by auto
  qed
qed

section \<open>Running a level\<close>

lemma run_workers_fold:
  assumes "queues_idle qs"
  shows "\<exists>qs'. length qs' = length qs \<and> queues_idle qs' \<and> queues_content qs' = [] \<and>
    run_workers process t qs s = bindX (foldX process (queues_content qs) s) (\<lambda>s. Some (Inr (qs', s)))"
  using assms
proof (induction qs arbitrary: t s)
  case Nil
  show ?case by (rule exI [of _ "[]"]) (simp add: queues_content_def queues_idle_def)
next
  case (Cons q qs)
  from Cons.prems have m: "mutex q = None" and idle: "queues_idle qs" by (simp_all add: queues_idle_def)
  from btq.build_loop_content [OF m, of t process s] obtain q' where
    q': "mutex q' = None" "tasks q' = []"
    "build_loop (dequeue t) process q s = bindX (foldX process (tasks q) s) (\<lambda>s. Some (Inr (q', s)))" by blast
  show ?case
  proof (cases "\<exists>s'. foldX process (tasks q) s = Some (Inr s')")
    case True
    then obtain s' where s': "foldX process (tasks q) s = Some (Inr s')" ..
    from Cons.IH [OF idle, of "t + 1" s'] obtain qs' where
      "length qs' = length qs" "queues_idle qs'" "queues_content qs' = []"
      "run_workers process (t + 1) qs s' = bindX (foldX process (queues_content qs) s') (\<lambda>s. Some (Inr (qs', s)))"
      by blast
    then show ?thesis using q' s'
      by (intro exI [of _ "q' # qs'"])
        (auto simp: queues_content_def queues_idle_def foldX_append bindX_assoc)
  next
    case False
    from Cons.IH [OF idle, of "t + 1" s] obtain qs' :: "'a BuildTaskQueue list" where
      "length qs' = length qs" "queues_idle qs'" "queues_content qs' = []" by blast
    moreover from False consider "foldX process (tasks q) s = None"
      | e where "foldX process (tasks q) s = Some (Inl e)" by (metis option.exhaust sum.exhaust)
    then have "run_workers process t (q # qs) s
        = bindX (foldX process (queues_content (q # qs)) s) (\<lambda>s. Some (Inr (q' # qs', s)))"
      by cases (simp_all add: q'(3) queues_content_def foldX_append)
    ultimately show ?thesis using q'(1,2)
      by (intro exI [of _ "q' # qs'"]) (auto simp: queues_content_def queues_idle_def)
  qed
qed

text \<open>Running a node that reads and writes that node only.\<close>

definition on_node :: "('v \<Rightarrow> 'v result) \<Rightarrow> addr \<Rightarrow> 'v heap \<Rightarrow> 'v heap exec" where
  "on_node f a h = Some (bindE (deref h (Some a)) (\<lambda>n. bindE (f n) (\<lambda>n'. Inr (h(a \<mapsto> n')))))"

definition update_all :: "('v \<Rightarrow> 'v result) \<Rightarrow> addr set \<Rightarrow> 'v heap \<Rightarrow> 'v heap" where
  "update_all f A h = (\<lambda>a. if a \<in> A then Option.bind (h a) (\<lambda>n. Some (projr (f n))) else h a)"

definition runs_on :: "('v \<Rightarrow> 'v result) \<Rightarrow> addr set \<Rightarrow> 'v heap \<Rightarrow> bool" where
  "runs_on f A h \<longleftrightarrow> (\<forall>a\<in>A. \<exists>n n'. h a = Some n \<and> f n = Inr n')"

lemma foldX_on_node:
  assumes "distinct as" "runs_on f (set as) h"
  shows "foldX (on_node f) as h = Some (Inr (update_all f (set as) h))"
  using assms
proof (induction as arbitrary: h)
  case Nil
  show ?case by (simp add: update_all_def)
next
  case (Cons a as)
  from Cons.prems(2) obtain n n' where n: "h a = Some n" "f n = Inr n'" by (auto simp: runs_on_def)
  let ?h = "h(a \<mapsto> n')"
  have "runs_on f (set as) ?h" using Cons.prems by (auto simp: runs_on_def)
  with Cons have "foldX (on_node f) as ?h = Some (Inr (update_all f (set as) ?h))" by simp
  moreover have "update_all f (set as) ?h = update_all f (set (a # as)) h"
    using Cons.prems(1) n by (auto simp: update_all_def fun_eq_iff)
  moreover have "on_node f a h = Some (Inr ?h)" using n by (simp add: on_node_def deref_def)
  ultimately show ?case by simp
qed

definition sched_ok :: "'n Scheduler \<Rightarrow> bool" where
  "sched_ok S \<longleftrightarrow> queues_idle (queues S) \<and> queues_content (queues S) = []
     \<and> 0 < length (queues S) \<and> length (queues S) < 2 ^ 32"

lemma run_level_ok:
  assumes "sched_ok S" "level < length (levels S)" "levels S ! level \<noteq> []"
    and "distinct (levels S ! level)" "runs_on f (set (levels S ! level)) h"
  shows "\<exists>qs. sched_ok (S\<lparr>queues := qs\<rparr>)
    \<and> run_level (on_node f) level S h = Some (Inr (S\<lparr>queues := qs\<rparr>, update_all f (set (levels S ! level)) h))"
proof -
  let ?ns = "levels S ! level" and ?T = "length (queues S)"
  let ?tid = "\<lparr>cval = 0, cmax = word_of_nat ?T\<rparr> :: cunsigned"
  have T: "0 < ?T" "?T < 2 ^ 32" "queues_idle (queues S)" "queues_content (queues S) = []"
    using assms(1) by (simp_all add: sched_ok_def)
  then have u: "unat (word_of_nat ?T :: unsigned) = ?T"
    by (simp add: unsigned_of_nat take_bit_nat_eq_self)
  then have nz: "(word_of_nat ?T :: unsigned) \<noteq> 0" using T(1) by (metis less_not_refl3 unsigned_0)
  then have ok: "cunsigned_ok ?tid" by (simp add: cunsigned_ok_def word_gt_0)
  obtain qs where qs: "hand_out ?ns ?tid 0 (queues S) = Some (Inr qs)" "length qs = ?T" "queues_idle qs"
    "mset (queues_content qs) = mset ?ns"
    using hand_out_ok [OF _ T(3) ok, of 0 ?ns] assms(3) u T(4) by auto
  have d: "distinct (queues_content qs)" "set (queues_content qs) = set ?ns"
    using qs(4) assms(4) mset_eq_imp_distinct_iff mset_eq_setD by blast+
  obtain qs' where qs': "length qs' = ?T" "queues_idle qs'" "queues_content qs' = []"
    "run_workers (on_node f) 1 qs h = bindX (foldX (on_node f) (queues_content qs) h) (\<lambda>s. Some (Inr (qs', s)))"
    using run_workers_fold [OF qs(3), of "on_node f" 1 h] qs(2) by auto
  have "foldX (on_node f) (queues_content qs) h = Some (Inr (update_all f (set ?ns) h))"
    using foldX_on_node [OF d(1)] assms(5) d(2) by simp
  then have "run_level (on_node f) level S h = Some (Inr (S\<lparr>queues := qs'\<rparr>, update_all f (set ?ns) h))"
    using qs' qs(1) nz assms(2,3) by (simp add: run_level_def get_nodes_def cunsigned_new_def)
  then show ?thesis using qs' T by (auto simp: sched_ok_def)
qed

section \<open>Filling the levels\<close>

text \<open>
  The levels below the current one are full; the current one, when it has been started, is not
  empty and not full; no node is there twice.
\<close>

definition lev_ok :: "'n Scheduler \<Rightarrow> bool" where
  "lev_ok S \<longleftrightarrow> sched_ok S \<and> sfanout S = 2 \<and> current_level S \<le> length (levels S)
     \<and> length (levels S) \<le> Suc (current_level S)
     \<and> (\<forall>j<current_level S. length (levels S ! j) = 2 ^ j)
     \<and> (\<forall>ns\<in>set (drop (current_level S) (levels S)). ns \<noteq> [] \<and> length ns < 2 ^ current_level S)
     \<and> distinct (concat (levels S))"

lemma length_full_levels:
  "(\<forall>j<length xss. length (xss ! j) = 2 ^ j) \<Longrightarrow> Suc (length (concat xss)) = 2 ^ length xss"
proof (induction xss rule: rev_induct)
  case (snoc xs xss)
  from snoc.prems have "length xs = 2 ^ length xss"
    by (metis length_append_singleton lessI nth_append_length)
  moreover have "Suc (length (concat xss)) = 2 ^ length xss"
    using snoc.prems by (intro snoc.IH) (metis length_append_singleton less_Suc_eq nth_append)
  ultimately show ?case by simp
qed simp

text \<open>The number of nodes determines the current level.\<close>

lemma lev_ok_length:
  assumes "lev_ok S"
  shows "2 ^ current_level S \<le> Suc (length (concat (levels S)))"
    and "Suc (length (concat (levels S))) < 2 ^ Suc (current_level S)"
proof -
  let ?c = "current_level S"
  have c: "?c \<le> length (levels S)" "length (levels S) \<le> Suc ?c" using assms by (simp_all add: lev_ok_def)
  have "\<forall>j<length (take ?c (levels S)). length (take ?c (levels S) ! j) = 2 ^ j"
    using assms by (simp add: lev_ok_def)
  from length_full_levels [OF this] have full: "Suc (length (concat (take ?c (levels S)))) = 2 ^ ?c"
    using c by simp
  have "length (drop ?c (levels S)) \<le> 1" using c by simp
  then consider "drop ?c (levels S) = []" | ns where "drop ?c (levels S) = [ns]"
    by (cases "drop ?c (levels S)") auto
  then have part: "length (concat (drop ?c (levels S))) < 2 ^ ?c"
    using assms by cases (auto simp: lev_ok_def)
  have "length (concat (levels S)) = length (concat (take ?c (levels S))) + length (concat (drop ?c (levels S)))"
    by (metis append_take_drop_id concat_append length_append)
  with full part show "2 ^ ?c \<le> Suc (length (concat (levels S)))"
    "Suc (length (concat (levels S))) < 2 ^ Suc ?c" by simp_all
qed

text \<open>Putting a node into the current level.\<close>

lemma place_node_levels:
  assumes "lev_ok S"
  shows "\<exists>ns. levels (place_node node S) = take (current_level S) (levels S) @ [ns @ [node]]
    \<and> levels S = take (current_level S) (levels S) @ (if ns = [] then [] else [ns])
    \<and> length ns < 2 ^ current_level S"
proof -
  let ?c = "current_level S"
  have c: "?c \<le> length (levels S)" "length (levels S) \<le> Suc ?c" using assms by (simp_all add: lev_ok_def)
  show ?thesis
  proof (cases "length (levels S) = ?c")
    case True
    then show ?thesis by (intro exI [of _ "[]"]) (simp add: place_node_def)
  next
    case False
    with c have "length (levels S) = Suc ?c" by simp
    then obtain xss ns where l: "levels S = xss @ [ns]" "length xss = ?c"
      by (cases "levels S" rule: rev_cases) auto
    then have "ns \<noteq> []" "length ns < 2 ^ ?c" using assms by (auto simp: lev_ok_def)
    then show ?thesis using l
      by (intro exI [of _ ns]) (simp add: place_node_def list_update_append nth_append)
  qed
qed

lemma place_node_same:
  "current_level (place_node node S) = current_level S" "queues (place_node node S) = queues S"
  "sfanout (place_node node S) = sfanout S"
  by (simp_all add: place_node_def)

lemma schedule_ok:
  assumes ok: "lev_ok S" and new: "node \<notin> set (concat (levels S))"
    and runs: "runs_on f (insert node (set (concat (drop (current_level S) (levels S))))) h"
  shows "\<exists>S' A. schedule (on_node f) node S h = Some (Inr (S', update_all f A h)) \<and> lev_ok S'
    \<and> mset (concat (levels S')) = add_mset node (mset (concat (levels S)))
    \<and> (\<exists>ns. levels S' = take (current_level S) (levels S) @ [ns @ [node]]
        \<and> concat (drop (current_level S) (levels S)) = ns
        \<and> (current_level S' = current_level S \<and> A = {}
          \<or> current_level S' = Suc (current_level S) \<and> A = set (ns @ [node])))"
proof -
  let ?c = "current_level S" and ?S = "place_node node S"
  let ?xss = "take ?c (levels S)"
  obtain ns where l: "levels ?S = ?xss @ [ns @ [node]]" "levels S = ?xss @ (if ns = [] then [] else [ns])"
    "length ns < 2 ^ ?c" using place_node_levels [OF ok] by blast
  have c: "length ?xss = ?c" using ok by (simp add: lev_ok_def)
  have dr: "concat (drop ?c (levels S)) = ns"
    using c by (subst l(2)) (simp split: if_splits)
  have cs: "concat (levels S) = concat ?xss @ ns" by (subst l(2)) simp
  have dist: "distinct (concat ?xss @ ns @ [node])"
    using ok new cs by (auto simp: lev_ok_def)
  have fl: "\<forall>j<?c. length (levels S ! j) = 2 ^ j" and so: "sched_ok S" "sfanout S = 2"
    using ok by (simp_all add: lev_ok_def)
  have full: "level_is_full ?c ?S = Inr (2 ^ ?c = Suc (length ns))"
    using c so by (simp add: level_is_full_def place_node_same l(1) nth_append)
  have nth: "j < ?c \<Longrightarrow> levels ?S ! j = levels S ! j" for j
    using c by (simp add: l(1) nth_append)
  have ms: "mset (concat (levels ?S)) = add_mset node (mset (concat (levels S)))"
    by (simp add: l(1) cs)
  show ?thesis
  proof (cases "2 ^ ?c = Suc (length ns)")
    case False
    then have "schedule (on_node f) node S h = Some (Inr (?S, update_all f {} h))"
      by (simp add: schedule_def Let_def place_node_same full update_all_def)
    moreover have "lev_ok ?S"
      using so c fl nth dist l(3) False unfolding lev_ok_def sched_ok_def place_node_same
      by (auto simp: l(1))
    ultimately show ?thesis using ms l(1) dr place_node_same(1) [of node S] by blast
  next
    case True
    let ?S1 = "?S\<lparr>current_level := Suc ?c\<rparr>"
    have lv: "levels ?S1 ! ?c = ns @ [node]" "?c < length (levels ?S1)" using c by (simp_all add: l(1) nth_append)
    have "sched_ok ?S1" using so by (simp add: sched_ok_def place_node_same)
    moreover have "runs_on f (set (ns @ [node])) h" using runs dr by (auto simp: runs_on_def)
    ultimately obtain qs where qs: "sched_ok (?S1\<lparr>queues := qs\<rparr>)"
      "run_level (on_node f) ?c ?S1 h = Some (Inr (?S1\<lparr>queues := qs\<rparr>, update_all f (set (ns @ [node])) h))"
      using run_level_ok [of ?S1 ?c f h] lv dist by auto
    then have "schedule (on_node f) node S h = Some (Inr (?S1\<lparr>queues := qs\<rparr>, update_all f (set (ns @ [node])) h))"
      by (simp add: schedule_def Let_def place_node_same full True)
    moreover have "lev_ok (?S1\<lparr>queues := qs\<rparr>)"
      using qs(1) so c fl nth dist True by (auto simp: lev_ok_def place_node_same l(1) less_Suc_eq nth_append)
    ultimately show ?thesis using ms l(1) dr
      by (intro exI [of _ "?S1\<lparr>queues := qs\<rparr>"] exI [of _ "set (ns @ [node])"]) simp
  qed
qed

section \<open>Any number of threads\<close>



end
