(* ===== verification/Node_View.thy ===== *)
theory Node_View
  imports Matrix_IO Binary_Tree
begin

text \<open>
  \<^verbatim>\<open>src/src/structures/NodeView.cpp\<close>, \<^verbatim>\<open>src/src/structures/NodeView.hpp\<close>,
  \<^verbatim>\<open>src/src/structures/SampleVector.hpp\<close> and \<^verbatim>\<open>src/src/structures/Stack.hpp\<close>: what a
  node of a tree program knows of the data, and two small containers. The record extends that
  of \<^verbatim>\<open>BinaryNode\<close>. The matrices live in a heap of their own, \<open>ios\<close>, to which the
  nodes hold pointers. The parent pointer of \<^verbatim>\<open>NodeView\<close> is another field than that of
  \<^verbatim>\<open>BinaryNode\<close>, which hides it.
\<close>

section \<open>Nodes\<close>

record 'd NodeView = "'d BinaryNode" +
  data_index :: "'d IndexVector"
  req_indxs :: "sample_id_t list"
  ndepth :: nat
  ioer :: ptr
  nv_parent :: ptr

text \<open>The comparator is not initialised; \<open>g\<close> is what the memory holds.\<close>

definition NodeView_new :: "'d \<Rightarrow> 'd NodeView" where
  "NodeView_new g = \<lparr>comparator = g, bparent = None, bleft = None, bright = None,
     data_index = IndexVector_new, req_indxs = [], ndepth = 0, ioer = None, nv_parent = None\<rparr>"

definition NodeView_of_val :: "'d \<Rightarrow> 'd NodeView" where
  "NodeView_of_val val = (NodeView_new val)\<lparr>comparator := val\<rparr>"

definition NodeView_of_index :: "'d \<Rightarrow> 'd IndexVector \<Rightarrow> 'd NodeView" where
  "NodeView_of_index g di = (NodeView_new g)\<lparr>data_index := di\<rparr>"

function index_range :: "sample_id_t \<Rightarrow> sample_id_t \<Rightarrow> sample_id_t list \<Rightarrow> sample_id_t list" where
  "index_range idx stop_idx acc =
     (if idx < stop_idx then index_range (idx + 1) stop_idx (acc @ [idx]) else acc)"
  by pat_completeness auto
termination
proof (relation "measure (\<lambda>(idx, stop_idx, acc). unat stop_idx - unat idx)")
  fix idx stop_idx :: sample_id_t and acc :: "sample_id_t list"
  assume lt: "idx < stop_idx"
  then have "idx \<noteq> - 1" by (metis word_n1_ge linorder_not_le)
  then have "unat (idx + 1) = Suc (unat idx)" by (rule unat_Suc_word)
  with lt show "((idx + 1, stop_idx, acc @ [idx]), (idx, stop_idx, acc))
      \<in> measure (\<lambda>(idx, stop_idx, acc). unat stop_idx - unat idx)"
    by (simp add: word_less_nat_alt)
qed simp

declare index_range.simps [simp del]

definition set_index_range ::
  "sample_id_t \<Rightarrow> sample_id_t \<Rightarrow> ('d, 'z) NodeView_scheme \<Rightarrow> ('d, 'z) NodeView_scheme" where
  "set_index_range start_idx stop_idx n = n\<lparr>req_indxs := index_range start_idx stop_idx (req_indxs n)\<rparr>"

definition set_index_vec :: "sample_id_t list \<Rightarrow> ('d, 'z) NodeView_scheme \<Rightarrow> ('d, 'z) NodeView_scheme" where
  "set_index_vec indxs n = n\<lparr>req_indxs := indxs\<rparr>"

definition set_index_arr :: "sample_id_t list \<Rightarrow> ('d, 'z) NodeView_scheme \<Rightarrow> ('d, 'z) NodeView_scheme" where
  "set_index_arr indxs n = n\<lparr>req_indxs := indxs @ req_indxs n\<rparr>"

definition set_index :: "sample_id_t \<Rightarrow> ('d, 'z) NodeView_scheme \<Rightarrow> ('d, 'z) NodeView_scheme" where
  "set_index index n =
     n\<lparr>req_indxs := (if req_indxs n \<noteq> [] then [] else req_indxs n) @ [index]\<rparr>"

definition set_ph_data_index ::
  "sample_id_t list \<Rightarrow> ('d::zero, 'z) NodeView_scheme \<Rightarrow> ('d, 'z) NodeView_scheme" where
  "set_ph_data_index indxs n = n\<lparr>data_index := set_indexes_ids indxs (data_index n)\<rparr>"

definition data_index_append ::
  "sample_id_t \<Rightarrow> 'd \<Rightarrow> ('d, 'z) NodeView_scheme \<Rightarrow> ('d, 'z) NodeView_scheme" where
  "data_index_append idx val n = n\<lparr>data_index := IndexVector_append (IndexVal idx val) (data_index n)\<rparr>"

definition set_ioer :: "ptr \<Rightarrow> ('d, 'z) NodeView_scheme \<Rightarrow> ('d, 'z) NodeView_scheme" where
  "set_ioer io n = n\<lparr>ioer := io\<rparr>"

definition get_ioer :: "('d, 'z) NodeView_scheme \<Rightarrow> ptr result" where
  "get_ioer n = (if ioer n \<noteq> None then Inr (ioer n) else Inl assert_failure)"

definition set_depth :: "nat \<Rightarrow> ('d, 'z) NodeView_scheme \<Rightarrow> ('d, 'z) NodeView_scheme" where
  "set_depth dep n = n\<lparr>ndepth := dep\<rparr>"

text \<open>The loop of \<^verbatim>\<open>prep\<close> over the items of the index.\<close>

fun set_vals :: "'d list \<Rightarrow> 'd IndexVal list \<Rightarrow> 'd IndexVal list result" where
  "set_vals ret [] = Inr []"
| "set_vals ret (iv # ivs) =
     bindE (read_at ret (unat (get_index iv))) (\<lambda>x.
     bindE (set_vals ret ivs) (\<lambda>ivs. Inr (IndexVal (get_index iv) x # ivs)))"

definition prep ::
  "'d MemoryIO heap \<Rightarrow> ('d, 'z) NodeView_scheme \<Rightarrow> ('d, 'z) NodeView_scheme result" where
  "prep ios n =
     bindE (guardE (length (req_indxs n) = 1) assert_failure) (\<lambda>_.
     bindE (deref ios (ioer n)) (\<lambda>m.
     bindE (mio_get_col (unat (hd (req_indxs n))) m) (\<lambda>ret.
     if items (data_index n) = []
     then if fst (mio_dim m) \<le> length ret
          then Inr (n\<lparr>data_index := set_indexes_vals (take (fst (mio_dim m)) ret) (data_index n)\<rparr>)
          else Inl undefined_behaviour
     else bindE (set_vals ret (items (data_index n))) (\<lambda>ivs.
          Inr (n\<lparr>data_index := (data_index n)\<lparr>items := ivs\<rparr>\<rparr>)))))"

text \<open>Both sorts compare the values; the flag of the index is not touched.\<close>

definition sort_data_index ::
  "bool \<Rightarrow> ('d::linorder, 'z) NodeView_scheme \<Rightarrow> ('d, 'z) NodeView_scheme" where
  "sort_data_index par n =
     n\<lparr>data_index := (data_index n)\<lparr>items := sort_key get_val (items (data_index n))\<rparr>\<rparr>"

definition set_comparator :: "'d \<Rightarrow> ('d, 'z) NodeView_scheme \<Rightarrow> ('d, 'z) NodeView_scheme" where
  "set_comparator c n = n\<lparr>comparator := c\<rparr>"

definition nv_eq :: "('d, 'z) NodeView_scheme \<Rightarrow> ('d, 'z) NodeView_scheme \<Rightarrow> bool" where
  "nv_eq a b \<longleftrightarrow> comparator a = comparator b"

definition nv_less :: "('d::linorder, 'z) NodeView_scheme \<Rightarrow> ('d, 'z) NodeView_scheme \<Rightarrow> bool" where
  "nv_less a b \<longleftrightarrow> comparator a < comparator b"

definition nv_greater :: "('d::linorder, 'z) NodeView_scheme \<Rightarrow> ('d, 'z) NodeView_scheme \<Rightarrow> bool" where
  "nv_greater a b \<longleftrightarrow> comparator a > comparator b"

definition nv_less_eq :: "('d::linorder, 'z) NodeView_scheme \<Rightarrow> ('d, 'z) NodeView_scheme \<Rightarrow> bool" where
  "nv_less_eq a b \<longleftrightarrow> \<not> nv_greater a b"

definition is_root :: "('d, 'z) NodeView_scheme \<Rightarrow> bool" where
  "is_root n \<longleftrightarrow> ndepth n = 0"

text \<open>
  \<^verbatim>\<open>bestow\<close> on the child \<open>c\<close> of the node \<open>n\<close> at address \<open>a\<close>; of its assertions
  the one on the matrix can fail.
\<close>

definition bestow ::
  "addr \<Rightarrow> ('d, 'z) NodeView_scheme \<Rightarrow> ('d, 'z) NodeView_scheme \<Rightarrow> ('d, 'z) NodeView_scheme result" where
  "bestow a n c =
     (let c = set_depth (ndepth n + 1) (set_ioer (ioer n) (c\<lparr>nv_parent := Some a\<rparr>))
      in bindE (get_ioer c) (\<lambda>_. bindE (guardE (ndepth c > 0) assert_failure) (\<lambda>_. Inr c)))"

section \<open>Containers\<close>

record 'd DenseVector =
  dv_data :: "'d list"

definition DenseVector_populate :: "'d list \<Rightarrow> nat \<Rightarrow> 'd DenseVector \<Rightarrow> 'd DenseVector result" where
  "DenseVector_populate data nelem v =
     (if nelem \<le> length data then Inr (v\<lparr>dv_data := take nelem data\<rparr>) else Inl undefined_behaviour)"

definition DenseVector_of :: "'d list \<Rightarrow> nat \<Rightarrow> 'd DenseVector result" where
  "DenseVector_of data nelem = DenseVector_populate data nelem \<lparr>dv_data = []\<rparr>"

definition DenseVector_nth :: "'d DenseVector \<Rightarrow> nat \<Rightarrow> 'd result" where
  "DenseVector_nth v idx = read_at (dv_data v) idx"

definition DenseVector_empty :: "'d DenseVector \<Rightarrow> bool" where
  "DenseVector_empty v \<longleftrightarrow> dv_data v = []"

text \<open>The last element of the vector is the top of the stack.\<close>

definition stack_push :: "'a \<Rightarrow> 'a list \<Rightarrow> 'a list" where
  "stack_push x s = s @ [x]"

definition stack_pop :: "'a list \<Rightarrow> ('a \<times> 'a list) result" where
  "stack_pop s = (if s = [] then Inl undefined_behaviour else Inr (last s, butlast s))"

lemma stack_pop_push [simp]: "stack_pop (stack_push x s) = Inr (x, s)"
  by (simp add: stack_pop_def stack_push_def)

section \<open>What the operations do\<close>

lemma set_vals_ok:
  assumes "\<forall>iv\<in>set ivs. unat (get_index iv) < length ret"
  shows "set_vals ret ivs = Inr (map (\<lambda>iv. IndexVal (get_index iv) (ret ! unat (get_index iv))) ivs)"
  using assms by (induction ivs) simp_all

text \<open>The identifiers of the samples a node holds.\<close>

definition ids :: "('d, 'z) NodeView_scheme \<Rightarrow> sample_id_t list" where
  "ids n = map get_index (items (data_index n))"

definition all_ids :: "nat \<Rightarrow> sample_id_t list" where
  "all_ids n = map word_of_nat [0..<n]"

lemma ids_sort: "mset (ids (sort_data_index par n)) = mset (ids n)"
  by (simp add: ids_def sort_data_index_def)

lemma prep_ok:
  assumes m: "ios io = Some m" "mio_ok m" "mio_dim m = (r, c)"
    and n: "ioer n = Some io" "req_indxs n = [w]" "unat w < c" "\<forall>i\<in>set (ids n). unat i < r"
  shows "\<exists>di. prep ios n = Inr (n\<lparr>data_index := di\<rparr>)
    \<and> map get_index (items di) = (if items (data_index n) = [] then all_ids r else ids n)
    \<and> (r < 2 ^ 32 \<longrightarrow> (\<forall>iv\<in>set (items di). get_val iv = mio_entry m (unat (get_index iv)) (unat w)))"
proof -
  obtain buf where buf: "mio_get_col (unat w) m = Inr buf"
    "take r buf = map (\<lambda>i. mio_entry m i (unat w)) [0..<r]"
    by (rule mio_get_col_ok [OF m(2), of "unat w"]) (use m(3) n(3) in auto)
  have len: "r \<le> length buf" using arg_cong [OF buf(2), of length] by simp
  have nth: "buf ! i = mio_entry m i (unat w)" if "i < r" for i
    using arg_cong [OF buf(2), of "\<lambda>l. l ! i"] that by simp
  show ?thesis
  proof (cases "items (data_index n) = []")
    case True
    have p: "prep ios n = Inr (n\<lparr>data_index := (data_index n)\<lparr>items := index_from 0 (take r buf)\<rparr>\<rparr>)"
      using m n buf(1) len True by (simp add: prep_def deref_def set_indexes_vals_def)
    have "get_val iv = mio_entry m (unat (get_index iv)) (unat w)"
      if "r < 2 ^ 32" and iv: "iv \<in> set (index_from 0 (take r buf))" for iv
    proof -
      from iv len obtain i where i: "i < r" "iv = IndexVal (word_of_nat i) (take r buf ! i)"
        by (auto simp: in_set_conv_nth nth_index_from)
      with that(1) nth show ?thesis by (simp add: unsigned_of_nat take_bit_nat_eq_self)
    qed
    with p True len show ?thesis by (auto simp: map_get_index_index_from all_ids_def)
  next
    case False
    have lt: "\<forall>iv\<in>set (items (data_index n)). unat (get_index iv) < length buf"
      using n(4) len by (auto simp: ids_def)
    have "prep ios n = Inr (n\<lparr>data_index := (data_index n)\<lparr>items :=
        map (\<lambda>iv. IndexVal (get_index iv) (buf ! unat (get_index iv))) (items (data_index n))\<rparr>\<rparr>)"
      using m n buf(1) False by (simp add: prep_def deref_def set_vals_ok [OF lt])
    then show ?thesis using False n(4) nth
      by (intro exI [of _ "(data_index n)\<lparr>items :=
          map (\<lambda>iv. IndexVal (get_index iv) (buf ! unat (get_index iv))) (items (data_index n))\<rparr>"])
        (auto simp: ids_def)
  qed
qed

end
