(* ===== verification/KD_Tree.thy ===== *)
theory KD_Tree
  imports Knn_Validate Level_Scheduler Node_View
begin

text \<open>
  \<^verbatim>\<open>src/src/examples/kdtree.cpp\<close>, \<^verbatim>\<open>src/src/BinaryTreeProgram.hpp\<close>,
  \<^verbatim>\<open>src/src/structures/Query.cpp\<close> and \<^verbatim>\<open>src/src/ComputeEngine.hpp\<close>: k-d trees that
  are built level by level by a scheduler and searched for the nearest neighbours of a query.
  A program owns a heap of nodes, in which \<open>next_addr\<close> is the next free address; what a new
  node's memory holds is given by \<open>g\<close> (the comparator) and \<open>gd\<close> (the split dimension).
\<close>

section \<open>Nodes\<close>

record 'd kdnode = "'d NodeView" +
  split_dim :: nat

definition kdnode_new :: "'d \<Rightarrow> nat \<Rightarrow> 'd kdnode" where
  "kdnode_new g gd = NodeView.extend (NodeView_new g) \<lparr>split_dim = gd\<rparr>"

definition set_split_dim :: "nat \<Rightarrow> 'd kdnode \<Rightarrow> 'd kdnode" where
  "set_split_dim sd n = n\<lparr>split_dim := sd\<rparr>"

definition kd_distance ::
  "'d fops \<Rightarrow> 'd MemoryIO heap \<Rightarrow> 'd list \<Rightarrow> sample_id_t \<Rightarrow> 'd kdnode \<Rightarrow> 'd result" where
  "kd_distance F ios s1 idx n =
     bindE (deref ios (ioer n)) (\<lambda>m.
     bindE (mio_get_row (unat idx) m) (\<lambda>member. euclidean F s1 member (length s1)))"

text \<open>A child gets its split dimension and its share of the samples.\<close>

definition kd_child :: "nat \<Rightarrow> sample_id_t list \<Rightarrow> 'd::zero kdnode \<Rightarrow> 'd kdnode" where
  "kd_child next_split indxs c =
     set_ph_data_index indxs (set_index (word_of_nat next_split) (set_split_dim next_split c))"

definition kd_spawn ::
  "'d \<Rightarrow> nat \<Rightarrow> 'd::zero MemoryIO heap \<Rightarrow> addr \<Rightarrow> 'd kdnode heap \<times> addr \<Rightarrow> ('d kdnode heap \<times> addr) result" where
  "kd_spawn g gd ios a = (\<lambda>(h, nxt).
     bindE (deref h (Some a)) (\<lambda>n.
     bindE (bestow a n (kdnode_new g gd)) (\<lambda>l.
     bindE (bestow a n (kdnode_new g gd)) (\<lambda>r.
     bindE (deref ios (ioer n)) (\<lambda>m.
     let next_split = (if split_dim n + 1 = snd (mio_dim m) then 0 else split_dim n + 1) in
     bindE (get_indexes (data_index n) []) (\<lambda>idxs.
     let offset = length (items (data_index n)) div 2 in
     bindE (guardE (length idxs = length (items (data_index n))) assert_failure) (\<lambda>_.
     bindE (guardE (idxs \<noteq> []) undefined_behaviour) (\<lambda>_.
     Inr (h(a \<mapsto> n\<lparr>bleft := Some nxt, bright := Some (nxt + 1)\<rparr>,
            nxt \<mapsto> kd_child next_split (take offset idxs) l,
            nxt + 1 \<mapsto> kd_child next_split (drop offset idxs) r),
          nxt + 2)))))))))"

definition kd_run :: "'d::linorder kdnode \<Rightarrow> 'd kdnode result" where
  "kd_run n =
     (let n = sort_data_index (ndepth n < 3) n in
      bindE (IndexVector_nth (data_index n) (length (items (data_index n)) div 2)) (\<lambda>iv.
      Inr (set_comparator (get_val iv) n)))"

text \<open>What a worker does with a node: \<^verbatim>\<open>prep\<close>, then \<^verbatim>\<open>run\<close>.\<close>

definition kd_process :: "'d::linorder MemoryIO heap \<Rightarrow> 'd kdnode \<Rightarrow> 'd kdnode result" where
  "kd_process ios n = bindE (prep ios n) kd_run"

section \<open>The tree program\<close>

record 'd kdTreeProgram = "'d kdnode BinaryTree" +
  next_addr :: addr
  tree_id :: nat
  prog_ioer :: ptr
  prog_max_depth :: nat
  scheduler :: "addr Scheduler"
  completed :: "addr set"

text \<open>
  The constructor: the matrix is the singleton of the factory, configured by the first program;
  the worker threads are shared out over the trees.
\<close>

definition program_io ::
  "file_system \<Rightarrow> (32 word \<Rightarrow> 'd) \<Rightarrow> 'd \<Rightarrow> 32 word \<Rightarrow> Params \<Rightarrow> 'd MemoryIO option \<Rightarrow> unit result \<times> 'd IO option" where
  "program_io files of_bits g g_dim par singleton =
     (case IOfactory_create (iotype par) singleton of
        Inl e \<Rightarrow> (Inl e, None)
      | Inr io \<Rightarrow>
     (case io_set_fn files (fn par) io of
        Inl e \<Rightarrow> (Inl e, Some io)
      | Inr io \<Rightarrow>
     (case io_shape (nsamples par, nfeatures par) (io_set_orientation (orientation par) io) of
        Memory m \<Rightarrow> (let (r, m) = from_file files of_bits g g_dim m in (r, Some (Memory m)))
      | Sync s \<Rightarrow> (Inr (), Some (Sync s)))))"

definition BinaryTreeProgram_new :: "Params \<Rightarrow> nat \<Rightarrow> ptr \<Rightarrow> 'd kdTreeProgram result" where
  "BinaryTreeProgram_new par tid io =
     bindE (guardE (fanout par = 2) assert_failure) (\<lambda>_.
     bindE (guardE (ntree par \<noteq> 0) undefined_behaviour) (\<lambda>_.
     Inr \<lparr>nodes = Map.empty, root = None, depth = 0, next_addr = 0, tree_id = tid, prog_ioer = io,
          prog_max_depth = max_depth par,
          scheduler = Scheduler_new (fanout par) (max_depth par) tid (max 1 (nthread par div ntree par)),
          completed = {}\<rparr>))"

definition prog_set_root :: "ptr \<Rightarrow> 'd::linorder kdTreeProgram \<Rightarrow> 'd kdTreeProgram exec" where
  "prog_set_root node st =
     (if node = None \<or> prog_ioer st = None then Some (Inl assert_failure)
      else bindX (Some (mutate (set_ioer (prog_ioer st)) node (nodes st))) (\<lambda>h.
           bindX (BinaryTree_set_root node (BinaryTree.truncate (st\<lparr>nodes := h\<rparr>))) (\<lambda>bt.
           Some (Inr (st\<lparr>nodes := nodes bt, root := root bt, depth := depth bt\<rparr>)))))"

definition descend_level :: "'d kdTreeProgram \<Rightarrow> 'd kdTreeProgram" where
  "descend_level st = st\<lparr>depth := depth st + 1\<rparr>"

definition prog_schedule ::
  "'d::linorder MemoryIO heap \<Rightarrow> addr \<Rightarrow> 'd kdTreeProgram \<Rightarrow> 'd kdTreeProgram exec" where
  "prog_schedule ios node st =
     bindX (schedule (on_node (kd_process ios)) node (scheduler st) (nodes st)) (\<lambda>(S, h).
     Some (Inr (st\<lparr>scheduler := S, nodes := h\<rparr>)))"

text \<open>The two loops over the nodes of the level that was processed last.\<close>

definition spawn_one ::
  "'d \<Rightarrow> nat \<Rightarrow> 'd::{linorder,zero} MemoryIO heap \<Rightarrow> addr \<Rightarrow> 'd kdTreeProgram \<times> bool \<Rightarrow> ('d kdTreeProgram \<times> bool) exec" where
  "spawn_one g gd ios a = (\<lambda>(st, one_spawned).
     bindX (Some (deref (nodes st) (Some a))) (\<lambda>n.
     if ndepth n < prog_max_depth st \<and> length (items (data_index n)) > 1
     then bindX (Some (kd_spawn g gd ios a (nodes st, next_addr st))) (\<lambda>(h, nxt).
          Some (Inr (st\<lparr>nodes := h, next_addr := nxt\<rparr>, True)))
     else Some (Inr (st, one_spawned))))"

definition schedule_ptr ::
  "'d::linorder MemoryIO heap \<Rightarrow> ptr \<Rightarrow> 'd kdTreeProgram \<Rightarrow> 'd kdTreeProgram exec" where
  "schedule_ptr ios p st = (case p of None \<Rightarrow> Some (Inr st) | Some a \<Rightarrow> prog_schedule ios a st)"

definition schedule_children ::
  "'d::linorder MemoryIO heap \<Rightarrow> addr \<Rightarrow> 'd kdTreeProgram \<Rightarrow> 'd kdTreeProgram exec" where
  "schedule_children ios a st =
     bindX (Some (deref (nodes st) (Some a))) (\<lambda>n.
     bindX (schedule_ptr ios (bleft n) st) (\<lambda>st.
     bindX (Some (deref (nodes st) (Some a))) (\<lambda>n. schedule_ptr ios (bright n) st)))"

partial_function (option) build_levels ::
  "'d \<Rightarrow> nat \<Rightarrow> 'd::{linorder,zero} MemoryIO heap \<Rightarrow> 'd kdTreeProgram \<Rightarrow> 'd kdTreeProgram exec" where
  "build_levels g gd ios st =
     bindX (Some (guardE (current_level (scheduler st) - 1 \<le> prog_max_depth st) assert_failure)) (\<lambda>_.
     bindX (Some (get_nodes (current_level (scheduler st) - 1) (scheduler st))) (\<lambda>procd_nodes.
     bindX (foldX (spawn_one g gd ios) procd_nodes (st, False)) (\<lambda>r.
     if current_level (scheduler st) - 1 = prog_max_depth st \<or> \<not> snd r then Some (Inr (fst r))
     else bindX (foldX (schedule_children ios) procd_nodes (fst r)) (build_levels g gd ios))))"

definition build ::
  "'d \<Rightarrow> nat \<Rightarrow> 'd::{linorder,zero} MemoryIO heap \<Rightarrow> 'd kdTreeProgram \<Rightarrow> 'd kdTreeProgram exec" where
  "build g gd ios st =
     (case root st of
        None \<Rightarrow> Some (Inl assert_failure)
      | Some a \<Rightarrow> bindX (prog_schedule ios a st) (build_levels g gd ios))"

section \<open>Queries\<close>

record 'd ProximityQuery =
  pk :: "16 word"
  qsample :: "'d DenseVector"
  pq_ntree :: nat
  result :: "'d NNVector list"

text \<open>The number of neighbours is a \<^verbatim>\<open>short\<close> that becomes an unsigned number.\<close>

definition ProximityQuery_new :: "'d \<Rightarrow> 'd DenseVector \<Rightarrow> 16 word \<Rightarrow> nat \<Rightarrow> 'd ProximityQuery" where
  "ProximityQuery_new fmax s kk nt =
     \<lparr>pk = kk, qsample = s, pq_ntree = nt, result = replicate nt (NNVector_new fmax (scast kk))\<rparr>"

definition query_eval ::
  "sample_id_t \<Rightarrow> 'd::linorder \<Rightarrow> nat \<Rightarrow> 'd ProximityQuery \<Rightarrow> 'd ProximityQuery exec" where
  "query_eval i dst tid q =
     bindX (Some (read_at (result q) tid)) (\<lambda>v.
     bindX (NNVector_eval (IndexVal i dst) v) (\<lambda>v. Some (Inr (q\<lparr>result := (result q)[tid := v]\<rparr>))))"

text \<open>The way down to the leaf of the query.\<close>

partial_function (option) descend ::
  "'d::linorder kdnode heap \<Rightarrow> 'd DenseVector \<Rightarrow> ptr \<Rightarrow> addr list \<Rightarrow> addr list exec" where
  "descend h s node visited =
     bindX (Some (deref h node)) (\<lambda>n.
     bindX (Some (DenseVector_nth s (split_dim n))) (\<lambda>x.
     let node' = (if x > comparator n then bright n else bleft n)
     in if node' = None then Some (Inr (stack_push (the node) visited))
        else descend h s node' (stack_push (the node) visited)))"

text \<open>The samples of a leaf.\<close>

definition eval_leaf ::
  "'d::linorder fops \<Rightarrow> 'd MemoryIO heap \<Rightarrow> nat \<Rightarrow> 'd kdnode \<Rightarrow> 'd ProximityQuery \<Rightarrow> 'd ProximityQuery exec" where
  "eval_leaf F ios tid n q =
     foldX (\<lambda>iv q. bindX (Some (kd_distance F ios (dv_data (qsample q)) (get_index iv) n)) (\<lambda>dst.
        query_eval (get_index iv) dst tid q)) (items (data_index n)) q"

text \<open>A child that is not complete is pushed; its comparator is printed, which needs the child.\<close>

definition push_child :: "'d kdnode heap \<Rightarrow> addr set \<Rightarrow> ptr \<Rightarrow> addr list \<Rightarrow> addr list result" where
  "push_child h compl p visited =
     (if p \<in> Some ` compl then Inr visited
      else bindE (deref h p) (\<lambda>_. Inr (stack_push (the p) visited)))"

definition visit_node ::
  "'d::linorder fops \<Rightarrow> 'd MemoryIO heap \<Rightarrow> 'd kdnode heap \<Rightarrow> nat \<Rightarrow> addr list \<times> addr set \<times> 'd ProximityQuery
    \<Rightarrow> (addr list \<times> addr set \<times> 'd ProximityQuery) exec" where
  "visit_node F ios h tid = (\<lambda>(visited, compl, q).
     bindX (Some (stack_pop visited)) (\<lambda>(a, visited).
     bindX (Some (deref h (Some a))) (\<lambda>n.
     if \<not> has_child n
     then bindX (eval_leaf F ios tid n q) (\<lambda>q. Some (Inr (visited, insert a compl, q)))
     else bindX (Some (push_child h compl (bleft n) visited)) (\<lambda>visited.
          bindX (Some (push_child h compl (bright n) visited)) (\<lambda>visited.
          Some (Inr (visited, insert a compl, q)))))))"

partial_function (option) visit_loop ::
  "'d::linorder fops \<Rightarrow> 'd MemoryIO heap \<Rightarrow> 'd kdnode heap \<Rightarrow> nat \<Rightarrow> addr list \<times> addr set \<times> 'd ProximityQuery
    \<Rightarrow> (addr set \<times> 'd ProximityQuery) exec" where
  "visit_loop F ios h tid s =
     (if fst s = [] then Some (Inr (snd s))
      else bindX (visit_node F ios h tid s) (visit_loop F ios h tid))"

definition find_neighbors ::
  "'d::linorder fops \<Rightarrow> 'd MemoryIO heap \<Rightarrow> 'd ProximityQuery \<Rightarrow> 'd kdTreeProgram
    \<Rightarrow> ('d ProximityQuery \<times> 'd kdTreeProgram) exec" where
  "find_neighbors F ios q st =
     bindX (descend (nodes st) (qsample q) (root st) []) (\<lambda>visited.
     bindX (visit_loop F ios (nodes st) (tree_id st) (visited, {}, q)) (\<lambda>(compl, q).
     Some (Inr (q, st\<lparr>completed := compl\<rparr>))))"

definition query_run ::
  "'d::linorder fops \<Rightarrow> 'd MemoryIO heap \<Rightarrow> 'd kdTreeProgram \<Rightarrow> 'd ProximityQuery
    \<Rightarrow> ('d ProximityQuery \<times> 'd kdTreeProgram) exec" where
  "query_run F ios st q =
     (if DenseVector_empty (qsample q) then Some (Inl assert_failure) else find_neighbors F ios q st)"

declare build_levels.simps [code] descend.simps [code] visit_loop.simps [code]

section \<open>Single nodes\<close>

text \<open>A matrix of \<open>r\<close> samples and \<open>c\<close> features at address \<open>io\<close>.\<close>

definition io_ok :: "'d MemoryIO heap \<Rightarrow> addr \<Rightarrow> nat \<Rightarrow> nat \<Rightarrow> bool" where
  "io_ok ios io r c \<longleftrightarrow>
     (case ios io of None \<Rightarrow> False | Some m \<Rightarrow> mio_ok m \<and> mio_dim m = (r, c)) \<and> 0 < r \<and> r < 2 ^ 32 \<and> 0 < c \<and> c < 2 ^ 32"

text \<open>A node that can be run: it asks for one feature and holds samples that exist.\<close>

definition kd_good :: "addr \<Rightarrow> nat \<Rightarrow> nat \<Rightarrow> 'd kdnode \<Rightarrow> bool" where
  "kd_good io r c n \<longleftrightarrow> ioer n = Some io \<and> (\<exists>w. req_indxs n = [w] \<and> unat w < c) \<and> split_dim n < c
     \<and> ids n \<noteq> [] \<and> (\<forall>i\<in>set (ids n). unat i < r)"

text \<open>Running a node keeps everything but the comparator and the order of the samples.\<close>

definition same_node :: "'d kdnode \<Rightarrow> 'd kdnode \<Rightarrow> bool" where
  "same_node n n' \<longleftrightarrow> mset (ids n') = mset (ids n) \<and> bleft n' = bleft n \<and> bright n' = bright n
     \<and> ndepth n' = ndepth n \<and> ioer n' = ioer n \<and> req_indxs n' = req_indxs n \<and> split_dim n' = split_dim n"

lemma length_ids: "length (ids n) = length (items (data_index n))"
  by (simp add: ids_def)

lemma ids_empty_iff: "ids n = [] \<longleftrightarrow> items (data_index n) = []"
  by (simp add: ids_def)

lemma same_node_length: "same_node n n' \<Longrightarrow> length (ids n') = length (ids n)"
  by (auto simp: same_node_def dest: mset_eq_length)

lemma same_node_good: "same_node n n' \<Longrightarrow> kd_good io r c n' = kd_good io r c n"
  using mset_eq_setD [of "ids n'" "ids n"] same_node_length [of n n']
  by (auto simp: same_node_def kd_good_def)

lemma kd_run_ok:
  assumes "ids n \<noteq> []"
  shows "\<exists>n'. kd_run n = Inr n' \<and> same_node n n'"
proof -
  let ?n = "sort_data_index (ndepth n < 3) n"
  have "length (items (data_index ?n)) div 2 < length (items (data_index ?n))"
    using assms by (auto simp: sort_data_index_def ids_def)
  then obtain iv where "kd_run n = Inr (set_comparator (get_val iv) ?n)"
    by (auto simp: kd_run_def IndexVector_nth_def Let_def)
  moreover have "same_node n (set_comparator (get_val iv) ?n)"
    by (simp add: same_node_def set_comparator_def ids_def sort_data_index_def)
  ultimately show ?thesis by blast
qed

lemma io_okE:
  assumes "io_ok ios io r c"
  obtains m where "ios io = Some m" "mio_ok m" "mio_dim m = (r, c)"
  using assms by (auto simp: io_ok_def split: option.splits)

lemma kd_process_good:
  assumes io: "io_ok ios io r c" and n: "kd_good io r c n"
  shows "\<exists>n'. kd_process ios n = Inr n' \<and> same_node n n'"
proof -
  obtain m where m: "ios io = Some m" "mio_ok m" "mio_dim m = (r, c)" by (rule io_okE [OF io])
  from n obtain w where w: "ioer n = Some io" "req_indxs n = [w]" "unat w < c" "\<forall>i\<in>set (ids n). unat i < r"
    and ne: "items (data_index n) \<noteq> []" by (auto simp: kd_good_def ids_empty_iff)
  from prep_ok [of ios io m r c n w, OF m w] ne obtain di where p: "prep ios n = Inr (n\<lparr>data_index := di\<rparr>)"
    "map get_index (items di) = ids n" by auto
  have "ids (n\<lparr>data_index := di\<rparr>) = ids n" using p(2) by (simp add: ids_def)
  with kd_run_ok [of "n\<lparr>data_index := di\<rparr>"] ne obtain n' where
    "kd_run (n\<lparr>data_index := di\<rparr>) = Inr n'" "same_node (n\<lparr>data_index := di\<rparr>) n'"
    by (auto simp: ids_empty_iff [of n, symmetric])
  moreover from this \<open>ids (n\<lparr>data_index := di\<rparr>) = ids n\<close> have "same_node n n'"
    by (simp add: same_node_def)
  ultimately show ?thesis using p(1) by (simp add: kd_process_def)
qed

text \<open>The first run of a root takes all samples of the matrix.\<close>

lemma kd_process_root:
  assumes io: "io_ok ios io r c" and n: "ioer n = Some io" "req_indxs n = [w]" "unat w < c" "ids n = []"
  shows "\<exists>n'. kd_process ios n = Inr n' \<and> mset (ids n') = mset (all_ids r)
    \<and> same_node (n\<lparr>data_index := data_index n'\<rparr>) n'"
proof -
  obtain m where m: "ios io = Some m" "mio_ok m" "mio_dim m = (r, c)" by (rule io_okE [OF io])
  have "\<forall>i\<in>set (ids n). unat i < r" by (simp add: n(4))
  from prep_ok [of ios io m r c n w, OF m n(1-3) this] n(4) obtain di where p: "prep ios n = Inr (n\<lparr>data_index := di\<rparr>)"
    "map get_index (items di) = all_ids r" by (auto simp: ids_empty_iff ids_def)
  have i: "ids (n\<lparr>data_index := di\<rparr>) = all_ids r" using p(2) by (simp add: ids_def)
  moreover have "all_ids r \<noteq> []" using io by (simp add: all_ids_def io_ok_def)
  ultimately obtain n' where n': "kd_run (n\<lparr>data_index := di\<rparr>) = Inr n'" "same_node (n\<lparr>data_index := di\<rparr>) n'"
    using kd_run_ok [of "n\<lparr>data_index := di\<rparr>"] by auto
  then have "mset (ids n') = mset (all_ids r)" using i by (simp add: same_node_def)
  moreover have "same_node (n\<lparr>data_index := data_index n'\<rparr>) n'"
    using n'(2) by (simp add: same_node_def ids_def)
  ultimately show ?thesis using n'(1) p(1) by (simp add: kd_process_def)
qed

lemma unat_all_ids: "r < 2 ^ 32 \<Longrightarrow> i \<in> set (all_ids r) \<Longrightarrow> unat i < r"
  by (auto simp: all_ids_def unsigned_of_nat take_bit_nat_eq_self)

text \<open>Spawning: two new nodes that share out the samples of the node.\<close>

lemma kd_spawn_ok:
  assumes io: "io_ok ios io r c" and a: "h a = Some n" and n: "kd_good io r c n" "1 < length (ids n)"
  obtains nl nr where "kd_spawn g gd ios a (h, nxt)
      = Inr (h(a \<mapsto> n\<lparr>bleft := Some nxt, bright := Some (nxt + 1)\<rparr>, nxt \<mapsto> nl, nxt + 1 \<mapsto> nr), nxt + 2)"
    "kd_good io r c nl" "kd_good io r c nr" "ids nl @ ids nr = ids n"
    "bleft nl = None" "bright nl = None" "bleft nr = None" "bright nr = None"
    "ndepth nl = ndepth n + 1" "ndepth nr = ndepth n + 1"
proof -
  obtain m where m: "ios io = Some m" "mio_ok m" "mio_dim m = (r, c)" by (rule io_okE [OF io])
  let ?sp = "if split_dim n + 1 = c then 0 else split_dim n + 1" and ?h = "length (ids n) div 2"
  let ?b = "(kdnode_new g gd)\<lparr>nv_parent := Some a, ioer := Some io, ndepth := Suc (ndepth n)\<rparr>"
  let ?c = "\<lambda>is. kd_child ?sp is ?b"
  have sp: "?sp < c" "c < 2 ^ 32" using n(1) io by (auto simp: kd_good_def io_ok_def)
  have b: "bestow a n (kdnode_new g gd) = Inr ?b"
    using n(1) by (simp add: bestow_def set_depth_def set_ioer_def get_ioer_def kd_good_def Let_def)
  have ids: "ids (?c is) = is" for "is"
    by (simp add: kd_child_def ids_def set_ph_data_index_def set_indexes_ids_def comp_def)
  have good: "kd_good io r c (?c is)" if "is \<noteq> []" "set is \<subseteq> set (ids n)" for "is"
    using that n(1) sp unfolding kd_good_def ids
    by (auto simp: kd_child_def set_ph_data_index_def set_index_def set_split_dim_def kdnode_new_def
        NodeView_new_def NodeView.defs unsigned_of_nat take_bit_nat_eq_self)
  have "kd_spawn g gd ios a (h, nxt) = Inr (h(a \<mapsto> n\<lparr>bleft := Some nxt, bright := Some (nxt + 1)\<rparr>,
      nxt \<mapsto> ?c (take ?h (ids n)), nxt + 1 \<mapsto> ?c (drop ?h (ids n))), nxt + 2)"
    using a b m n by (simp add: kd_spawn_def deref_def get_indexes_def kd_good_def ids_def Let_def)
  moreover have "kd_good io r c (?c (take ?h (ids n)))" "kd_good io r c (?c (drop ?h (ids n)))"
    by (rule good; use n(2) in \<open>auto dest: in_set_takeD in_set_dropD\<close>)+
  moreover have "ids (?c (take ?h (ids n))) @ ids (?c (drop ?h (ids n))) = ids n"
    by (simp only: ids append_take_drop_id)
  ultimately show ?thesis
    by (rule that) (simp_all add: kd_child_def set_ph_data_index_def set_index_def set_split_dim_def
        kdnode_new_def NodeView_new_def NodeView.defs)
qed

end
