(* ===== verification/KD_Build.thy ===== *)
theory KD_Build
  imports KD_Tree
begin

text \<open>
  Building a k-d tree: the invariant of \<^verbatim>\<open>BinaryTreeProgram::build\<close>. The tree that hangs
  off the root is described by a tree of addresses; its inner nodes share out their samples to
  their two children, whatever the scheduler has done so far. A level that is not full makes
  \<^verbatim>\<open>build\<close> spawn the children of the level before again; the old children stay in the
  lists of the scheduler but leave the tree.
\<close>

section \<open>Trees of addresses\<close>

datatype kt = Lf addr | Nd addr kt kt

primrec top :: "kt \<Rightarrow> addr" where
  "top (Lf a) = a"
| "top (Nd a l r) = a"

primrec kaddrs :: "kt \<Rightarrow> addr list" where
  "kaddrs (Lf a) = [a]"
| "kaddrs (Nd a l r) = a # kaddrs l @ kaddrs r"

primrec leaves :: "kt \<Rightarrow> addr list" where
  "leaves (Lf a) = [a]"
| "leaves (Nd a l r) = leaves l @ leaves r"

text \<open>Replacing the subtree at an address.\<close>

primrec graft :: "addr \<Rightarrow> kt \<Rightarrow> kt \<Rightarrow> kt" where
  "graft a t' (Lf b) = (if b = a then t' else Lf b)"
| "graft a t' (Nd b l r) = (if b = a then t' else Nd b (graft a t' l) (graft a t' r))"

definition links :: "'d kdnode heap \<Rightarrow> addr \<Rightarrow> (ptr \<times> ptr) option" where
  "links h a = map_option (\<lambda>n. (bleft n, bright n)) (h a)"

definition idsof :: "'d kdnode heap \<Rightarrow> addr \<Rightarrow> sample_id_t multiset" where
  "idsof h a = (case h a of None \<Rightarrow> {#} | Some n \<Rightarrow> mset (ids n))"

primrec kdt :: "'d kdnode heap \<Rightarrow> kt \<Rightarrow> bool" where
  "kdt h (Lf a) \<longleftrightarrow> links h a = Some (None, None)"
| "kdt h (Nd a l r) \<longleftrightarrow> links h a = Some (Some (top l), Some (top r))
     \<and> idsof h a = idsof h (top l) + idsof h (top r) \<and> kdt h l \<and> kdt h r"

lemma top_in_kaddrs [simp]: "top t \<in> set (kaddrs t)"
  by (cases t) simp_all

lemma kaddrs_not_empty [simp]: "kaddrs t \<noteq> []"
  by (cases t) simp_all

lemma leaves_subset: "set (leaves t) \<subseteq> set (kaddrs t)"
  by (induction t) auto

lemma kdt_leaves_ids: "kdt h t \<Longrightarrow> idsof h (top t) = sum_list (map (idsof h) (leaves t))"
  by (induction t) simp_all

lemma kdt_cong:
  assumes "\<And>a. a \<in> set (kaddrs t) \<Longrightarrow> links h' a = links h a" "\<And>a. a \<in> set (kaddrs t) \<Longrightarrow> idsof h' a = idsof h a"
    and "kdt h t"
  shows "kdt h' t"
  using assms by (induction t) simp_all

lemma graft_id: "a \<notin> set (kaddrs t) \<Longrightarrow> graft a t' t = t"
  by (induction t) auto

lemma top_graft: "top t' = a \<Longrightarrow> top (graft a t' t) = top t"
  by (cases t) auto

lemma set_graft: "set (kaddrs (graft a t' t)) \<subseteq> set (kaddrs t) \<union> set (kaddrs t')"
  by (induction t) auto

lemma distinct_graft:
  assumes "distinct (kaddrs t)" "distinct (kaddrs t')" "set (kaddrs t') \<inter> set (kaddrs t) \<subseteq> {a}"
  shows "distinct (kaddrs (graft a t' t))"
  using assms
proof (induction t)
  case (Nd b l r)
  show ?case
  proof (cases "b = a")
    case False
    have sub: "set (kaddrs (graft a t' l)) \<subseteq> set (kaddrs l) \<union> set (kaddrs t')"
      "set (kaddrs (graft a t' r)) \<subseteq> set (kaddrs r) \<union> set (kaddrs t')" by (rule set_graft)+
    have ih: "distinct (kaddrs (graft a t' l))" "distinct (kaddrs (graft a t' r))"
      using Nd by auto
    have b: "b \<notin> set (kaddrs (graft a t' l))" "b \<notin> set (kaddrs (graft a t' r))"
      using sub Nd.prems(1,3) False by auto
    have "set (kaddrs (graft a t' l)) \<inter> set (kaddrs (graft a t' r)) = {}"
    proof (cases "a \<in> set (kaddrs l)")
      case True
      then have "graft a t' r = r" using Nd.prems(1) by (intro graft_id) auto
      with sub(1) Nd.prems(1,3) True show ?thesis by auto
    next
      case False
      then have "graft a t' l = l" by (rule graft_id)
      with sub(2) Nd.prems(1,3) False show ?thesis by auto
    qed
    with ih b False show ?thesis by simp
  qed (use Nd.prems(2) in simp)
qed simp

lemma kdt_graft:
  assumes "\<And>b. b \<in> set (kaddrs t) \<Longrightarrow> b \<noteq> a \<Longrightarrow> links h' b = links h b"
    and "\<And>b. b \<in> set (kaddrs t) \<Longrightarrow> idsof h' b = idsof h b"
    and "kdt h t" "kdt h' t'" "top t' = a"
  shows "kdt h' (graft a t' t)"
  using assms by (induction t) (auto simp: top_graft)

section \<open>The tree of a program\<close>

definition heap_good :: "addr \<Rightarrow> nat \<Rightarrow> nat \<Rightarrow> addr \<Rightarrow> 'd kdnode heap \<Rightarrow> bool" where
  "heap_good io r c nxt h \<longleftrightarrow> (\<forall>a n. h a = Some n \<longrightarrow> kd_good io r c n \<and> a < nxt)"

definition tree_good :: "nat \<Rightarrow> 'd kdnode heap \<Rightarrow> ptr \<Rightarrow> bool" where
  "tree_good r h p \<longleftrightarrow> (\<exists>t. p = Some (top t) \<and> kdt h t \<and> distinct (kaddrs t) \<and> idsof h (top t) = mset (all_ids r))"

text \<open>Running nodes.\<close>

definition same_heap :: "'d kdnode heap \<Rightarrow> 'd kdnode heap \<Rightarrow> bool" where
  "same_heap h h' \<longleftrightarrow> (\<forall>a. rel_option same_node (h a) (h' a))"

lemma same_node_refl [simp]: "same_node n n"
  by (simp add: same_node_def)

lemma same_heapD: "same_heap h h' \<Longrightarrow> h a = Some n \<Longrightarrow> \<exists>n'. h' a = Some n' \<and> same_node n n'"
  unfolding same_heap_def by (drule spec [of _ a]) (auto simp: option_rel_Some1 option_rel_Some2)

lemma same_heapD': "same_heap h h' \<Longrightarrow> h' a = Some n' \<Longrightarrow> \<exists>n. h a = Some n \<and> same_node n n'"
  unfolding same_heap_def by (drule spec [of _ a]) (auto simp: option_rel_Some1 option_rel_Some2)

lemma same_heap_None: "same_heap h h' \<Longrightarrow> h' a = None \<longleftrightarrow> h a = None"
  unfolding same_heap_def by (drule spec [of _ a]) (cases "h a"; cases "h' a"; simp)

lemma same_heap_dom: "same_heap h h' \<Longrightarrow> dom h' = dom h"
  by (simp add: dom_def same_heap_None)

lemma same_node_trans: "same_node n n' \<Longrightarrow> same_node n' n'' \<Longrightarrow> same_node n n''"
  by (simp add: same_node_def)

lemma same_heap_trans: "same_heap h h' \<Longrightarrow> same_heap h' h'' \<Longrightarrow> same_heap h h''"
  unfolding same_heap_def
proof (intro allI)
  fix a
  assume "\<forall>a. rel_option same_node (h a) (h' a)" "\<forall>a. rel_option same_node (h' a) (h'' a)"
  then have "rel_option same_node (h a) (h' a)" "rel_option same_node (h' a) (h'' a)" by simp_all
  then show "rel_option same_node (h a) (h'' a)"
    by (cases "h a"; cases "h' a"; cases "h'' a") (auto intro: same_node_trans)
qed

lemma same_heap_links: "same_heap h h' \<Longrightarrow> links h' a = links h a"
  using same_heapD [of h h' a] same_heapD' [of h h' a]
  by (cases "h a"; cases "h' a") (auto simp: links_def same_node_def)

lemma same_heap_idsof: "same_heap h h' \<Longrightarrow> idsof h' a = idsof h a"
  using same_heapD [of h h' a] same_heapD' [of h h' a]
  by (cases "h a"; cases "h' a") (auto simp: idsof_def same_node_def)

lemma same_heap_good: "same_heap h h' \<Longrightarrow> heap_good io r c nxt h \<Longrightarrow> heap_good io r c nxt h'"
  unfolding heap_good_def by (blast dest: same_heapD' same_node_good [THEN iffD2])

lemma same_heap_tree:
  assumes "same_heap h h'" "tree_good r h p"
  shows "tree_good r h' p"
proof -
  from assms(2) obtain t where "p = Some (top t)" "kdt h t" "distinct (kaddrs t)" "idsof h (top t) = mset (all_ids r)"
    by (auto simp: tree_good_def)
  moreover from this have "kdt h' t"
    using kdt_cong [of t h' h] same_heap_links [OF assms(1)] same_heap_idsof [OF assms(1)] by blast
  ultimately show ?thesis using same_heap_idsof [OF assms(1)] by (auto simp: tree_good_def)
qed

lemma heap_good_runs:
  assumes "io_ok ios io r c" "heap_good io r c nxt h" "A \<subseteq> dom h"
  shows "runs_on (kd_process ios) A h"
  unfolding runs_on_def
proof
  fix a assume "a \<in> A"
  with assms(3) obtain n where n: "h a = Some n" by auto
  with assms(2) have "kd_good io r c n" by (simp add: heap_good_def)
  from kd_process_good [OF assms(1) this] n show "\<exists>n n'. h a = Some n \<and> kd_process ios n = Inr n'" by auto
qed

lemma update_all_same:
  assumes "io_ok ios io r c" "heap_good io r c nxt h"
  shows "same_heap h (update_all (kd_process ios) A h)"
  unfolding same_heap_def
proof
  fix a
  show "rel_option same_node (h a) (update_all (kd_process ios) A h a)"
  proof (cases "h a")
    case (Some n)
    with assms(2) have "kd_good io r c n" by (simp add: heap_good_def)
    from kd_process_good [OF assms(1) this] Some show ?thesis by (auto simp: update_all_def)
  qed (simp add: update_all_def)
qed

section \<open>Spawning a level\<close>

definition spawnable :: "nat \<Rightarrow> 'd kdnode heap \<Rightarrow> addr \<Rightarrow> bool" where
  "spawnable md h a = (case h a of None \<Rightarrow> False | Some n \<Rightarrow> ndepth n < md \<and> 1 < length (ids n))"

definition kids :: "'d kdnode heap \<Rightarrow> addr \<Rightarrow> addr list" where
  "kids h a = (case h a of None \<Rightarrow> [] | Some n \<Rightarrow>
     (case bleft n of None \<Rightarrow> [] | Some l \<Rightarrow> [l]) @ (case bright n of None \<Rightarrow> [] | Some r \<Rightarrow> [r]))"

lemma kids_links: "links h' a = links h a \<Longrightarrow> kids h' a = kids h a"
  by (cases "h a"; cases "h' a") (auto simp: kids_def links_def)

lemma spawn_tree:
  assumes t: "tree_good r h p" and a: "h a = Some n" "a < nxt" and dom: "\<And>b. b \<in> dom h \<Longrightarrow> b < nxt"
    and nl: "bleft nl = None" "bright nl = None" "bleft nr = None" "bright nr = None" "ids nl @ ids nr = ids n"
  shows "tree_good r (h(a \<mapsto> n\<lparr>bleft := Some nxt, bright := Some (nxt + 1)\<rparr>, nxt \<mapsto> nl, nxt + 1 \<mapsto> nr)) p"
    (is "tree_good r ?h p")
proof -
  from t obtain t where t: "p = Some (top t)" "kdt h t" "distinct (kaddrs t)" "idsof h (top t) = mset (all_ids r)"
    by (auto simp: tree_good_def)
  have in_dom: "set (kaddrs t) \<subseteq> dom h"
    using t(2) by (induction t) (auto simp: links_def)
  have lt: "b < nxt" if "b \<in> set (kaddrs t)" for b using in_dom dom that by blast
  have i: "idsof ?h b = idsof h b" if "b < nxt" for b
    using that a by (auto simp: idsof_def ids_def)
  have l: "links ?h b = links h b" if "b < nxt" "b \<noteq> a" for b
    using that by (auto simp: links_def)
  let ?t' = "Nd a (Lf nxt) (Lf (nxt + 1))"
  have "mset (ids n) = mset (ids nl) + mset (ids nr)" by (simp flip: nl(5))
  then have t': "kdt ?h ?t'" using a nl by (simp add: links_def idsof_def) (simp add: ids_def)
  have "kdt ?h (graft a ?t' t)"
    by (rule kdt_graft [OF _ _ t(2) t']) (use lt l i in auto)
  moreover have "distinct (kaddrs (graft a ?t' t))"
    by (rule distinct_graft [OF t(3)]) (use a(2) lt [of nxt] lt [of "Suc nxt"] in auto)
  moreover have "idsof ?h (top t) = mset (all_ids r)" using i [OF lt] t(4) by simp
  ultimately show ?thesis
    unfolding tree_good_def using t(1) top_graft [of ?t' a t] by (metis top.simps(2))
qed

text \<open>What spawning the nodes \<open>xs\<close> of the heap \<open>h\<close> does.\<close>

definition spawned :: "nat \<Rightarrow> addr list \<Rightarrow> 'd kdnode heap \<Rightarrow> addr \<Rightarrow> 'd kdnode heap \<Rightarrow> addr \<Rightarrow> bool" where
  "spawned md xs h nxt h' nxt' \<longleftrightarrow> nxt' = nxt + 2 * length (filter (spawnable md h) xs) \<and> dom h' = dom h \<union> {nxt..<nxt'}
     \<and> (\<forall>a\<in>dom h. a \<in> set xs \<and> spawnable md h a \<or> h' a = h a)
     \<and> (\<forall>a\<in>set xs. spawnable md h a \<longrightarrow> spawnable md h' a)
     \<and> concat (map (kids h') (filter (spawnable md h) xs)) = [nxt..<nxt']
     \<and> (\<forall>a\<in>{nxt..<nxt'}. links h' a = Some (None, None))"

lemma spawnedD:
  assumes "spawned md xs h nxt h' nxt'"
  shows "nxt \<le> nxt'" "dom h' = dom h \<union> {nxt..<nxt'}"
    "\<And>a. a \<in> dom h \<Longrightarrow> a \<in> set xs \<and> spawnable md h a \<or> h' a = h a"
    "\<And>a. a \<in> set xs \<Longrightarrow> spawnable md h a \<Longrightarrow> spawnable md h' a"
    "concat (map (kids h') (filter (spawnable md h) xs)) = [nxt..<nxt']"
    "\<And>a. nxt \<le> a \<Longrightarrow> a < nxt' \<Longrightarrow> links h' a = Some (None, None)"
    "nxt' = nxt + 2 * length (filter (spawnable md h) xs)"
  using assms unfolding spawned_def by (linarith, blast, blast, blast, blast, simp, blast)

lemma spawnable_cong: "h' a = h a \<Longrightarrow> spawnable md h' a = spawnable md h a"
  by (simp add: spawnable_def)

lemma spawn_one_ok:
  assumes io: "io_ok ios io r c" and good: "heap_good io r c (next_addr st) (nodes st)"
    and tree: "tree_good r (nodes st) (root st)"
    and a: "a \<in> dom (nodes st)" "spawnable (prog_max_depth st) (nodes st) a"
  shows "\<exists>h'. spawn_one g gd ios a (st, b) = Some (Inr (st\<lparr>nodes := h', next_addr := next_addr st + 2\<rparr>, True))
    \<and> heap_good io r c (next_addr st + 2) h' \<and> tree_good r h' (root st)
    \<and> spawned (prog_max_depth st) [a] (nodes st) (next_addr st) h' (next_addr st + 2)"
proof -
  let ?h = "nodes st" and ?x = "next_addr st" and ?md = "prog_max_depth st"
  from a(1) obtain n where n: "?h a = Some n" by auto
  with good a(2) have g: "kd_good io r c n" "a < ?x" and sp: "ndepth n < ?md" "1 < length (ids n)"
    by (auto simp: heap_good_def spawnable_def)
  have dom: "b < ?x" if "b \<in> dom ?h" for b using good that by (auto simp: heap_good_def)
  obtain nl nr where s: "kd_spawn g gd ios a (?h, ?x)
      = Inr (?h(a \<mapsto> n\<lparr>bleft := Some ?x, bright := Some (?x + 1)\<rparr>, ?x \<mapsto> nl, ?x + 1 \<mapsto> nr), ?x + 2)"
    (is "_ = Inr (?h', _)")
    and c: "kd_good io r c nl" "kd_good io r c nr" "ids nl @ ids nr = ids n"
      "bleft nl = None" "bright nl = None" "bleft nr = None" "bright nr = None"
    by (rule kd_spawn_ok [of ios io r c ?h a n g gd ?x, OF io n g(1) sp(2)]) blast
  have "spawn_one g gd ios a (st, b) = Some (Inr (st\<lparr>nodes := ?h', next_addr := ?x + 2\<rparr>, True))"
    using n sp s by (simp add: spawn_one_def deref_def length_ids)
  moreover have "kd_good io r c (n\<lparr>bleft := Some ?x, bright := Some (?x + 1)\<rparr>)"
    using g(1) by (simp add: kd_good_def ids_def)
  then have "heap_good io r c (?x + 2) ?h'"
    using good c(1,2) g(2) by (auto simp: heap_good_def less_Suc_eq)
  moreover have "tree_good r ?h' (root st)" by (rule spawn_tree [OF tree n g(2) dom c(4-7,3)])
  moreover have "spawned ?md [a] ?h ?x ?h' (?x + 2)"
  proof -
    have "{?x..<?x + 2} = {?x, Suc ?x}" "[?x..<?x + 2] = [?x, Suc ?x]" by auto
    moreover have "dom ?h' = dom ?h \<union> {?x, Suc ?x}" using a(1) by auto
    moreover have "kids ?h' a = [?x, Suc ?x]" "spawnable ?md ?h' a"
      using g(2) sp by (simp_all add: kids_def spawnable_def ids_def)
    moreover have "\<forall>b\<in>dom ?h. b = a \<or> ?h' b = ?h b" using dom [of ?x] dom [of "Suc ?x"] by auto
    ultimately show ?thesis using a(2) c by (auto simp: spawned_def links_def)
  qed
  ultimately show ?thesis by blast
qed

lemma spawned_Cons:
  assumes 1: "spawned md [x] h nxt h1 nxt1" and 2: "spawned md xs h1 nxt1 h' nxt'"
    and x: "x \<notin> set xs" "x \<in> dom h" "spawnable md h x" and xs: "set xs \<subseteq> dom h" and dom: "\<And>b. b \<in> dom h \<Longrightarrow> b < nxt"
  shows "spawned md (x # xs) h nxt h' nxt'"
proof -
  note d1 = spawnedD [OF 1] and d2 = spawnedD [OF 2]
  have same: "h1 b = h b" if "b \<in> dom h" "b \<noteq> x" for b using d1(3) [OF that(1)] that(2) by auto
  have sp: "spawnable md h1 b = spawnable md h b" if "b \<in> set xs" for b
    using same [of b] that xs x(1) by (intro spawnable_cong) auto
  have keep: "h' b = h1 b" if "b \<in> dom h1" "b \<notin> set xs" for b using d2(3) [OF that(1)] that(2) by auto
  have hx: "h' x = h1 x" using d1(2) x(1,2) by (intro keep) auto
  have fl: "filter (spawnable md h1) xs = filter (spawnable md h) xs" using sp by (rule filter_cong [OF refl])
  then have "concat (map (kids h') (filter (spawnable md h) (x # xs))) = kids h1 x @ [nxt1..<nxt']"
    using d2(5) x(3) hx by (simp add: kids_def)
  moreover have "kids h1 x = [nxt..<nxt1]" using d1(5) x(3) by simp
  ultimately have kids: "concat (map (kids h') (filter (spawnable md h) (x # xs))) = [nxt..<nxt']"
    using d1(1) d2(1) upt_add_eq_append [of nxt nxt1 "nxt' - nxt1"] by simp
  have lk: "links h' b = Some (None, None)" if "nxt \<le> b" "b < nxt'" for b
  proof (cases "b < nxt1")
    case True
    then have "b \<in> dom h1" "b \<notin> set xs" using that d1(2) xs dom [of b] subsetD [OF xs, of b] by auto
    then show ?thesis using keep [of b] d1(6) [of b] that True by (simp add: links_def)
  next
    case False
    then show ?thesis using d2(6) that by simp
  qed
  show ?thesis unfolding spawned_def
  proof (intro conjI ballI impI)
    show "dom h' = dom h \<union> {nxt..<nxt'}"
      by (simp add: d2(2) d1(2) Un_assoc ivl_disj_un_two(3) d1(1) d2(1))
    fix b assume b: "b \<in> dom h"
    show "b \<in> set (x # xs) \<and> spawnable md h b \<or> h' b = h b"
    proof (cases "b = x")
      case False
      have "b \<in> dom h1" using b d1(2) by simp
      from d2(3) [OF this] same [OF b False] sp [of b] show ?thesis by auto
    qed (simp add: x(3))
  next
    fix b assume b: "b \<in> set (x # xs)" "spawnable md h b"
    show "spawnable md h' b"
    proof (cases "b = x")
      case True
      then show ?thesis using d1(4) [of x] x(3) spawnable_cong [of h' x h1, OF hx] by simp
    next
      case False
      then show ?thesis using b sp [of b] d2(4) [of b] by simp
    qed
  next
    fix b assume "b \<in> {nxt..<nxt'}"
    then show "links h' b = Some (None, None)" using lk by simp
  qed (use d1(7) d2(7) x(3) fl kids in simp_all)
qed

lemma spawned_skip:
  "\<not> spawnable md h x \<Longrightarrow> spawned md xs h nxt h' nxt' \<Longrightarrow> spawned md (x # xs) h nxt h' nxt'"
  unfolding spawned_def by auto

lemma spawn_pass:
  assumes io: "io_ok ios io r c" and "heap_good io r c (next_addr st) (nodes st)" "tree_good r (nodes st) (root st)"
    and "distinct xs" "set xs \<subseteq> dom (nodes st)"
  shows "\<exists>h' nxt'. foldX (spawn_one g gd ios) xs (st, b)
      = Some (Inr (st\<lparr>nodes := h', next_addr := nxt'\<rparr>, b \<or> (\<exists>a\<in>set xs. spawnable (prog_max_depth st) (nodes st) a)))
    \<and> heap_good io r c nxt' h' \<and> tree_good r h' (root st)
    \<and> spawned (prog_max_depth st) xs (nodes st) (next_addr st) h' nxt'"
  using assms(2-)
proof (induction xs arbitrary: st b)
  case Nil
  then show ?case by (intro exI [of _ "nodes st"] exI [of _ "next_addr st"]) (simp add: spawned_def)
next
  case (Cons x xs)
  let ?md = "prog_max_depth st"
  have x: "x \<in> dom (nodes st)" "x \<notin> set xs" "set xs \<subseteq> dom (nodes st)" "distinct xs" using Cons.prems by auto
  have dom: "b < next_addr st" if "b \<in> dom (nodes st)" for b using Cons.prems(1) that by (auto simp: heap_good_def)
  show ?case
  proof (cases "spawnable ?md (nodes st) x")
    case True
    from spawn_one_ok [OF io Cons.prems(1,2) x(1) True, of g gd b] obtain h1 where
      h1: "spawn_one g gd ios x (st, b) = Some (Inr (st\<lparr>nodes := h1, next_addr := next_addr st + 2\<rparr>, True))"
      "heap_good io r c (next_addr st + 2) h1" "tree_good r h1 (root st)"
      "spawned ?md [x] (nodes st) (next_addr st) h1 (next_addr st + 2)" by blast
    let ?st = "st\<lparr>nodes := h1, next_addr := next_addr st + 2\<rparr>"
    have "set xs \<subseteq> dom h1" using spawnedD(2) [OF h1(4)] x(3) by auto
    with Cons.IH [of ?st True] h1(2,3) x(4) obtain h' nxt' where h':
      "foldX (spawn_one g gd ios) xs (?st, True) = Some (Inr (?st\<lparr>nodes := h', next_addr := nxt'\<rparr>, True))"
      "heap_good io r c nxt' h'" "tree_good r h' (root st)" "spawned ?md xs h1 (next_addr st + 2) h' nxt'" by auto
    have "spawned ?md (x # xs) (nodes st) (next_addr st) h' nxt'"
      by (rule spawned_Cons [OF h1(4) h'(4) x(2,1) True x(3) dom])
    with h1(1) h' True show ?thesis by auto
  next
    case False
    then have "spawn_one g gd ios x (st, b) = Some (Inr (st, b))"
      using x(1) by (auto simp: spawn_one_def deref_def spawnable_def length_ids)
    moreover from Cons.IH [of st b] Cons.prems x obtain h' nxt' where
      "foldX (spawn_one g gd ios) xs (st, b) = Some (Inr (st\<lparr>nodes := h', next_addr := nxt'\<rparr>,
          b \<or> (\<exists>a\<in>set xs. spawnable ?md (nodes st) a)))"
      "heap_good io r c nxt' h'" "tree_good r h' (root st)"
      "spawned ?md xs (nodes st) (next_addr st) h' nxt'" by auto
    ultimately show ?thesis using spawned_skip [of ?md "nodes st" x xs "next_addr st" h' nxt'] False by auto
  qed
qed

section \<open>Scheduling the children\<close>

lemma prog_schedule_ok:
  assumes io: "io_ok ios io r c" and good: "heap_good io r c nxt (nodes st)" and lev: "lev_ok (scheduler st)"
    and dom: "set (concat (levels (scheduler st))) \<subseteq> dom (nodes st)"
    and a: "a \<in> dom (nodes st)" "a \<notin> set (concat (levels (scheduler st)))"
  shows "\<exists>S' h'. prog_schedule ios a st = Some (Inr (st\<lparr>scheduler := S', nodes := h'\<rparr>)) \<and> lev_ok S'
    \<and> same_heap (nodes st) h' \<and> current_level (scheduler st) \<le> current_level S'
    \<and> mset (concat (levels S')) = add_mset a (mset (concat (levels (scheduler st))))"
proof -
  let ?S = "scheduler st"
  have "set (concat (drop (current_level ?S) (levels ?S))) \<subseteq> set (concat (levels ?S))"
    by (auto dest: in_set_dropD)
  then have "runs_on (kd_process ios) (insert a (set (concat (drop (current_level ?S) (levels ?S))))) (nodes st)"
    using a(1) dom by (intro heap_good_runs [OF io good]) blast
  from schedule_ok [OF lev a(2) this] obtain S' A where
    "schedule (on_node (kd_process ios)) a ?S (nodes st) = Some (Inr (S', update_all (kd_process ios) A (nodes st)))"
    "lev_ok S'" "mset (concat (levels S')) = add_mset a (mset (concat (levels ?S)))"
    "current_level ?S \<le> current_level S'" by fastforce
  with update_all_same [OF io good, of A] show ?thesis by (auto simp: prog_schedule_def)
qed

lemma schedule_list:
  assumes io: "io_ok ios io r c" and "heap_good io r c nxt (nodes st)" "lev_ok (scheduler st)"
    and "set (concat (levels (scheduler st))) \<subseteq> dom (nodes st)"
    and "set xs \<subseteq> dom (nodes st)" "distinct xs" "set xs \<inter> set (concat (levels (scheduler st))) = {}"
  shows "\<exists>S' h'. foldX (prog_schedule ios) xs st = Some (Inr (st\<lparr>scheduler := S', nodes := h'\<rparr>)) \<and> lev_ok S'
    \<and> same_heap (nodes st) h' \<and> current_level (scheduler st) \<le> current_level S'
    \<and> mset (concat (levels S')) = mset xs + mset (concat (levels (scheduler st)))"
  using assms(2-)
proof (induction xs arbitrary: st)
  case Nil
  then show ?case by (intro exI [of _ "scheduler st"] exI [of _ "nodes st"]) (simp add: same_heap_def option.rel_refl)
next
  case (Cons x xs)
  from prog_schedule_ok [OF io Cons.prems(1-3), of x] Cons.prems(4-6) obtain S1 h1 where
    1: "prog_schedule ios x st = Some (Inr (st\<lparr>scheduler := S1, nodes := h1\<rparr>))" "lev_ok S1" "same_heap (nodes st) h1"
    "current_level (scheduler st) \<le> current_level S1"
    "mset (concat (levels S1)) = add_mset x (mset (concat (levels (scheduler st))))" by auto
  let ?st = "st\<lparr>scheduler := S1, nodes := h1\<rparr>"
  have s: "set (concat (levels S1)) = insert x (set (concat (levels (scheduler st))))"
    using arg_cong [OF 1(5), of set_mset] by simp
  have "heap_good io r c nxt (nodes ?st)" using same_heap_good [OF 1(3) Cons.prems(1)] by simp
  moreover have "set (concat (levels (scheduler ?st))) \<subseteq> dom (nodes ?st)" "set xs \<subseteq> dom (nodes ?st)"
    using Cons.prems(3,4) s same_heap_dom [OF 1(3)] by auto
  moreover have "set xs \<inter> set (concat (levels (scheduler ?st))) = {}" using Cons.prems(5,6) s by auto
  ultimately obtain S' h' where
    2: "foldX (prog_schedule ios) xs ?st = Some (Inr (?st\<lparr>scheduler := S', nodes := h'\<rparr>))" "lev_ok S'"
    "same_heap h1 h'" "current_level S1 \<le> current_level S'"
    "mset (concat (levels S')) = mset xs + mset (concat (levels S1))"
    using Cons.IH [of ?st] 1(2) Cons.prems(5) by auto
  have "mset (concat (levels S')) = mset (x # xs) + mset (concat (levels (scheduler st)))" using 1(5) 2(5) by simp
  with 1 2 same_heap_trans [OF 1(3) 2(3)] show ?case
    by (intro exI [of _ S'] exI [of _ h']) simp
qed

text \<open>Both loops over the children schedule the same list of nodes.\<close>

lemma schedule_children_kids:
  assumes io: "io_ok ios io r c" and inv: "heap_good io r c nxt (nodes st)" "lev_ok (scheduler st)"
    "set (concat (levels (scheduler st))) \<subseteq> dom (nodes st)"
    and a: "a \<in> dom (nodes st)" "set (kids (nodes st) a) \<subseteq> dom (nodes st)"
    "set (kids (nodes st) a) \<inter> set (concat (levels (scheduler st))) = {}"
  shows "schedule_children ios a st = foldX (prog_schedule ios) (kids (nodes st) a) st"
proof -
  from a(1) obtain n where n: "nodes st a = Some n" by auto
  have ret: "bindX m (foldX (prog_schedule ios) []) = m" for m :: "'a kdTreeProgram exec"
    by (cases m rule: option.exhaust) (auto simp: bindX_def split: sum.splits)
  show ?thesis
  proof (cases "bleft n")
    case None
    then show ?thesis using n
      by (cases "bright n") (simp_all add: schedule_children_def schedule_ptr_def deref_def kids_def ret)
  next
    case (Some l)
    then have l: "l \<in> dom (nodes st)" "l \<notin> set (concat (levels (scheduler st)))"
      using a(2,3) n by (auto simp: kids_def)
    from prog_schedule_ok [OF io inv l] obtain S' h' where
      s: "prog_schedule ios l st = Some (Inr (st\<lparr>scheduler := S', nodes := h'\<rparr>))" "same_heap (nodes st) h'" by blast
    from same_heapD [OF s(2) n] obtain n' where "h' a = Some n'" "bright n' = bright n"
      by (auto simp: same_node_def)
    then show ?thesis using n Some s(1)
      by (cases "bright n") (simp_all add: schedule_children_def schedule_ptr_def deref_def kids_def ret)
  qed
qed

lemma schedule_children_list:
  assumes io: "io_ok ios io r c" and "heap_good io r c nxt (nodes st)" "lev_ok (scheduler st)"
    "set (concat (levels (scheduler st))) \<subseteq> dom (nodes st)" "set as \<subseteq> dom (nodes st)"
    "set (concat (map (kids (nodes st)) as)) \<subseteq> dom (nodes st)" "distinct (concat (map (kids (nodes st)) as))"
    "set (concat (map (kids (nodes st)) as)) \<inter> set (concat (levels (scheduler st))) = {}"
  shows "foldX (schedule_children ios) as st = foldX (prog_schedule ios) (concat (map (kids (nodes st)) as)) st"
  using assms(2-)
proof (induction as arbitrary: st)
  case (Cons a as)
  let ?k = "kids (nodes st)" and ?L = "\<lambda>S. set (concat (levels S))"
  have a: "a \<in> dom (nodes st)" "set (?k a) \<subseteq> dom (nodes st)" "distinct (?k a)" "set (?k a) \<inter> ?L (scheduler st) = {}"
    using Cons.prems(4-7) by (auto simp: Int_Un_distrib2)
  from schedule_list [OF io Cons.prems(1-3) a(2-4)] obtain S1 h1 where
    1: "foldX (prog_schedule ios) (?k a) st = Some (Inr (st\<lparr>scheduler := S1, nodes := h1\<rparr>))" "lev_ok S1"
      "same_heap (nodes st) h1" "mset (concat (levels S1)) = mset (?k a) + mset (concat (levels (scheduler st)))" by auto
  have k: "kids h1 = ?k" by (intro ext kids_links same_heap_links [OF 1(3)])
  have L: "?L S1 = set (?k a) \<union> ?L (scheduler st)" using arg_cong [OF 1(4), of set_mset] by simp
  let ?st = "st\<lparr>scheduler := S1, nodes := h1\<rparr>"
  have "foldX (schedule_children ios) as ?st = foldX (prog_schedule ios) (concat (map (kids (nodes ?st)) as)) ?st"
  proof (rule Cons.IH)
    show "heap_good io r c nxt (nodes ?st)" using same_heap_good [OF 1(3) Cons.prems(1)] by simp
    show "?L (scheduler ?st) \<subseteq> dom (nodes ?st)" "set as \<subseteq> dom (nodes ?st)"
      "set (concat (map (kids (nodes ?st)) as)) \<subseteq> dom (nodes ?st)"
      using Cons.prems(3-5) a(2) L same_heap_dom [OF 1(3)] by (auto simp: k)
    show "distinct (concat (map (kids (nodes ?st)) as))" using Cons.prems(6) by (simp add: k)
    show "set (concat (map (kids (nodes ?st)) as)) \<inter> ?L (scheduler ?st) = {}"
      using Cons.prems(6,7) L by (auto simp: k)
  qed (simp add: 1(2))
  moreover have "schedule_children ios a st = foldX (prog_schedule ios) (?k a) st"
    by (rule schedule_children_kids [OF io Cons.prems(1-3) a(1,2,4)])
  ultimately show ?case using 1(1) by (simp add: foldX_append k)
qed simp

section \<open>The loop of build\<close>

definition build_inv :: "addr \<Rightarrow> nat \<Rightarrow> nat \<Rightarrow> 'd kdTreeProgram \<Rightarrow> bool" where
  "build_inv io r c st \<longleftrightarrow> heap_good io r c (next_addr st) (nodes st) \<and> tree_good r (nodes st) (root st)
     \<and> lev_ok (scheduler st) \<and> set (concat (levels (scheduler st))) \<subseteq> dom (nodes st)
     \<and> 0 < current_level (scheduler st) \<and> current_level (scheduler st) \<le> Suc (prog_max_depth st)
     \<and> (\<forall>a\<in>dom (nodes st). kids (nodes st) a \<noteq> [] \<longrightarrow> spawnable (prog_max_depth st) (nodes st) a)"

text \<open>After the spawns, the children of the level are exactly the new nodes.\<close>

lemma spawned_kids:
  assumes "spawned md xs h nxt h' nxt'" "set xs \<subseteq> dom h" "\<forall>a\<in>dom h. kids h a \<noteq> [] \<longrightarrow> spawnable md h a"
  shows "concat (map (kids h') xs) = [nxt..<nxt']"
    and "\<forall>a\<in>dom h'. kids h' a \<noteq> [] \<longrightarrow> spawnable md h' a"
proof -
  note d = spawnedD [OF assms(1)]
  have old: "kids h' a = []" if "a \<in> set xs" "\<not> spawnable md h a" for a
  proof -
    have "a \<in> dom h" using assms(2) that(1) by blast
    with d(3) [of a] assms(3) that(2) show ?thesis using kids_links [of h' a h] by (auto simp: links_def)
  qed
  have "concat (map (kids h') ys) = concat (map (kids h') (filter (spawnable md h) ys))" if "set ys \<subseteq> set xs" for ys
    using that old by (induction ys) auto
  from this [OF subset_refl] d(5) show "concat (map (kids h') xs) = [nxt..<nxt']" by simp
  show "\<forall>a\<in>dom h'. kids h' a \<noteq> [] \<longrightarrow> spawnable md h' a"
  proof (intro ballI impI)
    fix a assume a: "a \<in> dom h'" "kids h' a \<noteq> []"
    show "spawnable md h' a"
    proof (cases "a \<in> dom h")
      case True
      from d(3) [OF this] show ?thesis
      proof
        assume "h' a = h a"
        then show ?thesis using a(2) True assms(3) kids_links [of h' a h] spawnable_cong [of h' a h]
          by (simp add: links_def)
      qed (use d(4) in blast)
    next
      case False
      then have "links h' a = Some (None, None)" using a(1) d(2,6) by auto
      then show ?thesis using a(2) by (auto simp: links_def kids_def)
    qed
  qed
qed

lemma same_heap_spawnable: "same_heap h h' \<Longrightarrow> spawnable md h' a = spawnable md h a"
  using same_heapD [of h h' a] same_heapD' [of h h' a]
  by (cases "h a"; cases "h' a") (auto simp: spawnable_def same_node_def dest: mset_eq_length)

lemma lev_ok_growth:
  assumes "lev_ok S" "lev_ok S'" "length (concat (levels S')) \<le> length (concat (levels S)) + 2 ^ current_level S"
  shows "current_level S' \<le> Suc (current_level S)"
proof -
  have "2 ^ current_level S' < 2 ^ Suc (current_level S) + (2 :: nat) ^ current_level S"
    using lev_ok_length(2) [OF assms(1)] lev_ok_length(1) [OF assms(2)] assms(3) by linarith
  also have "\<dots> \<le> 2 ^ Suc (Suc (current_level S))" by simp
  finally have "current_level S' < Suc (Suc (current_level S))" by (rule power_less_imp_less_exp [rotated]) simp
  then show ?thesis by simp
qed

lemma build_pass:
  assumes io: "io_ok ios io r c" and inv: "build_inv io r c st"
  obtains xs h1 nxt1 b where "get_nodes (current_level (scheduler st) - 1) (scheduler st) = Inr xs"
    "foldX (spawn_one g gd ios) xs (st, False) = Some (Inr (st\<lparr>nodes := h1, next_addr := nxt1\<rparr>, b))"
    "heap_good io r c nxt1 h1" "tree_good r h1 (root st)"
    "b \<Longrightarrow> current_level (scheduler st) - 1 \<noteq> prog_max_depth st \<Longrightarrow> \<exists>S2 h2.
       foldX (schedule_children ios) xs (st\<lparr>nodes := h1, next_addr := nxt1\<rparr>)
         = Some (Inr (st\<lparr>nodes := h2, next_addr := nxt1, scheduler := S2\<rparr>))
       \<and> build_inv io r c (st\<lparr>nodes := h2, next_addr := nxt1, scheduler := S2\<rparr>)
       \<and> length (concat (levels (scheduler st))) < length (concat (levels S2))"
proof -
  let ?S = "scheduler st" and ?md = "prog_max_depth st" and ?h = "nodes st" and ?nxt = "next_addr st"
  let ?cl = "current_level ?S" let ?xs = "levels ?S ! (?cl - 1)"
  have good: "heap_good io r c ?nxt ?h" and tree: "tree_good r ?h (root st)" and lev: "lev_ok ?S"
    and sub: "set (concat (levels ?S)) \<subseteq> dom ?h" and cl: "0 < ?cl" "?cl \<le> Suc ?md"
    and ks: "\<forall>a\<in>dom ?h. kids ?h a \<noteq> [] \<longrightarrow> spawnable ?md ?h a"
    using inv by (auto simp: build_inv_def)
  have xs: "?cl - 1 < length (levels ?S)" "length ?xs = 2 ^ (?cl - 1)" using lev cl(1) by (auto simp: lev_ok_def)
  then have in_l: "?xs \<in> set (levels ?S)" by simp
  then have d: "distinct ?xs" "set ?xs \<subseteq> dom ?h" using lev sub by (auto simp: lev_ok_def distinct_concat_iff)
  from spawn_pass [OF io good tree d, of g gd False] obtain h1 nxt1 where
    1: "foldX (spawn_one g gd ios) ?xs (st, False)
      = Some (Inr (st\<lparr>nodes := h1, next_addr := nxt1\<rparr>, \<exists>a\<in>set ?xs. spawnable ?md ?h a))"
      "heap_good io r c nxt1 h1" "tree_good r h1 (root st)" "spawned ?md ?xs ?h ?nxt h1 nxt1" by auto
  note s = spawnedD [OF 1(4)] and k = spawned_kids [OF 1(4) d(2) ks]
  let ?st1 = "st\<lparr>nodes := h1, next_addr := nxt1\<rparr>"
  show thesis
  proof (rule that [OF _ 1(1-3)])
    show "get_nodes (?cl - 1) ?S = Inr ?xs" using xs(1) by (simp add: get_nodes_def)
    assume b: "\<exists>a\<in>set ?xs. spawnable ?md ?h a" and nl: "?cl - 1 \<noteq> ?md"
    have new: "set (concat (levels ?S)) \<inter> {?nxt..<nxt1} = {}"
      using sub good by (force simp: heap_good_def)
    have inv1: "heap_good io r c nxt1 (nodes ?st1)" "lev_ok (scheduler ?st1)"
      "set (concat (levels (scheduler ?st1))) \<subseteq> dom (nodes ?st1)" "set ?xs \<subseteq> dom (nodes ?st1)"
      using 1(2) lev sub d(2) s(2) by auto
    have up: "set [?nxt..<nxt1] \<subseteq> dom (nodes ?st1)" "distinct [?nxt..<nxt1]"
      "set [?nxt..<nxt1] \<inter> set (concat (levels (scheduler ?st1))) = {}"
      using s(2) new by auto
    have k1: "concat (map (kids (nodes ?st1)) ?xs) = [?nxt..<nxt1]" using k(1) by simp
    have "foldX (schedule_children ios) ?xs ?st1 = foldX (prog_schedule ios) [?nxt..<nxt1] ?st1"
      using schedule_children_list [OF io inv1, unfolded k1, OF up] .
    moreover from schedule_list [OF io inv1(1-3) up] obtain S2 h2 where
      2: "foldX (prog_schedule ios) [?nxt..<nxt1] ?st1 = Some (Inr (?st1\<lparr>scheduler := S2, nodes := h2\<rparr>))" "lev_ok S2"
        "same_heap h1 h2" "?cl \<le> current_level S2"
        "mset (concat (levels S2)) = mset [?nxt..<nxt1] + mset (concat (levels ?S))" by auto
    moreover have len: "length (concat (levels S2)) = (nxt1 - ?nxt) + length (concat (levels ?S))"
      using arg_cong [OF 2(5), of size] by simp
    moreover have "?nxt < nxt1" using b s(7) by (auto simp: filter_empty_conv)
    moreover have "build_inv io r c (st\<lparr>nodes := h2, next_addr := nxt1, scheduler := S2\<rparr>)"
    proof -
      have "set (concat (levels S2)) = {?nxt..<nxt1} \<union> set (concat (levels ?S))"
        using arg_cong [OF 2(5), of set_mset] by simp
      then have "set (concat (levels S2)) \<subseteq> dom h2" using sub s(2) same_heap_dom [OF 2(3)] by auto
      moreover have "nxt1 - ?nxt \<le> 2 * 2 ^ (?cl - 1)"
        using s(7) length_filter_le [of "spawnable ?md ?h" ?xs, unfolded xs(2)] by simp
      then have "nxt1 - ?nxt \<le> 2 ^ ?cl" using cl(1) by (cases ?cl) simp_all
      then have "current_level S2 \<le> Suc ?cl" using len by (intro lev_ok_growth [OF lev 2(2)]) simp
      moreover have "kids h2 = kids h1" by (intro ext kids_links same_heap_links [OF 2(3)])
      ultimately show ?thesis
        using same_heap_good [OF 2(3) 1(2)] same_heap_tree [OF 2(3) 1(3)] 2(2,4) cl nl k(2)
          same_heap_dom [OF 2(3)] same_heap_spawnable [OF 2(3)]
        by (simp add: build_inv_def)
    qed
    ultimately show "\<exists>S2 h2. foldX (schedule_children ios) ?xs ?st1
         = Some (Inr (st\<lparr>nodes := h2, next_addr := nxt1, scheduler := S2\<rparr>))
       \<and> build_inv io r c (st\<lparr>nodes := h2, next_addr := nxt1, scheduler := S2\<rparr>)
       \<and> length (concat (levels ?S)) < length (concat (levels S2))"
      by (intro exI [of _ S2] exI [of _ h2]) simp
  qed
qed

text \<open>The loop ends, because every pass puts new nodes into levels whose number is bounded.\<close>

lemma build_levels_ok:
  assumes io: "io_ok ios io r c" and "build_inv io r c st"
  shows "\<exists>h nxt S. build_levels g gd ios st = Some (Inr (st\<lparr>nodes := h, next_addr := nxt, scheduler := S\<rparr>))
    \<and> heap_good io r c nxt h \<and> tree_good r h (root st)"
  using assms(2)
proof (induction "2 ^ (prog_max_depth st + 2) - length (concat (levels (scheduler st)))" arbitrary: st rule: less_induct)
  case less
  let ?cl = "current_level (scheduler st)" and ?md = "prog_max_depth st"
  have cl: "?cl - 1 \<le> ?md" "?cl \<le> Suc ?md" "lev_ok (scheduler st)" using less.prems by (auto simp: build_inv_def)
  obtain xs h1 nxt1 b where p: "get_nodes (?cl - 1) (scheduler st) = Inr xs"
    "foldX (spawn_one g gd ios) xs (st, False) = Some (Inr (st\<lparr>nodes := h1, next_addr := nxt1\<rparr>, b))"
    "heap_good io r c nxt1 h1" "tree_good r h1 (root st)"
    "b \<Longrightarrow> ?cl - 1 \<noteq> ?md \<Longrightarrow> \<exists>S2 h2. foldX (schedule_children ios) xs (st\<lparr>nodes := h1, next_addr := nxt1\<rparr>)
         = Some (Inr (st\<lparr>nodes := h2, next_addr := nxt1, scheduler := S2\<rparr>))
       \<and> build_inv io r c (st\<lparr>nodes := h2, next_addr := nxt1, scheduler := S2\<rparr>)
       \<and> length (concat (levels (scheduler st))) < length (concat (levels S2))"
    by (rule build_pass [OF io less.prems, of g gd]) blast
  note step = build_levels.simps [of g gd ios st]
  show ?case
  proof (cases "b \<and> ?cl - 1 \<noteq> ?md")
    case True
    with p(5) obtain S2 h2 where 2: "foldX (schedule_children ios) xs (st\<lparr>nodes := h1, next_addr := nxt1\<rparr>)
         = Some (Inr (st\<lparr>nodes := h2, next_addr := nxt1, scheduler := S2\<rparr>))"
      "build_inv io r c (st\<lparr>nodes := h2, next_addr := nxt1, scheduler := S2\<rparr>)"
      "length (concat (levels (scheduler st))) < length (concat (levels S2))" by blast
    let ?st = "st\<lparr>nodes := h2, next_addr := nxt1, scheduler := S2\<rparr>"
    have "Suc (length (concat (levels (scheduler st)))) < 2 ^ Suc ?cl" by (rule lev_ok_length(2) [OF cl(3)])
    also have "\<dots> \<le> 2 ^ (?md + 2)" using cl(2) by (intro power_increasing) simp_all
    finally have "2 ^ (prog_max_depth ?st + 2) - length (concat (levels (scheduler ?st)))
      < 2 ^ (?md + 2) - length (concat (levels (scheduler st)))"
      using 2(3) by (simp del: length_concat)
    from less.hyps [OF this 2(2)] obtain h nxt S where
      "build_levels g gd ios ?st = Some (Inr (?st\<lparr>nodes := h, next_addr := nxt, scheduler := S\<rparr>))"
      "heap_good io r c nxt h" "tree_good r h (root st)" by auto
    moreover from this True cl(1) p(1,2) 2(1) have
      "build_levels g gd ios st = Some (Inr (st\<lparr>nodes := h, next_addr := nxt, scheduler := S\<rparr>))" by (simp add: step)
    ultimately show ?thesis by blast
  next
    case False
    then have "build_levels g gd ios st = Some (Inr (st\<lparr>nodes := h1, next_addr := nxt1, scheduler := scheduler st\<rparr>))"
      using cl(1) p(1,2) by (auto simp: step)
    with p(3,4) show ?thesis by blast
  qed
qed

section \<open>Building a tree\<close>

text \<open>A program whose root has been set and that has not been built yet.\<close>

definition prog_ready :: "addr \<Rightarrow> nat \<Rightarrow> 'd kdTreeProgram \<Rightarrow> bool" where
  "prog_ready io c st \<longleftrightarrow> (\<exists>a n w T. root st = Some a \<and> nodes st = [a \<mapsto> n] \<and> a < next_addr st
     \<and> ioer n = Some io \<and> req_indxs n = [w] \<and> unat w < c \<and> split_dim n < c \<and> ids n = []
     \<and> bleft n = None \<and> bright n = None
     \<and> scheduler st = Scheduler_new 2 (prog_max_depth st) (tree_id st) T \<and> 0 < T \<and> T < 2 ^ 32)"

lemma Scheduler_new_ok: "0 < T \<Longrightarrow> T < 2 ^ 32 \<Longrightarrow> lev_ok (Scheduler_new 2 md tid T)"
  by (auto simp: lev_ok_def Scheduler_new_def sched_ok_def queues_idle_def queues_content_def BuildTaskQueue_new_def)

lemma build_first:
  assumes io: "io_ok ios io r c" and ready: "prog_ready io c st"
  shows "\<exists>a h S. root st = Some a \<and> prog_schedule ios a st = Some (Inr (st\<lparr>scheduler := S, nodes := h\<rparr>))
    \<and> build_inv io r c (st\<lparr>scheduler := S, nodes := h\<rparr>)"
proof -
  from ready obtain a n w T where st: "root st = Some a" "nodes st = [a \<mapsto> n]" "a < next_addr st"
    and n: "ioer n = Some io" "req_indxs n = [w]" "unat w < c" "split_dim n < c" "ids n = []" "bleft n = None" "bright n = None"
    and S: "scheduler st = Scheduler_new 2 (prog_max_depth st) (tree_id st) T" "0 < T" "T < 2 ^ 32"
    by (auto simp: prog_ready_def)
  let ?S = "scheduler st"
  from kd_process_root [OF io n(1-3,5)] obtain n' where n': "kd_process ios n = Inr n'"
    "mset (ids n') = mset (all_ids r)" "same_node (n\<lparr>data_index := data_index n'\<rparr>) n'" by blast
  have lev: "lev_ok ?S" unfolding S(1) using S(2,3) by (rule Scheduler_new_ok)
  have l: "levels ?S = []" "current_level ?S = 0" by (simp_all add: S(1) Scheduler_new_def)
  have "runs_on (kd_process ios) {a} (nodes st)" using st(2) n'(1) by (simp add: runs_on_def)
  then obtain S' A where s: "schedule (on_node (kd_process ios)) a ?S (nodes st)
      = Some (Inr (S', update_all (kd_process ios) A (nodes st)))" "lev_ok S'" "levels S' = [[a]]"
    "current_level S' = 0 \<and> A = {} \<or> current_level S' = 1 \<and> A = {a}"
    using schedule_ok [OF lev, of a "kd_process ios" "nodes st"] l by auto
  have A: "current_level S' = 1" "A = {a}" using s(2-4) by (auto simp: lev_ok_def)
  let ?h = "[a \<mapsto> n']"
  have h: "update_all (kd_process ios) A (nodes st) = ?h" using A n'(1) by (auto simp: update_all_def st(2))
  have fl: "ioer n' = Some io" "req_indxs n' = [w]" "split_dim n' < c" "bleft n' = None" "bright n' = None"
    using n'(3) n by (auto simp: same_node_def)
  have r: "0 < r" "r < 2 ^ 32" using io by (simp_all add: io_ok_def)
  have i: "set (ids n') = set (all_ids r)" using n'(2) by (rule mset_eq_setD)
  moreover have "all_ids r \<noteq> []" using r by (simp add: all_ids_def)
  ultimately have "kd_good io r c n'"
    using fl n(3) unat_all_ids [OF r(2)] by (auto simp: kd_good_def)
  then have "heap_good io r c (next_addr st) ?h" using st(3) by (simp add: heap_good_def)
  moreover have "tree_good r ?h (root st)"
    unfolding tree_good_def using st(1) fl n'(2) by (intro exI [of _ "Lf a"]) (simp add: links_def idsof_def)
  moreover have "kids ?h b = []" for b using fl by (simp add: kids_def)
  ultimately have "build_inv io r c (st\<lparr>scheduler := S', nodes := ?h\<rparr>)"
    using s(2,3) A by (simp add: build_inv_def)
  with s(1) h st(1) show ?thesis by (auto simp: prog_schedule_def)
qed

theorem build_ok:
  assumes "io_ok ios io r c" "prog_ready io c st"
  shows "\<exists>h nxt S. build g gd ios st = Some (Inr (st\<lparr>nodes := h, next_addr := nxt, scheduler := S\<rparr>))
    \<and> heap_good io r c nxt h \<and> tree_good r h (root st)"
proof -
  from build_first [OF assms] obtain a h S where 1: "root st = Some a"
    "prog_schedule ios a st = Some (Inr (st\<lparr>scheduler := S, nodes := h\<rparr>))"
    "build_inv io r c (st\<lparr>scheduler := S, nodes := h\<rparr>)" by blast
  from build_levels_ok [OF assms(1) this(3), of g gd] obtain h' nxt S' where
    "build_levels g gd ios (st\<lparr>scheduler := S, nodes := h\<rparr>)
      = Some (Inr (st\<lparr>nodes := h', next_addr := nxt, scheduler := S'\<rparr>))"
    "heap_good io r c nxt h'" "tree_good r h' (root st)" by auto
  moreover from this 1(1,2) have "build g gd ios st = Some (Inr (st\<lparr>nodes := h', next_addr := nxt, scheduler := S'\<rparr>))"
    by (simp add: build_def)
  ultimately show ?thesis by blast
qed

end
