(* ===== verification/KD_Search.thy ===== *)
theory KD_Search
  imports KD_Build
begin

text \<open>
  Searching a k-d tree: \<^verbatim>\<open>kdTreeProgram::find_neighbors\<close> walks down to the leaf of the query,
  then works off the stack of visited nodes. The lemmas show that every leaf below the root is
  evaluated exactly once, whatever way the descent took, so that the result holds the nearest of
  all samples.
\<close>

section \<open>The walk down\<close>

text \<open>A way from the root of a tree to one of its leaves.\<close>

fun dpath :: "kt \<Rightarrow> addr list \<Rightarrow> bool" where
  "dpath (Lf a) p \<longleftrightarrow> p = [a]"
| "dpath (Nd a l r) p \<longleftrightarrow> (\<exists>q. p = a # q \<and> (dpath l q \<or> dpath r q))"

definition splits_ok :: "nat \<Rightarrow> 'd kdnode heap \<Rightarrow> bool" where
  "splits_ok c h \<longleftrightarrow> (\<forall>a n. h a = Some n \<longrightarrow> split_dim n < c)"

lemma descend_path:
  assumes "splits_ok (length (dv_data s)) h" "kdt h t"
  shows "\<exists>p. dpath t p \<and> descend h s (Some (top t)) vs = Some (Inr (vs @ p))"
  using assms(2)
proof (induction t arbitrary: vs)
  case (Lf a)
  then obtain n where n: "h a = Some n" "bleft n = None" "bright n = None" by (auto simp: links_def)
  with assms(1) show ?case
    by (subst descend.simps) (simp add: splits_ok_def deref_def DenseVector_nth_def stack_push_def Let_def)
next
  case (Nd a l r)
  then obtain n where n: "h a = Some n" "bleft n = Some (top l)" "bright n = Some (top r)" by (auto simp: links_def)
  let ?x = "dv_data s ! split_dim n"
  have x: "DenseVector_nth s (split_dim n) = Inr ?x"
    using assms(1) n(1) by (simp add: splits_ok_def DenseVector_nth_def)
  obtain p where p: "dpath l p \<or> dpath r p"
    "descend h s (if ?x > comparator n then Some (top r) else Some (top l)) (vs @ [a]) = Some (Inr ((vs @ [a]) @ p))"
    using Nd.IH(1) [of "vs @ [a]"] Nd.IH(2) [of "vs @ [a]"] Nd.prems by (cases "?x > comparator n") auto
  have "descend h s (Some a) vs = Some (Inr (vs @ a # p))"
    using p(2) n x by (subst descend.simps) (auto simp: deref_def stack_push_def Let_def)
  with p(1) show ?case by auto
qed

section \<open>Working off the stack\<close>

definition eval_at ::
  "'d::linorder fops \<Rightarrow> 'd MemoryIO heap \<Rightarrow> 'd kdnode heap \<Rightarrow> nat \<Rightarrow> addr \<Rightarrow> 'd ProximityQuery \<Rightarrow> 'd ProximityQuery exec" where
  "eval_at F ios h tid a q = bindX (Some (deref h (Some a))) (\<lambda>n. eval_leaf F ios tid n q)"

text \<open>
  The loop with the stack \<open>vs @ us\<close> works off \<open>us\<close> by evaluating the leaves \<open>xs\<close>, marks
  \<open>A\<close> and goes on with \<open>vs\<close>.
\<close>

definition works_off ::
  "'d::linorder fops \<Rightarrow> 'd MemoryIO heap \<Rightarrow> 'd kdnode heap \<Rightarrow> nat \<Rightarrow> addr set \<Rightarrow> addr list \<Rightarrow> addr list \<Rightarrow> addr set \<Rightarrow> bool" where
  "works_off F ios h tid compl us xs A \<longleftrightarrow> (\<forall>vs q. visit_loop F ios h tid (vs @ us, compl, q)
     = bindX (foldX (eval_at F ios h tid) xs q) (\<lambda>q. visit_loop F ios h tid (vs, compl \<union> A, q)))"

lemma works_off_Nil: "works_off F ios h tid compl [] [] {}"
  by (simp add: works_off_def)

lemma works_off_append:
  assumes "works_off F ios h tid compl us2 xs2 A2" "works_off F ios h tid (compl \<union> A2) us1 xs1 A1"
  shows "works_off F ios h tid compl (us1 @ us2) (xs2 @ xs1) (A1 \<union> A2)"
proof -
  have "visit_loop F ios h tid (vs @ us1 @ us2, compl, q) = bindX (foldX (eval_at F ios h tid) (xs2 @ xs1) q)
      (\<lambda>q. visit_loop F ios h tid (vs, compl \<union> (A1 \<union> A2), q))" for vs q
    using assms(1) [unfolded works_off_def, rule_format, of "vs @ us1" q] assms(2)
    by (simp add: works_off_def foldX_append bindX_assoc Un_ac)
  then show ?thesis by (simp add: works_off_def)
qed

lemma works_off_leaf:
  assumes "links h a = Some (None, None)"
  shows "works_off F ios h tid compl [a] [a] {a}"
proof -
  obtain n where n: "h a = Some n" "bleft n = None" "bright n = None" using assms by (auto simp: links_def)
  have "visit_loop F ios h tid (vs @ [a], compl, q) = bindX (foldX (eval_at F ios h tid) [a] q)
      (\<lambda>q. visit_loop F ios h tid (vs, compl \<union> {a}, q))" for vs q
    using n by (subst visit_loop.simps)
      (simp add: visit_node_def stack_pop_def deref_def has_child_def eval_at_def bindX_assoc)
  then show ?thesis by (simp add: works_off_def)
qed

text \<open>An inner node is replaced by those of its children that are not complete.\<close>

lemma works_off_inner:
  assumes "links h a = Some (Some l, Some r)" "l \<in> dom h" "r \<in> dom h"
    and "works_off F ios h tid (insert a compl) (filter (\<lambda>b. b \<notin> compl) [l, r]) xs A"
  shows "works_off F ios h tid compl [a] xs (insert a A)"
proof -
  obtain n nl nr where n: "h a = Some n" "bleft n = Some l" "bright n = Some r" "h l = Some nl" "h r = Some nr"
    using assms(1-3) by (auto simp: links_def)
  have "visit_loop F ios h tid (vs @ [a], compl, q)
      = visit_loop F ios h tid (vs @ filter (\<lambda>b. b \<notin> compl) [l, r], insert a compl, q)" for vs q
    using n by (subst visit_loop.simps)
      (simp add: visit_node_def stack_pop_def deref_def has_child_def push_child_def stack_push_def
        inj_image_mem_iff [OF inj_Some])
  with assms(4) show ?thesis by (simp add: works_off_def)
qed

lemma kdt_dom: "kdt h t \<Longrightarrow> set (kaddrs t) \<subseteq> dom h"
  by (induction t) (auto simp: links_def)

lemma top_dom: "kdt h t \<Longrightarrow> top t \<in> dom h"
  using kdt_dom [of h t] top_in_kaddrs [of t] by blast

lemma top_disjoint: "set (kaddrs t) \<inter> A = {} \<Longrightarrow> top t \<notin> A"
  using top_in_kaddrs [of t] by blast

text \<open>A subtree no node of which is complete is evaluated leaf by leaf.\<close>

lemma works_off_subtree:
  assumes "kdt h t" "distinct (kaddrs t)" "set (kaddrs t) \<inter> compl = {}"
  shows "\<exists>xs. mset xs = mset (leaves t) \<and> works_off F ios h tid compl [top t] xs (set (kaddrs t))"
  using assms
proof (induction t arbitrary: compl)
  case (Lf a)
  then show ?case using works_off_leaf [of h a F ios tid compl] by auto
next
  case (Nd a l r)
  have top: "top l \<in> dom h" "top r \<in> dom h" "top l \<notin> compl" "top r \<notin> compl"
    using Nd.prems by (auto intro!: top_dom top_disjoint simp del: domIff)
  obtain xr where r: "mset xr = mset (leaves r)" "works_off F ios h tid (insert a compl) [top r] xr (set (kaddrs r))"
    using Nd.IH(2) [of "insert a compl"] Nd.prems by auto
  obtain xl where l: "mset xl = mset (leaves l)"
    "works_off F ios h tid (insert a compl \<union> set (kaddrs r)) [top l] xl (set (kaddrs l))"
    using Nd.IH(1) [of "insert a compl \<union> set (kaddrs r)"] Nd.prems by auto
  have "works_off F ios h tid (insert a compl) [top l, top r] (xr @ xl) (set (kaddrs l) \<union> set (kaddrs r))"
    using works_off_append [OF r(2) l(2)] by simp
  then have "works_off F ios h tid compl [a] (xr @ xl) (insert a (set (kaddrs l) \<union> set (kaddrs r)))"
    using Nd.prems(1) top by (intro works_off_inner [of h a "top l" "top r"]) simp_all
  with l(1) r(1) show ?case by (intro exI [of _ "xr @ xl"]) simp
qed

lemma works_off_half:
  assumes "links h a = Some (Some l, Some r)" "l \<in> dom h" "r \<in> dom h" "{l, r} = {b, top t}" "b \<in> compl"
    and t: "kdt h t" "distinct (kaddrs t)" "set (kaddrs t) \<inter> compl = {}" "a \<notin> set (kaddrs t)"
  shows "\<exists>xs. mset xs = mset (leaves t) \<and> works_off F ios h tid compl [a] xs (insert a (set (kaddrs t)))"
proof -
  have "top t \<notin> compl" using t(3) by (rule top_disjoint)
  then have "filter (\<lambda>b. b \<notin> compl) [l, r] = [top t]" using assms(4,5) by (auto simp: doubleton_eq_iff)
  moreover obtain xs where "mset xs = mset (leaves t)" "works_off F ios h tid (insert a compl) [top t] xs (set (kaddrs t))"
    using works_off_subtree [OF t(1,2), of "insert a compl" F ios tid] t(3,4) by auto
  ultimately show ?thesis using works_off_inner [OF assms(1-3), of F ios tid compl] by metis
qed

lemma works_off_path:
  assumes "kdt h t" "distinct (kaddrs t)" "set (kaddrs t) \<inter> compl = {}" "dpath t p"
  shows "\<exists>xs. mset xs = mset (leaves t) \<and> works_off F ios h tid compl p xs (set (kaddrs t))"
  using assms
proof (induction t arbitrary: p)
  case (Lf a)
  then show ?case using works_off_leaf [of h a F ios tid compl] by auto
next
  case (Nd a l r)
  have lk: "links h a = Some (Some (top l), Some (top r))" and top: "top l \<in> dom h" "top r \<in> dom h"
    using Nd.prems(1) by (simp_all add: top_dom del: domIff)
  have sub: "kdt h l" "kdt h r" "distinct (kaddrs l)" "distinct (kaddrs r)" "set (kaddrs l) \<inter> compl = {}"
    "set (kaddrs r) \<inter> compl = {}" "set (kaddrs l) \<inter> set (kaddrs r) = {}" "a \<notin> set (kaddrs l)" "a \<notin> set (kaddrs r)"
    using Nd.prems by auto
  from Nd.prems(4) consider q where "p = [a] @ q" "dpath l q" | q where "p = [a] @ q" "dpath r q" by auto
  then show ?case
  proof cases
    case 1
    from Nd.IH(1) [OF sub(1,3,5) 1(2)] obtain xl where
      l: "mset xl = mset (leaves l)" "works_off F ios h tid compl q xl (set (kaddrs l))" by blast
    obtain xr where r: "mset xr = mset (leaves r)"
      "works_off F ios h tid (compl \<union> set (kaddrs l)) [a] xr (insert a (set (kaddrs r)))"
      using works_off_half [OF lk top, of "top l" r "compl \<union> set (kaddrs l)" F ios tid] sub by auto
    from works_off_append [OF l(2) r(2)] l(1) r(1) 1(1) show ?thesis
      by (intro exI [of _ "xl @ xr"]) (simp add: Un_ac)
  next
    case 2
    from Nd.IH(2) [OF sub(2,4,6) 2(2)] obtain xr where
      r: "mset xr = mset (leaves r)" "works_off F ios h tid compl q xr (set (kaddrs r))" by blast
    obtain xl where l: "mset xl = mset (leaves l)"
      "works_off F ios h tid (compl \<union> set (kaddrs r)) [a] xl (insert a (set (kaddrs l)))"
      using works_off_half [OF lk top, of "top r" l "compl \<union> set (kaddrs r)" F ios tid] sub by auto
    from works_off_append [OF r(2) l(2)] l(1) r(1) 2(1) show ?thesis
      by (intro exI [of _ "xr @ xl"]) (simp add: Un_ac)
  qed
qed

section \<open>Evaluating the leaves\<close>

definition row_dist :: "'d fops \<Rightarrow> 'd MemoryIO \<Rightarrow> 'd list \<Rightarrow> nat \<Rightarrow> 'd" where
  "row_dist F m s i = dist_of F s (map (mio_entry m i) [0..<snd (mio_dim m)]) (length s)"

definition kd_cand :: "'d fops \<Rightarrow> 'd MemoryIO \<Rightarrow> 'd list \<Rightarrow> sample_id_t \<Rightarrow> 'd IndexVal" where
  "kd_cand F m s i = IndexVal i (row_dist F m s (unat i))"

lemma dist_of_take: "take n ys = zs \<Longrightarrow> dist_of F xs ys n = dist_of F xs zs n"
  unfolding dist_of_def take_zip by (auto simp: min_def)

lemma kd_distance_ok:
  assumes "ios io = Some m" "mio_ok m" "mio_dim m = (r, c)" "ioer n = Some io" "unat i < r" "length s = c"
  shows "kd_distance F ios s i n = Inr (row_dist F m s (unat i))"
proof -
  obtain buf where b: "mio_get_row (unat i) m = Inr buf" "take c buf = map (mio_entry m (unat i)) [0..<c]"
    using mio_get_row_ok [OF assms(2), of "unat i"] assms(3,5) by auto
  have "length s \<le> length buf" using arg_cong [OF b(2), of length] assms(6) by simp
  moreover have "dist_of F s buf c = row_dist F m s (unat i)"
    using dist_of_take [OF b(2)] assms(3,6) by (simp add: row_dist_def)
  ultimately show ?thesis using b(1) assms by (simp add: kd_distance_def deref_def euclidean_eq)
qed

abbreviation with_result :: "nat \<Rightarrow> 'd ProximityQuery \<Rightarrow> 'd NNVector \<Rightarrow> 'd ProximityQuery" where
  "with_result tid q v \<equiv> q\<lparr>result := (result q)[tid := v]\<rparr>"

lemma eval_leaf_ok:
  assumes io: "ios io = Some m" "mio_ok m" "mio_dim m = (r, c)" and n: "ioer n = Some io" "\<forall>i\<in>set (ids n). unat i < r"
    and q: "length (dv_data (qsample q)) = c" "tid < length (result q)"
  shows "eval_leaf F ios tid n q =
    bindX (foldX NNVector_eval (map (kd_cand F m (dv_data (qsample q))) (ids n)) (result q ! tid))
      (\<lambda>v. Some (Inr (with_result tid q v)))"
proof -
  let ?f = "\<lambda>iv q. bindX (Some (kd_distance F ios (dv_data (qsample q)) (get_index iv) n)) (\<lambda>dst.
        query_eval (get_index iv) dst tid q)"
  have "foldX ?f ivs q = bindX (foldX NNVector_eval (map (kd_cand F m (dv_data (qsample q))) (map get_index ivs)) (result q ! tid))
      (\<lambda>v. Some (Inr (with_result tid q v)))" if "\<forall>iv\<in>set ivs. unat (get_index iv) < r" for ivs
    using that q
  proof (induction ivs arbitrary: q)
    case (Cons iv ivs)
    let ?s = "dv_data (qsample q)"
    have "kd_distance F ios ?s (get_index iv) n = Inr (row_dist F m ?s (unat (get_index iv)))"
      using Cons.prems by (intro kd_distance_ok [of ios io m r c n, OF io n(1)]) simp_all
    then have step: "?f iv q = bindX (NNVector_eval (kd_cand F m ?s (get_index iv)) (result q ! tid))
        (\<lambda>v. Some (Inr (with_result tid q v)))"
      using Cons.prems(3) by (simp add: query_eval_def kd_cand_def)
    have "foldX ?f ivs (with_result tid q v) = bindX (foldX NNVector_eval (map (kd_cand F m ?s) (map get_index ivs)) v)
        (\<lambda>v'. Some (Inr (with_result tid q v')))" for v
      using Cons.IH [of "with_result tid q v"] Cons.prems by simp
    then show ?case by (simp only: foldX.simps step list.map bindX_assoc bindX_simps)
  qed simp
  then show ?thesis using n(2) by (simp add: eval_leaf_def ids_def)
qed

definition idlist :: "'d kdnode heap \<Rightarrow> addr \<Rightarrow> sample_id_t list" where
  "idlist h a = (case h a of None \<Rightarrow> [] | Some n \<Rightarrow> ids n)"

lemma eval_leaves_ok:
  assumes io: "ios io = Some m" "mio_ok m" "mio_dim m = (r, c)" and good: "heap_good io r c nxt h"
    and "set xs \<subseteq> dom h" "length (dv_data (qsample q)) = c" "tid < length (result q)"
  shows "foldX (eval_at F ios h tid) xs q =
    bindX (foldX NNVector_eval (map (kd_cand F m (dv_data (qsample q))) (concat (map (idlist h) xs))) (result q ! tid))
      (\<lambda>v. Some (Inr (with_result tid q v)))"
  using assms(5-)
proof (induction xs arbitrary: q)
  case (Cons x xs)
  let ?s = "dv_data (qsample q)"
  from Cons.prems(1) obtain n where n: "h x = Some n" by auto
  with good have g: "ioer n = Some io" "\<forall>i\<in>set (ids n). unat i < r" by (auto simp: heap_good_def kd_good_def)
  have step: "eval_at F ios h tid x q = bindX (foldX NNVector_eval (map (kd_cand F m ?s) (ids n)) (result q ! tid))
      (\<lambda>v. Some (Inr (with_result tid q v)))"
    using eval_leaf_ok [of ios io m r c n q tid F, OF io g Cons.prems(2,3)] n by (simp add: eval_at_def deref_def)
  have "foldX (eval_at F ios h tid) xs (with_result tid q v) =
      bindX (foldX NNVector_eval (map (kd_cand F m ?s) (concat (map (idlist h) xs))) v)
        (\<lambda>v'. Some (Inr (with_result tid q v')))" for v
    using Cons.IH [of "with_result tid q v"] Cons.prems by simp
  moreover have "idlist h x = ids n" using n by (simp add: idlist_def)
  ultimately show ?case by (simp add: step foldX_append bindX_assoc)
qed simp

section \<open>The result of a search\<close>

lemma mset_idlist: "kdt h t \<Longrightarrow> mset xs = mset (leaves t) \<Longrightarrow> mset (concat (map (idlist h) xs)) = idsof h (top t)"
proof -
  assume t: "kdt h t" and xs: "mset xs = mset (leaves t)"
  have "mset (idlist h a) = idsof h a" for a by (simp add: idlist_def idsof_def split: option.splits)
  then have 1: "mset (concat (map (idlist h) ys)) = sum_list (map (idsof h) ys)" for ys by (induction ys) simp_all
  have "sum_list (map (idsof h) xs) = sum_list (map (idsof h) (leaves t))"
    by (metis xs mset_map sum_mset_sum_list)
  with 1 kdt_leaves_ids [OF t] show ?thesis by simp
qed

lemma sort_mset_cong: "mset xs = mset ys \<Longrightarrow> sort xs = sort (ys :: 'a::linorder list)"
  by (rule properties_for_sort) simp_all

lemma map_all_ids: "r < 2 ^ 32 \<Longrightarrow> map (\<lambda>i. f (unat i)) (all_ids r) = map f [0..<r]"
  by (auto simp: all_ids_def unsigned_of_nat take_bit_nat_eq_self)

text \<open>A search of a well-formed tree sees every sample once and keeps the nearest.\<close>

lemma find_neighbors_ok:
  assumes io: "ios io = Some m" "mio_ok m" "mio_dim m = (r, c)" "r < 2 ^ 32"
    and good: "heap_good io r c nxt (nodes st)" "tree_good r (nodes st) (root st)"
    and q: "length (dv_data (qsample q)) = c" "tree_id st < length (result q)" "nn_abs (result q ! tree_id st) []"
  shows "\<exists>v xs A. find_neighbors F ios q st = Some (Inr (with_result (tree_id st) q v, st\<lparr>completed := A\<rparr>))
    \<and> nn_abs v xs \<and> mset xs \<subseteq># mset (map (kd_cand F m (dv_data (qsample q))) (all_ids r))
    \<and> map get_val xs = take (unat (k (result q ! tree_id st))) (sort (map (row_dist F m (dv_data (qsample q))) [0..<r]))"
proof -
  let ?h = "nodes st" and ?tid = "tree_id st" and ?s = "dv_data (qsample q)"
  from good(2) obtain t where t: "root st = Some (top t)" "kdt ?h t" "distinct (kaddrs t)"
    "idsof ?h (top t) = mset (all_ids r)" by (auto simp: tree_good_def)
  have "splits_ok (length ?s) ?h" using good(1) q(1) by (auto simp: splits_ok_def heap_good_def kd_good_def)
  from descend_path [OF this t(2), of "[]"] obtain p where p: "dpath t p"
    "descend ?h (qsample q) (root st) [] = Some (Inr p)" using t(1) by auto
  from works_off_path [OF t(2,3) _ p(1), of "{}" F ios ?tid] obtain ys where
    ys: "mset ys = mset (leaves t)" "works_off F ios ?h ?tid {} p ys (set (kaddrs t))" by auto
  let ?ivs = "map (kd_cand F m ?s) (concat (map (idlist ?h) ys))"
  have "set ys \<subseteq> dom ?h"
    using leaves_subset [of t] kdt_dom [OF t(2)] mset_eq_setD [OF ys(1)] by auto
  from eval_leaves_ok [of ios io m r c nxt ?h ys q ?tid F, OF io(1-3) good(1) this q(1,2)]
  have ev: "foldX (eval_at F ios ?h ?tid) ys q =
      bindX (foldX NNVector_eval ?ivs (result q ! ?tid)) (\<lambda>v. Some (Inr (with_result ?tid q v)))" .
  from nnv.eval_all_nearest [OF q(3), of ?ivs] obtain v xs where
    v: "foldX NNVector_eval ?ivs (result q ! ?tid) = Some (Inr v)" "nn_abs v xs" "mset xs \<subseteq># mset ?ivs"
      "map get_val xs = take (unat (k (result q ! ?tid))) (sort (map get_val ?ivs))" by blast
  have ids: "mset (concat (map (idlist ?h) ys)) = mset (all_ids r)" using mset_idlist [OF t(2) ys(1)] t(4) by simp
  have "visit_loop F ios ?h ?tid ([] @ p, {}, q) = visit_loop F ios ?h ?tid ([], {} \<union> set (kaddrs t), with_result ?tid q v)"
    using ys(2) [unfolded works_off_def, rule_format, of "[]" q] by (simp add: ev v(1))
  also have "\<dots> = Some (Inr (set (kaddrs t), with_result ?tid q v))" by (subst visit_loop.simps) simp
  finally have "find_neighbors F ios q st = Some (Inr (with_result ?tid q v, st\<lparr>completed := set (kaddrs t)\<rparr>))"
    using p(2) by (simp add: find_neighbors_def)
  moreover have "mset xs \<subseteq># mset (map (kd_cand F m ?s) (all_ids r))" using v(3) ids by simp
  moreover have "sort (map get_val ?ivs) = sort (map (\<lambda>i. row_dist F m ?s (unat i)) (all_ids r))"
    using ids by (intro sort_mset_cong) (simp add: kd_cand_def multiset.map_comp comp_def)
  then have "map get_val xs = take (unat (k (result q ! ?tid))) (sort (map (row_dist F m ?s) [0..<r]))"
    using v(4) map_all_ids [OF io(4), of "row_dist F m ?s"] by simp
  ultimately show ?thesis using v(2) by blast
qed

end
