(* ===== verification/Compute_Engine.thy ===== *)
theory Compute_Engine
  imports KD_Search
begin

text \<open>
  \<^verbatim>\<open>src/src/ComputeEngine.hpp\<close>, a template over the tree program, whose constructor, \<open>build\<close>
  and \<open>run\<close> are arguments here, and the set-up of a forest of k-d trees in
  \<^verbatim>\<open>src/src/examples/kdtree.cpp\<close>. The trees share one matrix, the singleton of the
  factory; each has its own nodes, so that building them in parallel is building them one
  after the other.
\<close>

section \<open>The engine\<close>

record 'p ComputeEngine =
  forest :: "'p list"
  params :: Params

text \<open>The loop over the tree numbers; the state \<open>s\<close> is what the constructors share.\<close>

fun create_trees :: "(nat \<Rightarrow> 's \<Rightarrow> ('p \<times> 's) result) \<Rightarrow> nat \<Rightarrow> nat \<Rightarrow> 's \<Rightarrow> ('p list \<times> 's) result" where
  "create_trees prog tid 0 s = Inr ([], s)"
| "create_trees prog tid (Suc n) s =
     bindE (prog tid s) (\<lambda>(p, s).
     bindE (create_trees prog (tid + 1) n s) (\<lambda>(ps, s). Inr (p # ps, s)))"

definition ComputeEngine_create ::
  "(nat \<Rightarrow> 's \<Rightarrow> ('p \<times> 's) result) \<Rightarrow> Params \<Rightarrow> 's \<Rightarrow> ('p ComputeEngine \<times> 's) result" where
  "ComputeEngine_create prog par s =
     bindE (create_trees prog 0 (ntree par) s) (\<lambda>(ps, s). Inr (\<lparr>forest = ps, params = par\<rparr>, s))"

definition ComputeEngine_of_forest :: "Params \<Rightarrow> 'p list \<Rightarrow> 'p ComputeEngine" where
  "ComputeEngine_of_forest par ps = \<lparr>forest = ps, params = par\<rparr>"

definition set_params :: "Params \<Rightarrow> 'p ComputeEngine \<Rightarrow> 'p ComputeEngine" where
  "set_params par e = e\<lparr>params := par\<rparr>"

definition add_tree :: "'p \<Rightarrow> 'p ComputeEngine \<Rightarrow> 'p ComputeEngine" where
  "add_tree p e = e\<lparr>forest := forest e @ [p]\<rparr>"

definition get_tree :: "nat \<Rightarrow> 'p ComputeEngine \<Rightarrow> 'p result" where
  "get_tree i e = read_at (forest e) i"

fun build_trees :: "('p \<Rightarrow> 'p exec) \<Rightarrow> 'p list \<Rightarrow> 'p list exec" where
  "build_trees bld [] = Some (Inr [])"
| "build_trees bld (p # ps) =
     bindX (bld p) (\<lambda>p. bindX (build_trees bld ps) (\<lambda>ps. Some (Inr (p # ps))))"

definition train :: "('p \<Rightarrow> 'p exec) \<Rightarrow> 'p ComputeEngine \<Rightarrow> 'p ComputeEngine exec" where
  "train bld e =
     bindX (Some (guardE (length (forest e) = ntree (params e)) assert_failure)) (\<lambda>_.
     bindX (build_trees bld (forest e)) (\<lambda>ps. Some (Inr (e\<lparr>forest := ps\<rparr>))))"

fun query_trees :: "('p \<Rightarrow> 'q \<Rightarrow> ('q \<times> 'p) exec) \<Rightarrow> 'p list \<Rightarrow> 'q \<Rightarrow> ('p list \<times> 'q) exec" where
  "query_trees run [] q = Some (Inr ([], q))"
| "query_trees run (p # ps) q =
     bindX (run p q) (\<lambda>(q, p). bindX (query_trees run ps q) (\<lambda>(ps, q). Some (Inr (p # ps, q))))"

definition query :: "('p \<Rightarrow> 'q \<Rightarrow> ('q \<times> 'p) exec) \<Rightarrow> 'q \<Rightarrow> 'p ComputeEngine \<Rightarrow> ('p ComputeEngine \<times> 'q) exec" where
  "query run q e = bindX (query_trees run (forest e) q) (\<lambda>(ps, q). Some (Inr (e\<lparr>forest := ps\<rparr>, q)))"

definition predict :: "'p ComputeEngine \<Rightarrow> unit result" where
  "predict e = Inl not_implemented_exception"

fun destroy_trees :: "('p \<Rightarrow> 's \<Rightarrow> 's result) \<Rightarrow> 'p list \<Rightarrow> 's \<Rightarrow> 's result" where
  "destroy_trees destroy [] s = Inr s"
| "destroy_trees destroy (p # ps) s = bindE (destroy p s) (destroy_trees destroy ps)"

definition ComputeEngine_dtor :: "('p \<Rightarrow> 's \<Rightarrow> 's result) \<Rightarrow> 'p ComputeEngine \<Rightarrow> 's \<Rightarrow> 's result" where
  "ComputeEngine_dtor destroy e s =
     bindE (guardE (length (forest e) = ntree (params e)) assert_failure) (\<lambda>_. destroy_trees destroy (forest e) s)"

section \<open>A forest of k-d trees\<close>

text \<open>
  The shared state is the singleton. It is at address 0; a program without a matrix in memory
  has none to share and cannot be searched.
\<close>

definition kdTreeProgram_new ::
  "file_system \<Rightarrow> (32 word \<Rightarrow> 'd) \<Rightarrow> 'd \<Rightarrow> 32 word \<Rightarrow> Params \<Rightarrow> nat \<Rightarrow> 'd MemoryIO option
    \<Rightarrow> ('d kdTreeProgram \<times> 'd MemoryIO option) result" where
  "kdTreeProgram_new files of_bits g g_dim par tid singleton =
     (case program_io files of_bits g g_dim par singleton of
        (Inl e, _) \<Rightarrow> Inl e
      | (Inr _, Some (Memory m)) \<Rightarrow> bindE (BinaryTreeProgram_new par tid (Some 0)) (\<lambda>p. Inr (p, Some m))
      | (Inr _, _) \<Rightarrow> bindE (BinaryTreeProgram_new par tid None) (\<lambda>p. Inr (p, singleton)))"

definition prog_destroy :: "'d kdTreeProgram \<Rightarrow> 'd MemoryIO heap \<Rightarrow> 'd MemoryIO heap result" where
  "prog_destroy st ios =
     (case prog_ioer st of
        None \<Rightarrow> Inr ios
      | Some io \<Rightarrow> bindE (deref ios (Some io)) (\<lambda>m. bindE (mio_destroy m) (\<lambda>m. Inr (ios(io \<mapsto> m)))))"

text \<open>The root of a tree: a new node with its split dimension.\<close>

definition init_root :: "'d \<Rightarrow> nat \<Rightarrow> unsigned \<Rightarrow> 'd::{linorder,zero} kdTreeProgram \<Rightarrow> 'd kdTreeProgram exec" where
  "init_root g gd sd st =
     (let a = next_addr st; n = set_index sd (set_split_dim (unat sd) (kdnode_new g gd))
      in prog_set_root (Some a) (st\<lparr>nodes := (nodes st)(a \<mapsto> n), next_addr := a + 1\<rparr>))"

fun init_roots ::
  "'d \<Rightarrow> nat \<Rightarrow> cunsigned \<Rightarrow> 'd::{linorder,zero} kdTreeProgram list \<Rightarrow> 'd kdTreeProgram list exec" where
  "init_roots g gd sd [] = Some (Inr [])"
| "init_roots g gd sd (p # ps) =
     bindX (init_root g gd (cval sd) p) (\<lambda>p.
     bindX (init_roots g gd (snd (cunsigned_inc sd)) ps) (\<lambda>ps. Some (Inr (p # ps))))"

definition matrix_heap :: "'d MemoryIO option \<Rightarrow> 'd MemoryIO heap" where
  "matrix_heap m = (\<lambda>a. if a = 0 then m else None)"

text \<open>
  The random number \<open>draw\<close> is what \<^verbatim>\<open>RandomSplit\<close> generates, from 0 to the number of features,
  both included.
\<close>

definition kd_main ::
  "file_system \<Rightarrow> (32 word \<Rightarrow> 'd) \<Rightarrow> 'd \<Rightarrow> nat \<Rightarrow> 32 word \<Rightarrow> Params \<Rightarrow> nat
    \<Rightarrow> ('d::{linorder,zero} kdTreeProgram ComputeEngine \<times> 'd MemoryIO option) exec" where
  "kd_main files of_bits g gd g_dim par draw =
     bindX (Some (guardE (ntree par < nfeatures par) assert_failure)) (\<lambda>_.
     bindX (Some (ComputeEngine_create (kdTreeProgram_new files of_bits g g_dim par) par None)) (\<lambda>(e, m).
     bindX (Some (cunsigned_at (word_of_nat draw) (word_of_nat (nfeatures par)))) (\<lambda>split_dim.
     bindX (init_roots g gd split_dim (forest e)) (\<lambda>ps.
     bindX (train (build g gd (matrix_heap m)) (e\<lparr>forest := ps\<rparr>)) (\<lambda>e. Some (Inr (e, m)))))))"

section \<open>Setting up the forest\<close>

lemma length_read_vals [simp]: "length (read_vals of_bits g n ws) = n"
  by (simp add: read_vals_def)

lemma length_fvecs_read:
  "fvecs_read of_bits g nrow ncol rd ws = Inr buf \<Longrightarrow> length buf = nrow * ncol"
  by (induction nrow arbitrary: rd ws buf) (auto simp: Let_def bindE_eq_Inr split: if_splits)

lemma program_io_memory:
  assumes "program_io files of_bits g g_dim par None = (Inr (), io)" "iotype par = MEM"
    "orientation par \<in> {ROW, COL}" "0 < nsamples par"
  shows "\<exists>m. io = Some (Memory m) \<and> mio_ok m \<and> mio_orientation m = orientation par \<and> mio_dim m = (nsamples par, nfeatures par)
    \<and> program_io files of_bits g g_dim par (Some m) = (Inr (), Some (Memory m))"
proof -
  let ?m = "MemoryIO_new\<lparr>mio_fn := fn par, mio_orientation := orientation par, mio_dim := (nsamples par, nfeatures par)\<rparr>
    :: 'a MemoryIO"
  have "program_io files of_bits g g_dim par None = (let (r, m) = from_file files of_bits g g_dim ?m in (r, Some (Memory m)))"
    using assms(2) by (simp add: program_io_def IOfactory_create_def MemoryIO_create_def io_set_fn_def io_shape_def
        io_set_orientation_def mio_set_fn_def mio_set_orientation_def mio_shape_def MemoryIO_new_def)
  with assms(1) obtain m where m: "io = Some (Memory m)" "from_file files of_bits g g_dim ?m = (Inr (), m)"
    by (auto split: prod.splits)
  from m(2) obtain buf where d: "m = ?m\<lparr>mio_data := Some buf, is_data_local := Some True\<rparr>"
    "length buf = nsamples par * nfeatures par" "fn par \<noteq> ''''"
    by (auto simp: from_file_def MemoryIO_new_def Let_def dest: length_fvecs_read
        split: if_splits option.splits sum.splits)
  have "program_io files of_bits g g_dim par (Some m) = (Inr (), Some (Memory m))"
    using assms(2-4) d by (auto simp: program_io_def IOfactory_create_def MemoryIO_create_def io_set_fn_def io_shape_def
        io_set_orientation_def mio_set_fn_def mio_set_orientation_def mio_shape_def from_file_def)
  with d(1,2) m(1) assms(3) show ?thesis by (auto simp: mio_ok_def)
qed

text \<open>All programs start out the same, with the singleton of the first.\<close>

definition fresh_program :: "Params \<Rightarrow> nat \<Rightarrow> 'd kdTreeProgram" where
  "fresh_program par tid =
     \<lparr>nodes = Map.empty, root = None, depth = 0, next_addr = 0, tree_id = tid, prog_ioer = Some 0,
      prog_max_depth = max_depth par, scheduler = Scheduler_new 2 (max_depth par) tid (max 1 (nthread par div ntree par)),
      completed = {}\<rparr>"

lemma create_trees_ok:
  assumes "fanout par = 2" "ntree par \<noteq> 0"
    and m: "program_io files of_bits g g_dim par (Some m) = (Inr (), Some (Memory m))"
    and "program_io files of_bits g g_dim par s = (Inr (), Some (Memory m))"
  shows "create_trees (kdTreeProgram_new files of_bits g g_dim par) tid n s
    = Inr (map (fresh_program par) [tid..<tid + n], if n = 0 then s else Some m)"
  using assms(4)
proof (induction n arbitrary: tid s)
  case (Suc n)
  have "kdTreeProgram_new files of_bits g g_dim par tid s = Inr (fresh_program par tid, Some m)"
    using Suc.prems assms(1,2) by (simp add: kdTreeProgram_new_def BinaryTreeProgram_new_def fresh_program_def)
  moreover have "create_trees (kdTreeProgram_new files of_bits g g_dim par) (tid + 1) n (Some m)
      = Inr (map (fresh_program par) [tid + 1..<tid + 1 + n], Some m)"
    using Suc.IH [OF m, of "tid + 1"] by simp
  ultimately show ?case by (simp add: upt_conv_Cons del: upt_Suc)
qed simp

lemma init_root_ok:
  assumes "p = fresh_program par tid" "unat sd < c" "nthread par < 2 ^ 32" "ntree par \<noteq> 0"
  shows "\<exists>p'. init_root g gd sd p = Some (Inr p') \<and> prog_ready 0 c p' \<and> tree_id p' = tid"
proof -
  let ?n = "set_ioer (Some 0) (set_index sd (set_split_dim (unat sd) (kdnode_new g gd)))"
  let ?p = "p\<lparr>nodes := [0 \<mapsto> set_links None ?n], root := Some 0, next_addr := 1\<rparr>"
  have "init_root g gd sd p = Some (Inr ?p)"
    by (simp add: assms(1) init_root_def prog_set_root_def fresh_program_def mutate_def deref_def BinaryTree_set_root_def
        BinaryTree_insert_def insert_descend.simps BinaryTree.defs Let_def)
  moreover have "nthread par div ntree par < 2 ^ 32" using assms(3) by (rule le_less_trans [OF div_le_dividend])
  then have "max 1 (nthread par div ntree par) < 2 ^ 32" by simp
  then have "prog_ready 0 c ?p"
    unfolding prog_ready_def using assms(2)
    by (intro exI [of _ 0] exI [of _ "set_links None ?n"] exI [of _ sd] exI [of _ "max 1 (nthread par div ntree par)"])
      (simp add: assms(1) fresh_program_def set_ioer_def set_index_def set_split_dim_def set_links_def kdnode_new_def
        NodeView_new_def NodeView.defs ids_def IndexVector_new_def)
  ultimately show ?thesis by (simp add: assms(1) fresh_program_def)
qed

lemma init_roots_ok:
  assumes "cunsigned_ok sd" "unat (cmax sd) = c" "nthread par < 2 ^ 32" "ntree par \<noteq> 0"
  shows "\<exists>ps. init_roots g gd sd (map (fresh_program par) tids) = Some (Inr ps)
    \<and> map tree_id ps = tids \<and> (\<forall>p\<in>set ps. prog_ready 0 c p)"
  using assms(1,2)
proof (induction tids arbitrary: sd)
  case (Cons tid tids)
  have "unat (cval sd) < c" using Cons.prems by (auto simp: cunsigned_ok_def word_less_nat_alt)
  from init_root_ok [OF refl this assms(3,4), of g gd tid] obtain p where
    p: "init_root g gd (cval sd) (fresh_program par tid) = Some (Inr p)" "prog_ready 0 c p" "tree_id p = tid" by blast
  have "unat (cmax (snd (cunsigned_inc sd))) = c" using Cons.prems(2) by (simp add: cunsigned_inc_def Let_def)
  from Cons.IH [OF cunsigned_inc_ok [OF Cons.prems(1)] this] p show ?case by auto
qed simp

section \<open>Training\<close>

definition built :: "nat \<Rightarrow> nat \<Rightarrow> 'd kdTreeProgram \<Rightarrow> bool" where
  "built r c p \<longleftrightarrow> heap_good 0 r c (next_addr p) (nodes p) \<and> tree_good r (nodes p) (root p)"

lemma build_trees_ok:
  assumes io: "io_ok ios 0 r c" and "\<forall>p\<in>set ps. prog_ready 0 c p"
  shows "\<exists>ps'. build_trees (build g gd ios) ps = Some (Inr ps') \<and> map tree_id ps' = map tree_id ps
    \<and> (\<forall>p\<in>set ps'. built r c p)"
  using assms(2)
proof (induction ps)
  case (Cons p ps)
  from build_ok [OF io, of p g gd] Cons.prems obtain h nxt S where
    b: "build g gd ios p = Some (Inr (p\<lparr>nodes := h, next_addr := nxt, scheduler := S\<rparr>))"
      "heap_good 0 r c nxt h" "tree_good r h (root p)" by auto
  let ?p = "p\<lparr>nodes := h, next_addr := nxt, scheduler := S\<rparr>"
  have "built r c ?p" using b by (simp add: built_def)
  moreover from Cons obtain ps' where "build_trees (build g gd ios) ps = Some (Inr ps')"
    "map tree_id ps' = map tree_id ps" "\<forall>p\<in>set ps'. built r c p" by auto
  ultimately show ?case using b(1) by (intro exI [of _ "?p # ps'"]) simp
qed simp

section \<open>Querying\<close>

definition nearest :: "nat \<Rightarrow> 'd::linorder list \<Rightarrow> 'd NNVector \<Rightarrow> bool" where
  "nearest kk ds v \<longleftrightarrow> (\<exists>xs. nn_abs v xs \<and> map get_val xs = take kk (sort ds))"

lemma query_trees_ok:
  assumes io: "ios 0 = Some m" "mio_ok m" "mio_dim m = (r, c)" "r < 2 ^ 32" "0 < c"
    and "\<forall>p\<in>set ps. built r c p" "distinct (map tree_id ps)" "length (dv_data (qsample q)) = c"
    and "\<forall>p\<in>set ps. tree_id p < length (result q) \<and> result q ! tree_id p = NNVector_new fmax kk"
  shows "\<exists>ps' q'. query_trees (query_run F ios) ps q = Some (Inr (ps', q')) \<and> map tree_id ps' = map tree_id ps
    \<and> length (result q') = length (result q)
    \<and> (\<forall>i<length (result q). if i \<in> tree_id ` set ps
         then nearest (unat kk) (map (row_dist F m (dv_data (qsample q))) [0..<r]) (result q' ! i)
         else result q' ! i = result q ! i)"
  using assms(6-)
proof (induction ps arbitrary: q)
  case (Cons p ps)
  let ?t = "tree_id p" and ?s = "dv_data (qsample q)"
  let ?near = "nearest (unat kk) (map (row_dist F m ?s) [0..<r])"
  have p: "heap_good 0 r c (next_addr p) (nodes p)" "tree_good r (nodes p) (root p)" "?t < length (result q)"
    "result q ! ?t = NNVector_new fmax kk" using Cons.prems by (auto simp: built_def)
  have "nn_abs (result q ! ?t) []" using p(4) nn_abs_new by simp
  from find_neighbors_ok [of ios 0 m r c "next_addr p" p q F, OF io(1-4) p(1,2) Cons.prems(3) p(3) this]
  obtain v xs A where f: "find_neighbors F ios q p = Some (Inr (with_result ?t q v, p\<lparr>completed := A\<rparr>))" "nn_abs v xs"
    "map get_val xs = take (unat kk) (sort (map (row_dist F m ?s) [0..<r]))" using p(4) by auto
  have "?s \<noteq> []" using Cons.prems(3) io(5) by auto
  with f(1) have run: "query_run F ios p q = Some (Inr (with_result ?t q v, p\<lparr>completed := A\<rparr>))"
    by (simp add: query_run_def DenseVector_empty_def)
  have v: "?near v" using f(2,3) by (auto simp: nearest_def)
  let ?q = "with_result ?t q v"
  have "\<forall>p'\<in>set ps. tree_id p' < length (result ?q) \<and> result ?q ! tree_id p' = NNVector_new fmax kk"
    using Cons.prems(2,4) by (auto simp: nth_list_update)
  then obtain ps' q' where q': "query_trees (query_run F ios) ps ?q = Some (Inr (ps', q'))"
    "map tree_id ps' = map tree_id ps" "length (result q') = length (result q)"
    "\<forall>i<length (result q). if i \<in> tree_id ` set ps then ?near (result q' ! i) else result q' ! i = result ?q ! i"
    using Cons.IH [of ?q] Cons.prems by (auto cong: if_cong)
  have "if i \<in> tree_id ` set (p # ps) then ?near (result q' ! i) else result q' ! i = result q ! i"
    if "i < length (result q)" for i
    using q'(4) that v Cons.prems(2) by (auto simp: nth_list_update split: if_splits)
  with run q'(1-3) show ?case by (intro exI [of _ "p\<lparr>completed := A\<rparr> # ps'"] exI [of _ q']) simp
qed simp

section \<open>The forest as a whole\<close>

text \<open>What the command line of a run has to satisfy.\<close>

definition kd_params_ok :: "Params \<Rightarrow> bool" where
  "kd_params_ok par \<longleftrightarrow> iotype par = MEM \<and> orientation par \<in> {ROW, COL} \<and> fanout par = 2
     \<and> 0 < nsamples par \<and> nsamples par < 2 ^ 32 \<and> nfeatures par < 2 ^ 32
     \<and> 0 < ntree par \<and> ntree par < nfeatures par \<and> nthread par < 2 ^ 32"

lemma kd_main_ok:
  assumes par: "kd_params_ok par" and io: "program_io files of_bits g g_dim par None = (Inr (), io)"
    and draw: "draw < nfeatures par"
  obtains e m where "kd_main files of_bits g gd g_dim par draw = Some (Inr (e, Some m))" "io = Some (Memory m)"
    "mio_ok m" "mio_dim m = (nsamples par, nfeatures par)" "map tree_id (forest e) = [0..<ntree par]"
    "\<forall>p\<in>set (forest e). built (nsamples par) (nfeatures par) p" "mio_orientation m = orientation par"
proof -
  let ?r = "nsamples par" and ?c = "nfeatures par" and ?T = "ntree par"
  let ?new = "kdTreeProgram_new files of_bits g g_dim par"
  note P = par [unfolded kd_params_ok_def]
  obtain m where m: "io = Some (Memory m)" "mio_ok m" "mio_dim m = (?r, ?c)"
    "program_io files of_bits g g_dim par (Some m) = (Inr (), Some (Memory m))" "mio_orientation m = orientation par"
    using program_io_memory [OF io] P by auto
  have "create_trees ?new 0 ?T None = Inr (map (fresh_program par) [0..<?T], Some m)"
    using create_trees_ok [OF _ _ m(4) io [unfolded m(1)], of 0 ?T] P by simp
  then have e: "ComputeEngine_create ?new par None
      = Inr (\<lparr>forest = map (fresh_program par) [0..<?T], params = par\<rparr>, Some m)"
    by (simp add: ComputeEngine_create_def)
  let ?sd = "\<lparr>cval = word_of_nat draw, cmax = word_of_nat ?c\<rparr> :: cunsigned"
  have c: "unat (word_of_nat ?c :: unsigned) = ?c" "unat (word_of_nat draw :: unsigned) = draw"
    using P draw by (simp_all add: unsigned_of_nat take_bit_nat_eq_self)
  have sd: "cunsigned_ok ?sd" using draw c by (simp add: cunsigned_ok_def word_less_nat_alt)
  then have at: "cunsigned_at (word_of_nat draw) (word_of_nat ?c) = Inr ?sd"
    by (auto simp: cunsigned_at_def cunsigned_ok_def)
  obtain ps where ps: "init_roots g gd ?sd (map (fresh_program par) [0..<?T]) = Some (Inr ps)"
    "map tree_id ps = [0..<?T]" "\<forall>p\<in>set ps. prog_ready 0 ?c p"
    using init_roots_ok [OF sd, of ?c par g gd "[0..<?T]"] c P by auto
  have "io_ok (matrix_heap (Some m)) 0 ?r ?c" using m P by (simp add: io_ok_def matrix_heap_def)
  from build_trees_ok [OF this ps(3), of g gd] obtain ps' where
    b: "build_trees (build g gd (matrix_heap (Some m))) ps = Some (Inr ps')" "map tree_id ps' = [0..<?T]"
      "\<forall>p\<in>set ps'. built ?r ?c p" using ps(2) by auto
  have "length ps = ?T" using arg_cong [OF ps(2), of length] by simp
  then have "kd_main files of_bits g gd g_dim par draw = Some (Inr (\<lparr>forest = ps', params = par\<rparr>, Some m))"
    using P e at ps(1) b(1) by (simp add: kd_main_def train_def)
  from that [OF this m(1-3)] b(2,3) m(5) show thesis by simp
qed

lemma kd_query_ok:
  assumes m: "mio_ok m" "mio_dim m = (r, c)" "r < 2 ^ 32" "0 < c" and s: "length s = c"
    and e: "map tree_id (forest e) = [0..<T]" "\<forall>p\<in>set (forest e). built r c p"
  shows "\<exists>e' q. query (query_run F (matrix_heap (Some m))) (ProximityQuery_new fmax \<lparr>dv_data = s\<rparr> kk T) e
          = Some (Inr (e', q))
        \<and> length (result q) = T
        \<and> (\<forall>v\<in>set (result q). nearest (unat (scast kk :: unsigned)) (map (row_dist F m s) [0..<r]) v)"
proof -
  let ?q = "ProximityQuery_new fmax \<lparr>dv_data = s\<rparr> kk T"
  have T: "tree_id ` set (forest e) = {0..<T}" using arg_cong [OF e(1), of set] by simp
  have lt: "tree_id p < T" if "p \<in> set (forest e)" for p using imageI [OF that, of tree_id] T by simp
  have "\<forall>p\<in>set (forest e). tree_id p < length (result ?q) \<and> result ?q ! tree_id p = NNVector_new fmax (scast kk)"
    using lt by (simp add: ProximityQuery_new_def)
  from query_trees_ok [of "matrix_heap (Some m)" m _ _ "forest e" ?q, OF _ m e(2) _ _ this, of F]
  obtain ps' q' where q: "query_trees (query_run F (matrix_heap (Some m))) (forest e) ?q = Some (Inr (ps', q'))"
    "length (result q') = T"
    "\<forall>i<T. nearest (unat (scast kk :: unsigned)) (map (row_dist F m s) [0..<r]) (result q' ! i)"
    using e(1) T s by (auto simp: ProximityQuery_new_def matrix_heap_def)
  then have "\<forall>v\<in>set (result q'). nearest (unat (scast kk :: unsigned)) (map (row_dist F m s) [0..<r]) v"
    by (auto simp: in_set_conv_nth)
  with q(1,2) show ?thesis by (auto simp: query_def)
qed


definition kd_demo_params :: Params where
  "kd_demo_params = \<lparr>nsamples = 2, nfeatures = 2, fn = ''m'', iotype = MEM, ntree = 1, nthread = 4,
     orientation = ROW, fanout = 2, max_depth = 10, filetype = BIN\<rparr>"

definition kd_demo_file :: file_system where
  "kd_demo_file = [''m'' \<mapsto> [1, 2, 3, 4]]"

definition kd_demo_matrix :: "int MemoryIO" where
  "kd_demo_matrix = \<lparr>mio_fn = ''m'', mio_data = Some [1, 2, 3, 4], mio_orientation = ROW, mio_dim = (2, 2),
     is_data_local = Some True\<rparr>"

lemma kd_demo_io: "program_io kd_demo_file uint 0 0 kd_demo_params None = (Inr (), Some (Memory kd_demo_matrix))"
proof -
  have "get_file_ext ''m'' \<noteq> ''fvecs''" by code_simp
  then show ?thesis
    by (simp add: program_io_def kd_demo_params_def kd_demo_file_def kd_demo_matrix_def IOfactory_create_def
        MemoryIO_create_def MemoryIO_new_def io_set_fn_def mio_set_fn_def io_shape_def mio_shape_def
        io_set_orientation_def mio_set_orientation_def from_file_def read_vals_def)
qed




definition tiny_matrix :: "int MemoryIO" where
  "tiny_matrix = MemoryIO_of [5, 1, 3] (3, 1) ROW"

definition tiny_program :: "int kdTreeProgram" where
  "tiny_program = (fresh_program (kd_demo_params\<lparr>nsamples := 3, nfeatures := 1, max_depth := 3\<rparr>) 0)
     \<lparr>nodes := [0 \<mapsto> set_ioer (Some 0) (set_index 0 (set_split_dim 0 (kdnode_new 0 0)))], root := Some 0, next_addr := 1\<rparr>"


end
