(* ===== verification/Vec_Binary_Tree.thy ===== *)
theory Vec_Binary_Tree
  imports Common_Types
begin

text \<open>
  \<^verbatim>\<open>src/src/structures/VecBinaryTree.hpp\<close> and \<^verbatim>\<open>VecBinaryTree.cpp\<close>: a binary tree kept in a vector, the
  children of the node at index \<open>i\<close> at \<open>2 i + 1\<close> and \<open>2 i + 2\<close>. A node is its comparator and, in a build
  with \<^verbatim>\<open>VECNODES\<close>, the position it was given. The flag \<open>vecnodes\<close> says whether it is such a build.
  Indices are 64-bit numbers that wrap. Printing is left out.
\<close>

record 'd vec_node =
  vcomparator :: 'd
  vecpos :: size_t

type_synonym 'd VecBinaryTree = "'d vec_node list"

definition VecBinaryTree_new :: "'d VecBinaryTree" where
  "VecBinaryTree_new = []"

text \<open>\<^verbatim>\<open>std::floor(std::log2(n))\<close>, which is no number for 0.\<close>

fun floor_log2 :: "nat \<Rightarrow> nat" where
  "floor_log2 n = (if n \<le> 1 then 0 else Suc (floor_log2 (n div 2)))"

declare floor_log2.simps [simp del]

definition depth_of :: "nat \<Rightarrow> nat result" where
  "depth_of nelem = bindE (guardE (nelem \<noteq> 0) undefined_behaviour) (\<lambda>_. Inr (floor_log2 nelem))"

definition vbt_get_depth :: "'d VecBinaryTree \<Rightarrow> nat result" where
  "vbt_get_depth t = depth_of (length t)"

definition vbt_empty :: "'d VecBinaryTree \<Rightarrow> bool" where
  "vbt_empty t \<longleftrightarrow> t = []"

definition vbt_get_nnodes :: "'d VecBinaryTree \<Rightarrow> nat" where
  "vbt_get_nnodes t = length t"

text \<open>New elements of the vector are default nodes \<open>g\<close>.\<close>

definition prealloc :: "'d vec_node \<Rightarrow> nat \<Rightarrow> 'd VecBinaryTree \<Rightarrow> 'd VecBinaryTree" where
  "prealloc g max_lvl t = (let n = 2 ^ max_lvl - 1 in take n t @ replicate (n - length t) g)"

definition compute_idx :: "size_t \<Rightarrow> bchild_t \<Rightarrow> size_t" where
  "compute_idx parent_idx pos = (case pos of LEFT \<Rightarrow> 2 * parent_idx + 1 | RIGHT \<Rightarrow> 2 * parent_idx + 2)"

definition get_parent_idx :: "size_t \<Rightarrow> size_t" where
  "get_parent_idx node_idx = (node_idx - 1) div 2"

definition get_child_idx :: "size_t \<Rightarrow> bchild_t \<Rightarrow> size_t" where
  "get_child_idx parent_idx pos = (if pos = LEFT then 2 * parent_idx + 1 else 2 * parent_idx + 2)"

definition get_at_idx :: "size_t \<Rightarrow> 'd VecBinaryTree \<Rightarrow> 'd vec_node result" where
  "get_at_idx node_idx t = read_at t (unat node_idx)"

definition vbt_get_root :: "'d VecBinaryTree \<Rightarrow> 'd vec_node result" where
  "vbt_get_root t = read_at t 0"

definition set_root :: "'d vec_node \<Rightarrow> 'd VecBinaryTree \<Rightarrow> 'd VecBinaryTree" where
  "set_root node t = (if vbt_empty t then t @ [node] else t[0 := node])"

definition insert_at_idx :: "bool \<Rightarrow> 'd vec_node \<Rightarrow> size_t \<Rightarrow> bchild_t \<Rightarrow> 'd VecBinaryTree \<Rightarrow> 'd VecBinaryTree" where
  "insert_at_idx vecnodes new_node parent_idx pos t =
     (if vecnodes
      then let child_pos = get_child_idx parent_idx pos in t @ [new_node\<lparr>vecpos := child_pos\<rparr>]
      else t)"

definition insert_at_node ::
  "bool \<Rightarrow> 'd vec_node \<Rightarrow> 'd vec_node \<Rightarrow> bchild_t \<Rightarrow> 'd VecBinaryTree \<Rightarrow> 'd VecBinaryTree" where
  "insert_at_node vecnodes new_node node pos t =
     (if vecnodes
      then let child_pos = get_child_idx (vecpos node) pos in t @ [new_node\<lparr>vecpos := child_pos\<rparr>]
      else t)"

definition vbt_insert :: "'d vec_node \<Rightarrow> 'd VecBinaryTree \<Rightarrow> 'd VecBinaryTree result" where
  "vbt_insert node t = Inl not_implemented_exception"

definition vbt_find :: "'d vec_node \<Rightarrow> 'd VecBinaryTree \<Rightarrow> 'd vec_node result" where
  "vbt_find shell t = Inl (runtime_error ''node not found'')"

section \<open>Indices\<close>

lemma unat_child:
  assumes "unat p < 2 ^ 62"
  shows "unat (get_child_idx p pos) = 2 * unat p + (if pos = LEFT then 1 else 2)"
  using assms by (auto simp: get_child_idx_def unat_word_ariths)

lemma child_idx_same: "compute_idx p pos = get_child_idx p pos"
  by (cases pos) (simp_all add: compute_idx_def get_child_idx_def)

lemma unat_parent:
  assumes "0 < unat i"
  shows "unat (get_parent_idx i) = (unat i - 1) div 2"
proof -
  have "1 \<le> i" using assms by (simp add: word_le_nat_alt)
  then show ?thesis by (simp add: get_parent_idx_def unat_div unat_sub)
qed

lemma parent_of_child: "unat p < 2 ^ 62 \<Longrightarrow> get_parent_idx (get_child_idx p pos) = p"
  using unat_parent [of "get_child_idx p pos"] unat_child [of p pos] by (auto simp: word_unat_eq_iff split: if_splits)

lemma floor_log2_bounds:
  assumes "0 < n"
  shows "2 ^ floor_log2 n \<le> n \<and> n < 2 ^ Suc (floor_log2 n)"
  using assms
proof (induction n rule: floor_log2.induct)
  case (1 n)
  show ?case
  proof (cases "n \<le> 1")
    case True
    then show ?thesis using 1(2) by (subst (1 2) floor_log2.simps) auto
  next
    case False
    with 1(1) have "2 ^ floor_log2 (n div 2) \<le> n div 2" "n div 2 < 2 ^ Suc (floor_log2 (n div 2))" by auto
    then show ?thesis using False by (subst (1 2) floor_log2.simps) auto
  qed
qed

section \<open>Filling the tree level by level\<close>

text \<open>Every node is where its position says.\<close>

definition vec_ok :: "'d VecBinaryTree \<Rightarrow> bool" where
  "vec_ok t \<longleftrightarrow> (\<forall>i < length t. unat (vecpos (t ! i)) = i)"

text \<open>The next free index is the left child of its parent when it is odd.\<close>

definition add_next :: "'d vec_node \<Rightarrow> 'd VecBinaryTree \<Rightarrow> 'd VecBinaryTree" where
  "add_next node t =
     (let i = word_of_nat (length t) in
      insert_at_idx True node (get_parent_idx i) (if odd (length t) then LEFT else RIGHT) t)"

lemma insert_at_idx_ok:
  assumes "vec_ok t"
  shows "vec_ok (insert_at_idx True node p pos t) \<longleftrightarrow> unat (get_child_idx p pos) = length t"
  using assms by (auto simp: vec_ok_def insert_at_idx_def Let_def nth_append less_Suc_eq)

lemma child_of_parent:
  assumes "0 < n" "n < 2 ^ 63"
  shows "unat (get_child_idx (get_parent_idx (word_of_nat n)) (if odd n then LEFT else RIGHT)) = n"
proof -
  have n: "unat (word_of_nat n :: size_t) = n" using assms(2) by (simp add: unat_of_nat)
  then have p: "unat (get_parent_idx (word_of_nat n)) = (n - 1) div 2" using assms(1) by (subst unat_parent) simp_all
  moreover have "(n - 1) div 2 < 2 ^ 62" using assms(2) by simp
  ultimately have "unat (get_child_idx (get_parent_idx (word_of_nat n)) (if odd n then LEFT else RIGHT))
      = 2 * ((n - 1) div 2) + (if (if odd n then LEFT else RIGHT) = LEFT then 1 else 2)"
    using unat_child [of "get_parent_idx (word_of_nat n)"] by simp
  also have "\<dots> = n" using assms(1) by (cases "odd n") (auto elim!: oddE evenE)
  finally show ?thesis .
qed

lemma add_next_ok:
  assumes "vec_ok t" "t \<noteq> []" "length t < 2 ^ 63"
  shows "vec_ok (add_next node t)" "map vcomparator (add_next node t) = map vcomparator t @ [vcomparator node]"
    "add_next node t \<noteq> []" "length (add_next node t) = length t + 1"
proof -
  have "unat (get_child_idx (get_parent_idx (word_of_nat (length t))) (if odd (length t) then LEFT else RIGHT)) = length t"
    using child_of_parent [of "length t"] assms by auto
  then show "vec_ok (add_next node t)" using assms(1) by (simp add: add_next_def Let_def insert_at_idx_ok)
qed (simp_all add: add_next_def insert_at_idx_def Let_def)

lemma fold_add_next_ok:
  assumes "vec_ok t" "t \<noteq> []" "length t + length ns < 2 ^ 63"
  shows "vec_ok (fold add_next ns t) \<and> map vcomparator (fold add_next ns t) = map vcomparator t @ map vcomparator ns"
  using assms
proof (induction ns arbitrary: t)
  case (Cons n ns)
  then have "length t < 2 ^ 63" by simp
  note a = add_next_ok [OF Cons.prems(1,2) this, of n]
  from Cons.IH [OF a(1,3)] a(2,4) Cons.prems(3) show ?case by simp
qed simp



end
