(* ===== verification/File_Mapper.thy ===== *)
theory File_Mapper
  imports Monya_Prelude
begin

text \<open>
  \<^verbatim>\<open>src/SAFS/libsafs/file_mapper.h\<close> and \<^verbatim>\<open>file_mapper.cpp\<close>, \<^verbatim>\<open>file_partition.h\<close>,
  \<^verbatim>\<open>safs_header.h\<close> and the file descriptions of \<^verbatim>\<open>safs_file.h\<close>: how the pages of an SAFS
  file are striped over the files on the disks. Offsets count pages and are natural numbers.
  A call through the base class goes by the kind of the mapper. The lemmas show, for every kind,
  that no two pages share a place and that the files are made large enough.
\<close>

section \<open>Files and headers\<close>

record part_file_info =
  pf_name :: string
  pf_disk_id :: int
  pf_node_id :: int

definition part_file_info_default :: part_file_info where
  "part_file_info_default = \<lparr>pf_name = '''', pf_disk_id = 0, pf_node_id = 0\<rparr>"

record safs_header =
  magic_number :: "64 word"
  version_number :: "32 word"
  hblock_size :: "32 word"
  hmapping_option :: "32 word"
  hwritable :: "32 word"
  num_bytes :: "64 word"

definition MAGIC_NUMBER :: "64 word" where
  "MAGIC_NUMBER = 0x123456789FFFFFE"

definition CURR_VERSION :: "32 word" where
  "CURR_VERSION = 1"

definition safs_header_default :: safs_header where
  "safs_header_default = \<lparr>magic_number = MAGIC_NUMBER, version_number = CURR_VERSION, hblock_size = 0,
     hmapping_option = 0, hwritable = 0, num_bytes = 0\<rparr>"

definition safs_header_of :: "32 word \<Rightarrow> 32 word \<Rightarrow> bool \<Rightarrow> 64 word \<Rightarrow> safs_header" where
  "safs_header_of block_size mapping_option writable file_size =
     \<lparr>magic_number = MAGIC_NUMBER, version_number = CURR_VERSION, hblock_size = block_size,
      hmapping_option = mapping_option, hwritable = (if writable then 1 else 0), num_bytes = file_size\<rparr>"

text \<open>The getters return a signed number.\<close>

definition header_block_size :: "safs_header \<Rightarrow> int" where
  "header_block_size hdr = sint (hblock_size hdr)"

definition header_mapping_option :: "safs_header \<Rightarrow> int" where
  "header_mapping_option hdr = sint (hmapping_option hdr)"

definition header_is_writable :: "safs_header \<Rightarrow> bool" where
  "header_is_writable hdr \<longleftrightarrow> hwritable hdr \<noteq> 0"

definition is_safs_file :: "safs_header \<Rightarrow> bool" where
  "is_safs_file hdr \<longleftrightarrow> magic_number hdr = MAGIC_NUMBER"

definition is_right_version :: "safs_header \<Rightarrow> bool" where
  "is_right_version hdr \<longleftrightarrow> version_number hdr = CURR_VERSION"

definition header_is_valid :: "safs_header \<Rightarrow> bool" where
  "header_is_valid hdr \<longleftrightarrow> hblock_size hdr \<noteq> 0"

definition header_resize :: "64 word \<Rightarrow> safs_header \<Rightarrow> safs_header" where
  "header_resize new_size hdr = hdr\<lparr>num_bytes := new_size\<rparr>"

section \<open>Mappers\<close>

datatype mapper_t = RAID0 | RAID5 | HASH

text \<open>The options are numbers; a number that is no option has no mapper.\<close>

definition mapper_of_option :: "int \<Rightarrow> mapper_t option" where
  "mapper_of_option opt =
     (if opt = 0 then Some RAID0 else if opt = 1 then Some RAID5 else if opt = 2 then Some HASH else None)"

definition FILE_CONST_A :: nat where
  "FILE_CONST_A = 31"

definition FILE_CONST_P :: nat where
  "FILE_CONST_P = 191"

record block_identifier =
  bid_idx :: nat
  bid_off :: nat

record file_mapper =
  file_id :: int
  mfiles :: "part_file_info list"
  mname :: string
  STRIPE_BLOCK_SIZE :: nat
  mkind :: mapper_t

text \<open>The constructors; \<open>gen\<close> is the counter the identifiers come from.\<close>

definition file_mapper_new ::
  "mapper_t \<Rightarrow> string \<Rightarrow> part_file_info list \<Rightarrow> int \<Rightarrow> int \<Rightarrow> (file_mapper \<times> int) result" where
  "file_mapper_new kind name fs block_size gen =
     bindE (guardE (0 < block_size) assert_failure) (\<lambda>_.
     bindE (guardE (kind = HASH \<longrightarrow> fs \<noteq> []) undefined_behaviour) (\<lambda>_.
     Inr (\<lparr>file_id = gen + 1, mfiles = fs, mname = name, STRIPE_BLOCK_SIZE = nat block_size, mkind = kind\<rparr>, gen + 1)))"

definition file_mapper_create ::
  "safs_header \<Rightarrow> part_file_info list \<Rightarrow> string \<Rightarrow> int \<Rightarrow> (file_mapper option \<times> int) result" where
  "file_mapper_create header fs name gen =
     (if \<not> header_is_valid header then Inr (None, gen)
      else case mapper_of_option (header_mapping_option header) of
        None \<Rightarrow> Inr (None, gen)
      | Some kind \<Rightarrow> bindE (file_mapper_new kind name fs (header_block_size header) gen) (\<lambda>(m, gen). Inr (Some m, gen)))"

definition mapper_clone :: "file_mapper \<Rightarrow> int \<Rightarrow> (file_mapper \<times> int) result" where
  "mapper_clone m gen = file_mapper_new (mkind m) (mname m) (mfiles m) (int (STRIPE_BLOCK_SIZE m)) gen"

definition get_num_files :: "file_mapper \<Rightarrow> nat" where
  "get_num_files m = length (mfiles m)"

definition mapper_file_name :: "nat \<Rightarrow> file_mapper \<Rightarrow> string result" where
  "mapper_file_name idx m = bindE (read_at (mfiles m) idx) (\<lambda>f. Inr (pf_name f))"

definition mapper_node_id :: "nat \<Rightarrow> file_mapper \<Rightarrow> int result" where
  "mapper_node_id idx m = bindE (read_at (mfiles m) idx) (\<lambda>f. Inr (pf_node_id f))"

definition mapper_disk_id :: "nat \<Rightarrow> file_mapper \<Rightarrow> int result" where
  "mapper_disk_id idx m = bindE (read_at (mfiles m) idx) (\<lambda>f. Inr (pf_disk_id f))"

text \<open>The static start of the stripes is never assigned.\<close>

definition rand_start :: nat where
  "rand_start = 0"

definition gen_RAID_rand_start :: "nat \<Rightarrow> nat list \<Rightarrow> nat option" where
  "gen_RAID_rand_start num_files randoms = map_option (\<lambda>r. r mod num_files) (find (\<lambda>r. r \<noteq> 0) randoms)"

definition RAID0_map :: "file_mapper \<Rightarrow> nat \<Rightarrow> block_identifier" where
  "RAID0_map m off =
     (let idx_in_block = off mod STRIPE_BLOCK_SIZE m; block_idx = off div STRIPE_BLOCK_SIZE m
      in \<lparr>bid_idx = (block_idx + rand_start) mod get_num_files m,
          bid_off = block_idx div get_num_files m * STRIPE_BLOCK_SIZE m + idx_in_block\<rparr>)"

definition RAID0_map2file :: "file_mapper \<Rightarrow> nat \<Rightarrow> nat" where
  "RAID0_map2file m off = (off div STRIPE_BLOCK_SIZE m + rand_start) mod get_num_files m"

definition RAID5_map :: "file_mapper \<Rightarrow> nat \<Rightarrow> block_identifier" where
  "RAID5_map m off =
     (let idx_in_block = off mod STRIPE_BLOCK_SIZE m; block_idx = off div STRIPE_BLOCK_SIZE m;
          bid = \<lparr>bid_idx = block_idx mod get_num_files m,
                 bid_off = block_idx div get_num_files m * STRIPE_BLOCK_SIZE m + idx_in_block\<rparr>;
          shift = block_idx div get_num_files m mod get_num_files m
      in bid\<lparr>bid_idx := (bid_idx bid + shift + rand_start) mod get_num_files m\<rparr>)"

definition RAID5_map2file :: "file_mapper \<Rightarrow> nat \<Rightarrow> nat" where
  "RAID5_map2file m off =
     (let block_idx = off div STRIPE_BLOCK_SIZE m; shift = block_idx div get_num_files m mod get_num_files m
      in (block_idx mod get_num_files m + shift + rand_start) mod get_num_files m)"

definition cycle_size_in_bucket :: "file_mapper \<Rightarrow> nat \<Rightarrow> nat" where
  "cycle_size_in_bucket m idx =
     (if idx < FILE_CONST_P mod get_num_files m then FILE_CONST_P div get_num_files m + 1
      else FILE_CONST_P div get_num_files m)"

definition hash_map :: "file_mapper \<Rightarrow> nat \<Rightarrow> block_identifier" where
  "hash_map m off =
     (let idx_in_block = off mod STRIPE_BLOCK_SIZE m; block_idx = off div STRIPE_BLOCK_SIZE m;
          p_idx = FILE_CONST_A * block_idx mod FILE_CONST_P; idx = p_idx mod get_num_files m;
          cycle_idx = block_idx div FILE_CONST_P; cycle_len_in_bucket = cycle_size_in_bucket m idx
      in \<lparr>bid_idx = idx,
          bid_off = (cycle_idx * cycle_len_in_bucket + p_idx div get_num_files m) * STRIPE_BLOCK_SIZE m + idx_in_block\<rparr>)"

definition hash_map2file :: "file_mapper \<Rightarrow> nat \<Rightarrow> nat" where
  "hash_map2file m off =
     (let block_idx = off div STRIPE_BLOCK_SIZE m; p_idx = FILE_CONST_A * block_idx mod FILE_CONST_P
      in p_idx mod get_num_files m)"

text \<open>The virtual calls. Without a file the code divides by zero.\<close>

definition mapper_map :: "file_mapper \<Rightarrow> nat \<Rightarrow> block_identifier result" where
  "mapper_map m off =
     (if mfiles m = [] then Inl undefined_behaviour
      else Inr (case mkind m of RAID0 \<Rightarrow> RAID0_map m off | RAID5 \<Rightarrow> RAID5_map m off | HASH \<Rightarrow> hash_map m off))"

definition map2file :: "file_mapper \<Rightarrow> nat \<Rightarrow> nat result" where
  "map2file m off =
     (if mfiles m = [] then Inl undefined_behaviour
      else Inr (case mkind m of RAID0 \<Rightarrow> RAID0_map2file m off | RAID5 \<Rightarrow> RAID5_map2file m off
                | HASH \<Rightarrow> hash_map2file m off))"

fun size_loop :: "file_mapper \<Rightarrow> nat \<Rightarrow> nat \<Rightarrow> nat \<Rightarrow> nat list \<Rightarrow> nat list result" where
  "size_loop m sz i 0 ret = Inr ret"
| "size_loop m sz i (Suc n) ret =
     (if sz < i * STRIPE_BLOCK_SIZE m then Inr ret
      else let off = (sz div STRIPE_BLOCK_SIZE m - i) * STRIPE_BLOCK_SIZE m + STRIPE_BLOCK_SIZE m - 1
           in bindE (mapper_map m off) (\<lambda>bid.
              size_loop m sz (i + 1) n (ret[bid_idx bid := max (bid_off bid + 1) (ret ! bid_idx bid)])))"

definition get_size_per_disk :: "file_mapper \<Rightarrow> nat \<Rightarrow> nat list result" where
  "get_size_per_disk m sz =
     size_loop m sz 0 (if mkind m = HASH then FILE_CONST_P else get_num_files m * 2)
       (replicate (get_num_files m) 0)"

section \<open>Partitions\<close>

text \<open>The part of a file that one I/O thread owns; \<open>None\<close> stands for the index -1.\<close>

record logical_file_partition =
  pmapper :: "file_mapper option"
  pindices :: "nat list"
  pfile_map :: "nat option list"

fun fill_file_map :: "nat list \<Rightarrow> nat \<Rightarrow> nat option list \<Rightarrow> nat option list result" where
  "fill_file_map [] i fm = Inr fm"
| "fill_file_map (x # xs) i fm =
     (if x < length fm then fill_file_map xs (i + 1) (fm[x := Some i]) else Inl undefined_behaviour)"

definition partition_new :: "nat list \<Rightarrow> file_mapper \<Rightarrow> logical_file_partition result" where
  "partition_new indices m =
     bindE (fill_file_map indices 0 (replicate (get_num_files m) None)) (\<lambda>fm.
     Inr \<lparr>pmapper = Some m, pindices = indices, pfile_map = fm\<rparr>)"

definition partition_inactive :: "nat list \<Rightarrow> logical_file_partition" where
  "partition_inactive indices = \<lparr>pmapper = None, pindices = indices, pfile_map = []\<rparr>"

definition is_active :: "logical_file_partition \<Rightarrow> bool" where
  "is_active p \<longleftrightarrow> pmapper p \<noteq> None"

definition get_mapper :: "logical_file_partition \<Rightarrow> file_mapper result" where
  "get_mapper p = (case pmapper p of None \<Rightarrow> Inl assert_failure | Some m \<Rightarrow> Inr m)"

definition partition_file_name :: "nat \<Rightarrow> logical_file_partition \<Rightarrow> string result" where
  "partition_file_name idx p =
     bindE (get_mapper p) (\<lambda>m. bindE (read_at (pindices p) idx) (\<lambda>i. mapper_file_name i m))"

definition partition_disk_id :: "nat \<Rightarrow> logical_file_partition \<Rightarrow> int result" where
  "partition_disk_id idx p =
     bindE (get_mapper p) (\<lambda>m. bindE (read_at (pindices p) idx) (\<lambda>i. mapper_disk_id i m))"

definition partition_idx :: "nat \<Rightarrow> logical_file_partition \<Rightarrow> nat result" where
  "partition_idx idx p =
     bindE (read_at (pfile_map p) idx) (\<lambda>i. case i of None \<Rightarrow> Inl assert_failure | Some i \<Rightarrow> Inr i)"

definition partition_map :: "nat \<Rightarrow> logical_file_partition \<Rightarrow> block_identifier result" where
  "partition_map pg_off p =
     bindE (get_mapper p) (\<lambda>m.
     bindE (mapper_map m pg_off) (\<lambda>bid.
     bindE (partition_idx (bid_idx bid) p) (\<lambda>i. Inr (bid\<lparr>bid_idx := i\<rparr>))))"

definition partition_map2file :: "nat \<Rightarrow> logical_file_partition \<Rightarrow> nat result" where
  "partition_map2file pg_off p =
     bindE (get_mapper p) (\<lambda>m. bindE (map2file m pg_off) (\<lambda>idx. partition_idx idx p))"

section \<open>What a mapper promises\<close>

text \<open>
  A mapper places blocks: block \<open>b\<close> goes to row \<open>snd (place b)\<close> of disk \<open>fst (place b)\<close>, and a
  page keeps its position within the block. No two blocks may share a place, and the highest
  row of every disk must be reached within the last \<open>window\<close> blocks of a file.
\<close>

definition place_page :: "(nat \<Rightarrow> nat \<times> nat) \<Rightarrow> nat \<Rightarrow> nat \<Rightarrow> block_identifier" where
  "place_page place B off =
     \<lparr>bid_idx = fst (place (off div B)), bid_off = snd (place (off div B)) * B + off mod B\<rparr>"

lemma last_page: "0 < B \<Longrightarrow> (b * B + B - 1) div B = b" "0 < B \<Longrightarrow> (b * B + B - 1) mod B = B - 1" for B :: nat
proof -
  assume B: "0 < B"
  then have e: "b * B + B - 1 = (B - 1) + b * B" by simp
  show "(b * B + B - 1) div B = b" unfolding e by (subst div_mult_self1) (use B in simp_all)
  show "(b * B + B - 1) mod B = B - 1" unfolding e by (subst mod_mult_self1) (use B in simp)
qed

locale block_placement =
  fixes n :: nat and window :: nat and place :: "nat \<Rightarrow> nat \<times> nat"
  assumes disk: "fst (place b) < n"
    and place_inj: "place b = place b' \<Longrightarrow> b = b'"
    and recent: "b \<le> lb \<Longrightarrow>
      \<exists>b' \<le> lb. lb < b' + window \<and> fst (place b') = fst (place b) \<and> snd (place b) \<le> snd (place b')"
begin

lemma page_inj:
  assumes "0 < B" "place_page place B off = place_page place B off'"
  shows "off = off'"
proof -
  let ?r = "\<lambda>off. snd (place (off div B))"
  have idx: "fst (place (off div B)) = fst (place (off' div B))" and "?r off * B + off mod B = ?r off' * B + off' mod B"
    using assms(2) by (simp_all add: place_page_def)
  then have "(?r off * B + off mod B) div B = (?r off' * B + off' mod B) div B"
    and m: "(?r off * B + off mod B) mod B = (?r off' * B + off' mod B) mod B" by simp_all
  then have "?r off = ?r off'" using assms(1) by simp
  then have "off div B = off' div B" using idx by (intro place_inj) (simp add: prod_eq_iff)
  moreover have "off mod B = off' mod B" using m by simp
  ultimately show ?thesis by (metis div_mult_mod_eq)
qed

text \<open>Every page lies below the last page of one of the last blocks, on the same disk.\<close>

lemma page_below:
  assumes "0 < B" "off div B \<le> lb"
  shows "\<exists>b' \<le> lb. lb < b' + window \<and> bid_idx (place_page place B (b' * B + B - 1)) = bid_idx (place_page place B off)
    \<and> bid_off (place_page place B off) \<le> bid_off (place_page place B (b' * B + B - 1))"
proof -
  let ?b = "off div B"
  obtain b' where b': "b' \<le> lb" "lb < b' + window" "fst (place b') = fst (place ?b)" "snd (place ?b) \<le> snd (place b')"
    using recent [OF assms(2)] by blast
  note d = last_page [OF assms(1), of b']
  have "snd (place ?b) * B \<le> snd (place b') * B" using b'(4) by simp
  moreover have "off mod B \<le> B - 1" using mod_less_divisor [OF assms(1), of off] by linarith
  ultimately have "snd (place ?b) * B + off mod B \<le> snd (place b') * B + (B - 1)" by (rule add_mono)
  then have "bid_off (place_page place B off) \<le> bid_off (place_page place B (b' * B + B - 1))" by (simp add: place_page_def d [unfolded One_nat_def])
  with b' d show ?thesis by (intro exI [of _ b']) (simp add: place_page_def)
qed

end

section \<open>The three kinds of placement\<close>

definition RAID0_place :: "nat \<Rightarrow> nat \<Rightarrow> nat \<times> nat" where
  "RAID0_place n b = (b mod n, b div n)"

definition RAID5_place :: "nat \<Rightarrow> nat \<Rightarrow> nat \<times> nat" where
  "RAID5_place n b = ((b mod n + b div n) mod n, b div n)"

definition bucket :: "nat \<Rightarrow> nat \<Rightarrow> nat" where
  "bucket n d = (if d < FILE_CONST_P mod n then FILE_CONST_P div n + 1 else FILE_CONST_P div n)"

definition hash_place :: "nat \<Rightarrow> nat \<Rightarrow> nat \<times> nat" where
  "hash_place n b = (let p = FILE_CONST_A * b mod FILE_CONST_P in
     (p mod n, b div FILE_CONST_P * bucket n (p mod n) + p div n))"

primrec placement :: "mapper_t \<Rightarrow> nat \<Rightarrow> nat \<Rightarrow> nat \<times> nat" where
  "placement RAID0 = RAID0_place"
| "placement RAID5 = RAID5_place"
| "placement HASH = hash_place"

definition size_window :: "mapper_t \<Rightarrow> nat \<Rightarrow> nat" where
  "size_window kind n = (if kind = HASH then FILE_CONST_P else n * 2)"

text \<open>A block and the later block that is a multiple of \<open>w\<close> away and close to the end.\<close>

lemma shift_to_end:
  fixes b lb w :: nat
  assumes "b \<le> lb" "0 < w"
  obtains k where "b + k * w \<le> lb" "lb < b + k * w + w"
proof
  let ?k = "(lb - b) div w"
  have "?k * w \<le> lb - b" "lb - b < ?k * w + w"
    using dividend_less_div_times [OF assms(2), of "lb - b"] by (simp_all add: div_times_less_eq_dividend)
  then show "b + ?k * w \<le> lb" "lb < b + ?k * w + w" using assms(1) by linarith+
qed

lemma RAID0_recent:
  assumes "b \<le> lb" "0 < n"
  shows "\<exists>b' \<le> lb. lb < b' + n * 2 \<and> fst (RAID0_place n b') = fst (RAID0_place n b)
    \<and> snd (RAID0_place n b) \<le> snd (RAID0_place n b')"
proof -
  obtain k where "b + k * n \<le> lb" "lb < b + k * n + n" by (rule shift_to_end [OF assms])
  then show ?thesis using assms(2) by (intro exI [of _ "b + k * n"]) (simp add: RAID0_place_def)
qed

lemma RAID5_recent:
  assumes "b \<le> lb" "0 < n"
  shows "\<exists>b' \<le> lb. lb < b' + n * 2 \<and> fst (RAID5_place n b') = fst (RAID5_place n b)
    \<and> snd (RAID5_place n b) \<le> snd (RAID5_place n b')"
proof (cases "lb < b + n * 2")
  case False
  text \<open>the last complete stripe has a block on every disk\<close>
  define q where "q = lb div n - 1"
  have "(b + n * 2) div n \<le> lb div n" using False by (intro div_le_mono) simp
  then have q: "b div n < q" "Suc q = lb div n" using assms(2) by (simp_all add: q_def)
  define j where "j = (b mod n + b div n + (n - q mod n)) mod n"
  have j: "j < n" using assms(2) by (simp add: j_def)
  have le: "q mod n \<le> n" using assms(2) by (simp add: less_imp_le)
  have "(j + q) mod n = (b mod n + b div n + (n - q mod n) + q mod n) mod n"
    unfolding j_def by (simp add: mod_simps)
  also have "\<dots> = (b mod n + b div n + n) mod n" using le by simp
  finally have d: "(j + q) mod n = (b mod n + b div n) mod n" by simp
  let ?b = "q * n + j"
  have b: "?b mod n = j" "?b div n = q" using j by simp_all
  have "Suc q * n \<le> lb" "lb < Suc q * n + n"
    unfolding q(2) using dividend_less_div_times [OF assms(2), of lb] by (simp_all add: div_times_less_eq_dividend)
  then have "?b \<le> lb" "lb < ?b + n * 2" using j by simp_all
  then show ?thesis using b d q(1) by (intro exI [of _ ?b]) (simp add: RAID5_place_def)
qed (use assms in auto)

lemma hash_recent:
  assumes "b \<le> lb"
  shows "\<exists>b' \<le> lb. lb < b' + FILE_CONST_P \<and> fst (hash_place n b') = fst (hash_place n b)
    \<and> snd (hash_place n b) \<le> snd (hash_place n b')"
proof -
  have P: "0 < FILE_CONST_P" by (simp add: FILE_CONST_P_def)
  obtain k where k: "b + k * FILE_CONST_P \<le> lb" "lb < b + k * FILE_CONST_P + FILE_CONST_P"
    by (rule shift_to_end [OF assms P])
  let ?b = "b + k * FILE_CONST_P"
  have "FILE_CONST_A * ?b = FILE_CONST_A * b + FILE_CONST_A * k * FILE_CONST_P" by (simp add: algebra_simps)
  then have "FILE_CONST_A * ?b mod FILE_CONST_P = FILE_CONST_A * b mod FILE_CONST_P" by (simp only: mod_mult_self1)
  moreover have "b div FILE_CONST_P \<le> ?b div FILE_CONST_P" by (intro div_le_mono) simp
  ultimately show ?thesis using k by (intro exI [of _ ?b]) (simp add: hash_place_def Let_def)
qed

lemma RAID0_inj: "RAID0_place n b = RAID0_place n b' \<Longrightarrow> b = b'"
  by (simp add: RAID0_place_def) (metis div_mult_mod_eq)

lemma add_mod_cancel:
  fixes x y q n :: nat
  assumes "(x + q) mod n = (y + q) mod n" "x < n" "y < n"
  shows "x = y"
proof -
  have "int x mod int n = int y mod int n"
    using arg_cong [OF assms(1), of int] by (simp add: zmod_int mod_eq_dvd_iff)
  then show ?thesis using assms(2,3) by simp
qed

lemma RAID5_inj:
  assumes "0 < n" "RAID5_place n b = RAID5_place n b'"
  shows "b = b'"
proof -
  have q: "b div n = b' div n" using arg_cong [OF assms(2), of snd] unfolding RAID5_place_def snd_conv .
  have "(b mod n + b' div n) mod n = (b' mod n + b' div n) mod n" using arg_cong [OF assms(2), of fst] unfolding RAID5_place_def fst_conv q .
  from add_mod_cancel [OF this mod_less_divisor mod_less_divisor, OF assms(1) assms(1)] have "b mod n = b' mod n" .
  with q show ?thesis by (metis div_mult_mod_eq)
qed

lemma bucket_pos:
  assumes "0 < n" "p < FILE_CONST_P"
  shows "p div n < bucket n (p mod n)"
proof (cases "p mod n < FILE_CONST_P mod n")
  case True
  have "p div n \<le> FILE_CONST_P div n" using assms(2) by (intro div_le_mono) simp
  then show ?thesis using True by (simp add: bucket_def)
next
  case False
  have "p div n \<noteq> FILE_CONST_P div n"
  proof
    assume "p div n = FILE_CONST_P div n"
    then have "FILE_CONST_P div n * n + p mod n < FILE_CONST_P div n * n + FILE_CONST_P mod n"
      using assms(2) by (metis div_mult_mod_eq)
    with False show False by simp
  qed
  moreover have "p div n \<le> FILE_CONST_P div n" using assms(2) by (intro div_le_mono) simp
  ultimately show ?thesis using False by (simp add: bucket_def)
qed

text \<open>31 is invertible modulo the prime 191.\<close>

lemma hash_step_inj: "FILE_CONST_A * b mod FILE_CONST_P = FILE_CONST_A * b' mod FILE_CONST_P \<Longrightarrow>
    b mod FILE_CONST_P = b' mod FILE_CONST_P"
proof -
  assume "FILE_CONST_A * b mod FILE_CONST_P = FILE_CONST_A * b' mod FILE_CONST_P"
  then have "37 * (31 * b mod 191) mod 191 = 37 * (31 * b' mod 191) mod (191 :: nat)"
    by (simp add: FILE_CONST_A_def FILE_CONST_P_def)
  then have "(1147 * b) mod 191 = (1147 * b') mod (191 :: nat)" by (simp add: mod_simps)
  moreover have "(1147 * x) mod 191 = x mod 191" for x :: nat
  proof -
    have "1147 * x = x + 6 * x * 191" by simp
    then show ?thesis by (metis mod_mult_self1)
  qed
  ultimately show ?thesis by (simp add: FILE_CONST_P_def)
qed

lemma hash_inj:
  assumes n: "0 < n" and eq: "hash_place n b = hash_place n b'"
  shows "b = b'"
proof -
  let ?p = "\<lambda>b. FILE_CONST_A * b mod FILE_CONST_P" and ?c = "\<lambda>b. b div FILE_CONST_P"
  have P: "0 < FILE_CONST_P" by (simp add: FILE_CONST_P_def)
  then have lt: "?p x < FILE_CONST_P" for x by simp
  let ?L = "bucket n (?p b mod n)"
  have d: "?p b mod n = ?p b' mod n" using arg_cong [OF eq, of fst] unfolding hash_place_def Let_def fst_conv .
  have r: "?c b * ?L + ?p b div n = ?c b' * ?L + ?p b' div n" using arg_cong [OF eq, of snd] unfolding hash_place_def Let_def snd_conv d .
  have b1: "?p b div n < ?L" "?p b' div n < ?L" using bucket_pos [OF n lt, of b] bucket_pos [OF n lt, of b'] d by simp_all
  have c: "?c b = ?c b'" using arg_cong [OF r, of "\<lambda>x. x div ?L"] b1 by simp
  have "?p b div n = ?p b' div n" using arg_cong [OF r, of "\<lambda>x. x mod ?L"] b1 by simp
  with d have "?p b = ?p b'" by (metis div_mult_mod_eq)
  then have "b mod FILE_CONST_P = b' mod FILE_CONST_P" by (rule hash_step_inj)
  with c show ?thesis by (metis div_mult_mod_eq)
qed

interpretation stripe: block_placement "Suc k" "size_window kind (Suc k)" "placement kind (Suc k)" for kind k
proof
  fix b
  show "fst (placement kind (Suc k) b) < Suc k"
    by (cases kind) (simp_all add: RAID0_place_def RAID5_place_def hash_place_def Let_def)
next
  fix b b'
  assume "placement kind (Suc k) b = placement kind (Suc k) b'"
  then show "b = b'" by (cases kind) (auto intro: RAID0_inj RAID5_inj hash_inj)
next
  fix b lb :: nat
  assume "b \<le> lb"
  then show "\<exists>b' \<le> lb. lb < b' + size_window kind (Suc k) \<and> fst (placement kind (Suc k) b') = fst (placement kind (Suc k) b)
      \<and> snd (placement kind (Suc k) b) \<le> snd (placement kind (Suc k) b')"
    using RAID0_recent [of b lb "Suc k"] RAID5_recent [of b lb "Suc k"] hash_recent [of b lb "Suc k"]
    by (cases kind) (simp_all add: size_window_def)
qed

section \<open>The mappers implement their placement\<close>

definition mapper_ok :: "file_mapper \<Rightarrow> bool" where
  "mapper_ok m \<longleftrightarrow> mfiles m \<noteq> [] \<and> 0 < STRIPE_BLOCK_SIZE m"

abbreviation mapper_page :: "file_mapper \<Rightarrow> nat \<Rightarrow> block_identifier" where
  "mapper_page m \<equiv> place_page (placement (mkind m) (get_num_files m)) (STRIPE_BLOCK_SIZE m)"

lemmas place_defs = RAID0_place_def RAID5_place_def hash_place_def bucket_def place_page_def

lemma mapper_map_place: "mfiles m \<noteq> [] \<Longrightarrow> mapper_map m off = Inr (mapper_page m off)"
  by (cases "mkind m") (simp_all add: mapper_map_def place_defs RAID0_map_def RAID5_map_def hash_map_def
      cycle_size_in_bucket_def rand_start_def Let_def mod_simps)

lemma map2file_map: "map2file m off = bindE (mapper_map m off) (\<lambda>bid. Inr (bid_idx bid))"
  by (cases "mkind m") (simp_all add: map2file_def mapper_map_def RAID0_map2file_def RAID5_map2file_def hash_map2file_def
      RAID0_map_def RAID5_map_def hash_map_def Let_def)

lemma get_num_files_Suc: "mapper_ok m \<Longrightarrow> \<exists>k. get_num_files m = Suc k"
  by (cases "mfiles m") (simp_all add: mapper_ok_def get_num_files_def)

lemma mapper_page_disk: "mapper_ok m \<Longrightarrow> bid_idx (mapper_page m off) < get_num_files m"
  using get_num_files_Suc [of m] stripe.disk by (auto simp: place_page_def)

text \<open>The last page of the block that is \<open>j\<close> blocks from the end.\<close>

definition end_page :: "file_mapper \<Rightarrow> nat \<Rightarrow> nat \<Rightarrow> block_identifier" where
  "end_page m sz j =
     mapper_page m ((sz div STRIPE_BLOCK_SIZE m - j) * STRIPE_BLOCK_SIZE m + STRIPE_BLOCK_SIZE m - 1)"

lemma size_loop_step:
  assumes "mapper_ok m" "\<not> sz < i * STRIPE_BLOCK_SIZE m"
  shows "size_loop m sz i (Suc n) ret = size_loop m sz (i + 1) n
    (ret[bid_idx (end_page m sz i) := max (bid_off (end_page m sz i) + 1) (ret ! bid_idx (end_page m sz i))])"
proof -
  have "mfiles m \<noteq> []" using assms(1) by (simp add: mapper_ok_def)
  from mapper_map_place [OF this] have
    "mapper_map m ((sz div STRIPE_BLOCK_SIZE m - i) * STRIPE_BLOCK_SIZE m + STRIPE_BLOCK_SIZE m - 1) = Inr (end_page m sz i)"
    unfolding end_page_def .
  with assms(2) show ?thesis unfolding size_loop.simps Let_def by (simp only: if_False bindE_simps)
qed

lemma size_loop_ok:
  assumes ok: "mapper_ok m" and "length ret = get_num_files m"
  shows "\<exists>ret'. size_loop m sz i n ret = Inr ret' \<and> length ret' = get_num_files m
    \<and> (\<forall>d<get_num_files m. ret ! d \<le> ret' ! d)
    \<and> (\<forall>j. i \<le> j \<and> j < i + n \<and> j * STRIPE_BLOCK_SIZE m \<le> sz \<longrightarrow>
        bid_off (end_page m sz j) < ret' ! bid_idx (end_page m sz j))"
  using assms(2)
proof (induction n arbitrary: i ret)
  case (Suc n)
  let ?B = "STRIPE_BLOCK_SIZE m" let ?bid = "end_page m sz"
  show ?case
  proof (cases "sz < i * ?B")
    case True
    have "\<not> j * ?B \<le> sz" if "i \<le> j" for j using True mult_le_mono1 [OF that, of ?B] by linarith
    then show ?thesis using True Suc.prems by (intro exI [of _ ret] conjI) (simp, simp, simp, blast)
  next
    case False
    let ?ret = "ret[bid_idx (?bid i) := max (bid_off (?bid i) + 1) (ret ! bid_idx (?bid i))]"
    have idx: "bid_idx (?bid i) < length ret" using mapper_page_disk [OF ok] Suc.prems by (simp add: end_page_def)
    have "length ?ret = get_num_files m" using Suc.prems by simp
    from Suc.IH [OF this, of "i + 1"] obtain ret' where
      r: "size_loop m sz (i + 1) n ?ret = Inr ret'" "length ret' = get_num_files m"
      "\<forall>d<get_num_files m. ?ret ! d \<le> ret' ! d"
      "\<forall>j. i + 1 \<le> j \<and> j < i + 1 + n \<and> j * ?B \<le> sz \<longrightarrow> bid_off (?bid j) < ret' ! bid_idx (?bid j)" by blast
    have "ret ! d \<le> ret' ! d" if "d < get_num_files m" for d
      using r(3) [rule_format, OF that] idx by (cases "d = bid_idx (?bid i)") simp_all
    moreover have "bid_off (?bid i) < ret' ! bid_idx (?bid i)"
      using r(3) [rule_format, of "bid_idx (?bid i)"] idx Suc.prems by simp
    then have "bid_off (?bid j) < ret' ! bid_idx (?bid j)" if "i \<le> j" "j < i + Suc n" "j * ?B \<le> sz" for j
      using r(4) [rule_format, of j] that by (cases "j = i") simp_all
    ultimately show ?thesis using size_loop_step [OF ok False] r(1,2) by (intro exI [of _ ret']) simp
  qed
qed simp

text \<open>
  C8. The striping of an SAFS file, for each of the three mapping options: two different pages
  never share a place on a disk, and \<^verbatim>\<open>map2file\<close>, which picks the I/O thread, names the
  disk that \<^verbatim>\<open>map\<close> places the page on.
\<close>

theorem mapper_no_collision:
  assumes "mapper_ok m"
  shows "\<exists>bid bid'. mapper_map m off = Inr bid \<and> mapper_map m off' = Inr bid' \<and> map2file m off = Inr (bid_idx bid)
    \<and> bid_idx bid < get_num_files m \<and> (bid = bid' \<longleftrightarrow> off = off')"
proof -
  obtain k where k: "get_num_files m = Suc k" using get_num_files_Suc [OF assms] by blast
  have m: "mapper_map m x = Inr (mapper_page m x)" for x using assms by (intro mapper_map_place) (simp add: mapper_ok_def)
  have "mapper_page m off = mapper_page m off' \<longleftrightarrow> off = off'"
    using stripe.page_inj [of "STRIPE_BLOCK_SIZE m" "mkind m" k off off'] assms by (auto simp: k mapper_ok_def)
  with m mapper_page_disk [OF assms] show ?thesis by (simp add: map2file_map)
qed

definition demo_mapper :: "mapper_t \<Rightarrow> file_mapper" where
  "demo_mapper kind = \<lparr>file_id = 1, mfiles = replicate 3 part_file_info_default, mname = ''f'',
     STRIPE_BLOCK_SIZE = 4, mkind = kind\<rparr>"

theorem mapper_no_collision_witness:
  "mapper_map (demo_mapper RAID5) 17 \<noteq> mapper_map (demo_mapper RAID5) 5"
proof -
  have "mapper_ok (demo_mapper RAID5)" by (simp add: mapper_ok_def demo_mapper_def)
  from mapper_no_collision [OF this, of 17 5] show ?thesis by auto
qed

text \<open>
  C13. The sizes of the files on the disks, computed from the last blocks of an SAFS file,
  are large enough for each of the mapping options: every page up to the size of the SAFS file
  lies inside the file of its disk.
\<close>

theorem file_sizes_cover:
  assumes "mapper_ok m" "off \<le> sz"
  shows "\<exists>ret bid. get_size_per_disk m sz = Inr ret \<and> length ret = get_num_files m
    \<and> mapper_map m off = Inr bid \<and> bid_off bid < ret ! bid_idx bid"
proof -
  let ?B = "STRIPE_BLOCK_SIZE m" and ?lb = "sz div STRIPE_BLOCK_SIZE m"
  obtain k where k: "get_num_files m = Suc k" using get_num_files_Suc [OF assms(1)] by blast
  have B: "0 < ?B" and ne: "mfiles m \<noteq> []" using assms(1) by (simp_all add: mapper_ok_def)
  have "off div ?B \<le> ?lb" using assms(2) by (rule div_le_mono)
  from stripe.page_below [OF B this, of "mkind m" k, folded k] obtain b' where
    b': "b' \<le> ?lb" "?lb < b' + size_window (mkind m) (get_num_files m)"
      "bid_idx (mapper_page m (b' * ?B + ?B - 1)) = bid_idx (mapper_page m off)"
      "bid_off (mapper_page m off) \<le> bid_off (mapper_page m (b' * ?B + ?B - 1))" by blast
  obtain ret where r: "get_size_per_disk m sz = Inr ret" "length ret = get_num_files m"
    "\<And>j. j < size_window (mkind m) (get_num_files m) \<Longrightarrow> j * ?B \<le> sz \<Longrightarrow>
      bid_off (end_page m sz j) < ret ! bid_idx (end_page m sz j)"
    using size_loop_ok [OF assms(1), of "replicate (get_num_files m) 0" sz 0 "size_window (mkind m) (get_num_files m)"]
    by (auto simp: get_size_per_disk_def size_window_def)
  let ?j = "?lb - b'"
  have "?j * ?B \<le> ?lb * ?B" by simp
  also have "\<dots> \<le> sz" by simp
  finally have "bid_off (end_page m sz ?j) < ret ! bid_idx (end_page m sz ?j)" using r(3) [of ?j] b'(1,2) by linarith
  moreover have "?lb - ?j = b'" using b'(1) by simp
  ultimately have "bid_off (mapper_page m (b' * ?B + ?B - 1)) < ret ! bid_idx (mapper_page m (b' * ?B + ?B - 1))"
    unfolding end_page_def by simp
  with r(1,2) b'(3,4) mapper_map_place [OF ne] show ?thesis by auto
qed

theorem file_sizes_cover_witness:
  "\<exists>ret bid. get_size_per_disk (demo_mapper HASH) 100 = Inr ret \<and> mapper_map (demo_mapper HASH) 77 = Inr bid
    \<and> bid_off bid < ret ! bid_idx bid"
proof -
  have "mapper_ok (demo_mapper HASH)" by (simp add: mapper_ok_def demo_mapper_def)
  from file_sizes_cover [OF this, of 77 100] show ?thesis by auto
qed

section \<open>Pages of a partition\<close>

lemma fill_file_map_ok:
  assumes "distinct xs" "set xs \<subseteq> {..<length fm}"
  shows "\<exists>fm'. fill_file_map xs i fm = Inr fm' \<and> length fm' = length fm
    \<and> (\<forall>d<length fm. if d \<in> set xs then \<exists>j<length xs. fm' ! d = Some (i + j) \<and> xs ! j = d else fm' ! d = fm ! d)"
  using assms
proof (induction xs arbitrary: i fm)
  case (Cons x xs)
  let ?fm = "fm[x := Some i]"
  have x: "x < length fm" "x \<notin> set xs" using Cons.prems by auto
  from Cons.IH [of ?fm "i + 1"] Cons.prems obtain fm' where
    f: "fill_file_map xs (i + 1) ?fm = Inr fm'" "length fm' = length fm"
    "\<forall>d<length fm. if d \<in> set xs then \<exists>j<length xs. fm' ! d = Some (i + 1 + j) \<and> xs ! j = d else fm' ! d = ?fm ! d"
    by auto
  have "if d \<in> set (x # xs) then \<exists>j<length (x # xs). fm' ! d = Some (i + j) \<and> (x # xs) ! j = d else fm' ! d = fm ! d"
    if d: "d < length fm" for d
  proof (cases "d \<in> set xs")
    case True
    with f(3) d obtain j where "j < length xs" "fm' ! d = Some (i + 1 + j)" "xs ! j = d" by (auto split: if_splits)
    then have "\<exists>j<length (x # xs). fm' ! d = Some (i + j) \<and> (x # xs) ! j = d" by (intro exI [of _ "Suc j"]) simp
    with True show ?thesis by simp
  next
    case False
    with f(3) d have "fm' ! d = ?fm ! d" by auto
    with False x d show ?thesis by (cases "d = x") auto
  qed
  moreover have "fill_file_map (x # xs) i fm = Inr fm'" using f(1) x(1) by simp
  ultimately show ?case using f(2) by blast
qed simp

text \<open>
  C35. The partition of an I/O thread: a page whose disk belongs to the partition is found in the
  same file, at the same offset, as the mapper of the whole file places it; every other page
  fails the assertion.
\<close>

theorem partition_map_correct:
  assumes "mapper_ok m" "distinct indices" "set indices \<subseteq> {..<get_num_files m}"
  shows "\<exists>p bid. partition_new indices m = Inr p \<and> mapper_map m off = Inr bid
    \<and> (if bid_idx bid \<in> set indices
       then \<exists>i. partition_map off p = Inr (bid\<lparr>bid_idx := i\<rparr>) \<and> partition_map2file off p = Inr i
         \<and> partition_file_name i p = mapper_file_name (bid_idx bid) m
         \<and> partition_disk_id i p = mapper_disk_id (bid_idx bid) m
       else partition_map off p = Inl assert_failure \<and> partition_map2file off p = Inl assert_failure)"
proof -
  let ?bid = "mapper_page m off" and ?n = "get_num_files m"
  have map: "mapper_map m off = Inr ?bid" using assms(1) by (intro mapper_map_place) (simp add: mapper_ok_def)
  have d: "bid_idx ?bid < ?n" using assms(1) by (rule mapper_page_disk)
  obtain fm where fm: "fill_file_map indices 0 (replicate ?n None) = Inr fm" "length fm = ?n"
    "if bid_idx ?bid \<in> set indices then \<exists>j<length indices. fm ! bid_idx ?bid = Some j \<and> indices ! j = bid_idx ?bid
      else fm ! bid_idx ?bid = None"
  proof -
    let ?e = "replicate ?n (None :: nat option)"
    have "set indices \<subseteq> {..<length ?e}" using assms(3) by simp
    from fill_file_map_ok [OF assms(2) this, of 0] obtain fm where
      f: "fill_file_map indices 0 ?e = Inr fm" "length fm = length ?e"
      "\<forall>d<length ?e. if d \<in> set indices then \<exists>j<length indices. fm ! d = Some (0 + j) \<and> indices ! j = d
        else fm ! d = ?e ! d" by blast
    from f(3) [rule_format, of "bid_idx ?bid"] d f(1,2) that show thesis by (cases "bid_idx ?bid \<in> set indices") simp_all
  qed
  let ?p = "\<lparr>pmapper = Some m, pindices = indices, pfile_map = fm\<rparr>"
  have p: "partition_new indices m = Inr ?p" using fm(1) by (simp add: partition_new_def)
  have idx: "partition_idx (bid_idx ?bid) ?p
      = (case fm ! bid_idx ?bid of None \<Rightarrow> Inl assert_failure | Some i \<Rightarrow> Inr i)"
    using d fm(2) by (simp add: partition_idx_def)
  show ?thesis
  proof (cases "bid_idx ?bid \<in> set indices")
    case True
    with fm(3) obtain j where j: "j < length indices" "fm ! bid_idx ?bid = Some j" "indices ! j = bid_idx ?bid" by auto
    then have "partition_map off ?p = Inr (?bid\<lparr>bid_idx := j\<rparr>)" "partition_map2file off ?p = Inr j"
      "partition_file_name j ?p = mapper_file_name (bid_idx ?bid) m"
      "partition_disk_id j ?p = mapper_disk_id (bid_idx ?bid) m"
      using idx map by (simp_all add: partition_map_def partition_map2file_def partition_file_name_def
          partition_disk_id_def get_mapper_def map2file_map)
    with True p map show ?thesis by auto
  next
    case False
    with fm(3) idx map have "partition_map off ?p = Inl assert_failure" "partition_map2file off ?p = Inl assert_failure"
      by (simp_all add: partition_map_def partition_map2file_def get_mapper_def map2file_map)
    with False p map show ?thesis by auto
  qed
qed

theorem partition_map_correct_witness:
  "\<exists>p. partition_new [2, 0] (demo_mapper RAID0) = Inr p \<and> partition_map2file 8 p = Inr 0
    \<and> partition_map 4 p = Inl assert_failure"
proof -
  have ok: "mapper_ok (demo_mapper RAID0)" "distinct [2, 0 :: nat]" "set [2, 0] \<subseteq> {..<get_num_files (demo_mapper RAID0)}"
    by (simp_all add: mapper_ok_def demo_mapper_def get_num_files_def)
  have m: "mapper_map (demo_mapper RAID0) 4 = Inr \<lparr>bid_idx = 1, bid_off = 0\<rparr>" by code_simp
  obtain p where p: "partition_new [2, 0] (demo_mapper RAID0) = Inr p" "partition_map2file 8 p = Inr 0"
  proof
    show "partition_new [2, 0] (demo_mapper RAID0)
      = Inr \<lparr>pmapper = Some (demo_mapper RAID0), pindices = [2, 0], pfile_map = [Some 1, None, Some 0]\<rparr>" by code_simp
  qed code_simp
  from partition_map_correct [OF ok, of 4] p m show ?thesis by auto
qed

end
