(* ===== verification/Safs_Queue.thy ===== *)
theory Safs_Queue
  imports Monya_Prelude
begin

text \<open>
  \<^verbatim>\<open>src/SAFS/libsafs/container.h\<close>: the circular queues and the arrays of SAFS. A queue keeps its
  entries in a buffer whose size is a power of two; the positions count up for ever and are
  masked. An array the caller passes to a bulk operation is the list of entries that are read
  from it or written to it. The operations of the thread-safe and of the blocking queue run
  under a lock and are atomic; where a thread would wait for the condition, the result says so.
\<close>

unbundle bit_operations_syntax

section \<open>The circular queue\<close>

record 'a fifo_queue =
  size_mask :: nat
  qbuf :: "'a list"
  allocated :: bool
  qstart :: nat
  qend :: nat
  resizable :: bool

definition INT_MAX :: nat where
  "INT_MAX = 2 ^ 31 - 1"

definition loc_in_queue :: "('a, 'z) fifo_queue_scheme \<Rightarrow> nat \<Rightarrow> nat" where
  "loc_in_queue q idx = idx AND size_mask q"

text \<open>\<^verbatim>\<open>(int) ceil(log2(size))\<close> of a positive number.\<close>

fun ceil_log2 :: "nat \<Rightarrow> nat" where
  "ceil_log2 n = (if n \<le> 1 then 0 else Suc (ceil_log2 ((n + 1) div 2)))"

declare ceil_log2.simps [simp del]

definition fifo_queue_of :: "'a list \<Rightarrow> nat \<Rightarrow> 'a fifo_queue" where
  "fifo_queue_of entries num =
     \<lparr>size_mask = INT_MAX, qbuf = entries, allocated = False, qstart = 0, qend = num, resizable = False\<rparr>"

text \<open>A new buffer holds default values \<open>g\<close>; the logarithm of zero and a shift by 31 are undefined.\<close>

definition fifo_queue_new :: "'a \<Rightarrow> nat \<Rightarrow> bool \<Rightarrow> 'a fifo_queue result" where
  "fifo_queue_new g sz resz =
     (let log_size = ceil_log2 sz; sz' = 2 ^ log_size in
      if sz = 0 \<or> 31 \<le> log_size then Inl undefined_behaviour
      else Inr \<lparr>size_mask = sz' - 1, qbuf = replicate sz' g, allocated = True, qstart = 0, qend = 0, resizable = resz\<rparr>)"

definition fifo_get_size :: "('a, 'z) fifo_queue_scheme \<Rightarrow> nat result" where
  "fifo_get_size q = bindE (guardE (allocated q) assert_failure) (\<lambda>_. Inr (size_mask q + 1))"

definition fifo_get_num_entries :: "('a, 'z) fifo_queue_scheme \<Rightarrow> nat" where
  "fifo_get_num_entries q = qend q - qstart q"

definition fifo_is_empty :: "('a, 'z) fifo_queue_scheme \<Rightarrow> bool" where
  "fifo_is_empty q \<longleftrightarrow> qend q \<le> qstart q"

definition fifo_is_full :: "('a, 'z) fifo_queue_scheme \<Rightarrow> bool result" where
  "fifo_is_full q = bindE (fifo_get_size q) (\<lambda>sz. Inr (sz \<le> qend q - qstart q))"

definition get_num_remaining :: "('a, 'z) fifo_queue_scheme \<Rightarrow> nat result" where
  "get_num_remaining q = bindE (fifo_get_size q) (\<lambda>sz. Inr (sz - fifo_get_num_entries q))"

definition fifo_front :: "('a, 'z) fifo_queue_scheme \<Rightarrow> 'a result" where
  "fifo_front q =
     bindE (guardE (\<not> fifo_is_empty q) assert_failure) (\<lambda>_. read_at (qbuf q) (loc_in_queue q (qstart q)))"

definition fifo_back :: "('a, 'z) fifo_queue_scheme \<Rightarrow> 'a result" where
  "fifo_back q =
     bindE (guardE (\<not> fifo_is_empty q) assert_failure) (\<lambda>_. read_at (qbuf q) (loc_in_queue q (qend q - 1)))"

definition fifo_pop_front :: "('a, 'z) fifo_queue_scheme \<Rightarrow> ('a \<times> ('a, 'z) fifo_queue_scheme) result" where
  "fifo_pop_front q =
     bindE (guardE (qstart q < qend q) assert_failure) (\<lambda>_.
     bindE (read_at (qbuf q) (loc_in_queue q (qstart q))) (\<lambda>ret. Inr (ret, q\<lparr>qstart := qstart q + 1\<rparr>)))"

definition buf_write :: "nat \<Rightarrow> 'a \<Rightarrow> ('a, 'z) fifo_queue_scheme \<Rightarrow> ('a, 'z) fifo_queue_scheme result" where
  "buf_write i v q =
     (if i < length (qbuf q) then Inr (q\<lparr>qbuf := (qbuf q)[i := v]\<rparr>) else Inl undefined_behaviour)"

definition fifo_push_back :: "'a \<Rightarrow> ('a, 'z) fifo_queue_scheme \<Rightarrow> ('a, 'z) fifo_queue_scheme result" where
  "fifo_push_back v q =
     bindE (fifo_get_size q) (\<lambda>sz.
     bindE (guardE (qend q - qstart q < sz) assert_failure) (\<lambda>_.
     bindE (buf_write (loc_in_queue q (qend q)) v q) (\<lambda>q. Inr (q\<lparr>qend := qend q + 1\<rparr>))))"

fun fifo_fetch :: "nat \<Rightarrow> ('a, 'z) fifo_queue_scheme \<Rightarrow> ('a list \<times> ('a, 'z) fifo_queue_scheme) result" where
  "fifo_fetch 0 q = Inr ([], q)"
| "fifo_fetch (Suc num) q =
     (if fifo_is_empty q then Inr ([], q)
      else bindE (read_at (qbuf q) (loc_in_queue q (qstart q))) (\<lambda>x.
           bindE (fifo_fetch num (q\<lparr>qstart := qstart q + 1\<rparr>)) (\<lambda>(xs, q). Inr (x # xs, q))))"

fun fifo_add :: "'a list \<Rightarrow> ('a, 'z) fifo_queue_scheme \<Rightarrow> (nat \<times> ('a, 'z) fifo_queue_scheme) result" where
  "fifo_add [] q = bindE (fifo_is_full q) (\<lambda>_. Inr (0, q))"
| "fifo_add (x # xs) q =
     bindE (fifo_is_full q) (\<lambda>full.
     if full then Inr (0, q)
     else bindE (buf_write (loc_in_queue q (qend q)) x q) (\<lambda>q.
          bindE (fifo_add xs (q\<lparr>qend := qend q + 1\<rparr>)) (\<lambda>(n, q). Inr (n + 1, q))))"

text \<open>Fetching from another queue straight into the buffer.\<close>

definition buf_splice :: "nat \<Rightarrow> 'a list \<Rightarrow> ('a, 'z) fifo_queue_scheme \<Rightarrow> ('a, 'z) fifo_queue_scheme" where
  "buf_splice idx xs q =
     q\<lparr>qbuf := take idx (qbuf q) @ xs @ drop (idx + length xs) (qbuf q), qend := qend q + length xs\<rparr>"

definition fifo_add_queue ::
  "('a, 'y) fifo_queue_scheme \<Rightarrow> ('a, 'z) fifo_queue_scheme
    \<Rightarrow> (nat \<times> ('a, 'y) fifo_queue_scheme \<times> ('a, 'z) fifo_queue_scheme) result" where
  "fifo_add_queue queue q =
     bindE (fifo_get_size q) (\<lambda>sz.
     bindE (get_num_remaining q) (\<lambda>remaining.
     let idx = loc_in_queue q (qend q); len = min (sz - idx) remaining in
     bindE (fifo_fetch len queue) (\<lambda>(xs, queue).
     let q = buf_splice idx xs q in
     bindE (get_num_remaining q) (\<lambda>remaining.
     if length xs < len \<or> remaining = 0 then Inr (length xs, queue, q)
     else bindE (guardE (loc_in_queue q (qend q) = 0) assert_failure) (\<lambda>_.
          bindE (fifo_fetch remaining queue) (\<lambda>(ys, queue).
          Inr (length xs + length ys, queue, buf_splice 0 ys q)))))))"

fun copy_entries :: "('a, 'z) fifo_queue_scheme \<Rightarrow> nat \<Rightarrow> nat \<Rightarrow> 'a list result" where
  "copy_entries q i 0 = Inr []"
| "copy_entries q i (Suc n) =
     bindE (read_at (qbuf q) (loc_in_queue q (qstart q + i))) (\<lambda>x.
     bindE (copy_entries q (i + 1) n) (\<lambda>xs. Inr (x # xs)))"

definition expand_queue :: "'a \<Rightarrow> nat \<Rightarrow> ('a, 'z) fifo_queue_scheme \<Rightarrow> ('a, 'z) fifo_queue_scheme result" where
  "expand_queue g new_size q =
     (let log_size = ceil_log2 new_size; new_size' = 2 ^ log_size in
      if new_size = 0 \<or> 31 \<le> log_size then Inl undefined_behaviour
      else bindE (guardE (resizable q) assert_failure) (\<lambda>_.
           bindE (fifo_get_size q) (\<lambda>sz.
           bindE (guardE (sz < new_size') assert_failure) (\<lambda>_.
           let num = fifo_get_num_entries q in
           bindE (copy_entries q 0 num) (\<lambda>xs.
           Inr (q\<lparr>qbuf := xs @ replicate (new_size' - num) g, size_mask := new_size' - 1, qstart := 0, qend := num\<rparr>))))))"

text \<open>The iterator: a position of the queue, which the queue masks.\<close>

definition it_begin :: "('a, 'z) fifo_queue_scheme \<Rightarrow> nat" where
  "it_begin q = qstart q"

definition it_deref :: "nat \<Rightarrow> ('a, 'z) fifo_queue_scheme \<Rightarrow> 'a result" where
  "it_deref idx q = read_at (qbuf q) (loc_in_queue q idx)"

definition it_add :: "nat \<Rightarrow> nat \<Rightarrow> ('a, 'z) fifo_queue_scheme \<Rightarrow> nat result" where
  "it_add num idx q = bindE (guardE (idx + num \<le> qend q) assert_failure) (\<lambda>_. Inr (idx + num))"

definition it_end :: "('a, 'z) fifo_queue_scheme \<Rightarrow> nat result" where
  "it_end q =
     bindE (guardE (qstart q \<le> qend q) assert_failure) (\<lambda>_. it_add (qend q - qstart q) (it_begin q) q)"

section \<open>The thread-safe queue\<close>

record 'a thread_safe_FIFO_queue = "'a fifo_queue" +
  ts_max_size :: nat
  ts_name :: string

definition thread_safe_FIFO_queue_new :: "'a \<Rightarrow> string \<Rightarrow> nat \<Rightarrow> nat \<Rightarrow> 'a thread_safe_FIFO_queue result" where
  "thread_safe_FIFO_queue_new g name init_size max_size =
     bindE (fifo_queue_new g init_size (init_size < max_size)) (\<lambda>q.
     Inr (fifo_queue.extend q \<lparr>ts_max_size = max_size, ts_name = name\<rparr>))"

text \<open>\<^verbatim>\<open>while (new_size < min_required_size && new_size < max_size) new_size *= 2\<close>\<close>

function double_until :: "nat \<Rightarrow> nat \<Rightarrow> nat \<Rightarrow> nat" where
  "double_until required max_size new_size =
     (if 0 < new_size \<and> new_size < required \<and> new_size < max_size
      then double_until required max_size (new_size * 2) else new_size)"
  by auto
termination by (relation "measure (\<lambda>(r, m, s). m - s)") auto

declare double_until.simps [simp del]

definition ts_fetch ::
  "nat \<Rightarrow> 'a thread_safe_FIFO_queue \<Rightarrow> ('a list \<times> 'a thread_safe_FIFO_queue) result" where
  "ts_fetch num q = fifo_fetch num q"

definition ts_add :: "'a \<Rightarrow> 'a list \<Rightarrow> 'a thread_safe_FIFO_queue \<Rightarrow> (nat \<times> 'a thread_safe_FIFO_queue) result" where
  "ts_add g entries q =
     bindE (fifo_add entries q) (\<lambda>(ret, q).
     bindE (fifo_get_size q) (\<lambda>orig_size.
     if ret < length entries \<and> orig_size < ts_max_size q
     then bindE (expand_queue g (double_until (orig_size + length entries - ret) (ts_max_size q) orig_size) q) (\<lambda>q.
          bindE (fifo_add (drop ret entries) q) (\<lambda>(ret2, q).
          bindE (guardE (ret + ret2 = length entries) assert_failure) (\<lambda>_. Inr (ret + ret2, q))))
     else Inr (ret, q)))"

text \<open>Whatever has been added, the bulk operation on a queue returns 0.\<close>

definition ts_add_queue ::
  "'a \<Rightarrow> ('a, 'y) fifo_queue_scheme \<Rightarrow> 'a thread_safe_FIFO_queue
    \<Rightarrow> (nat \<times> ('a, 'y) fifo_queue_scheme \<times> 'a thread_safe_FIFO_queue) result" where
  "ts_add_queue g queue q =
     bindE (fifo_add_queue queue q) (\<lambda>(ret, queue, q).
     bindE (fifo_get_size q) (\<lambda>orig_size.
     if \<not> fifo_is_empty queue \<and> orig_size < ts_max_size q
     then bindE (expand_queue g (double_until (orig_size + fifo_get_num_entries queue) (ts_max_size q) orig_size) q) (\<lambda>q.
          bindE (fifo_add_queue queue q) (\<lambda>(ret2, queue, q).
          bindE (guardE (fifo_is_empty queue) assert_failure) (\<lambda>_. Inr (0, queue, q))))
     else Inr (0, queue, q)))"

definition addByForce :: "'a \<Rightarrow> 'a list \<Rightarrow> 'a thread_safe_FIFO_queue \<Rightarrow> 'a thread_safe_FIFO_queue result" where
  "addByForce g entries q =
     bindE (ts_add g entries q) (\<lambda>(n, q).
     bindE (guardE (n = length entries) assert_failure) (\<lambda>_. Inr q))"

definition ts_pop_front :: "'a thread_safe_FIFO_queue \<Rightarrow> ('a \<times> 'a thread_safe_FIFO_queue) result" where
  "ts_pop_front q =
     bindE (ts_fetch 1 q) (\<lambda>(xs, q). case xs of [x] \<Rightarrow> Inr (x, q) | _ \<Rightarrow> Inl assert_failure)"

text \<open>Pushing repeats until the entry is in; nobody else takes one out here.\<close>

partial_function (option) ts_push_back ::
  "'a \<Rightarrow> 'a \<Rightarrow> 'a thread_safe_FIFO_queue \<Rightarrow> 'a thread_safe_FIFO_queue exec" where
  "ts_push_back g entry q =
     bindX (Some (ts_add g [entry] q)) (\<lambda>(n, q). if n = 0 then ts_push_back g entry q else Some (Inr q))"

section \<open>The blocking queue\<close>

record 'a blocking_FIFO_queue = "'a fifo_queue" +
  num_empty :: nat
  num_full :: nat
  bq_max_size :: nat
  interrupted :: bool
  bq_name :: string

definition blocking_FIFO_queue_new :: "'a \<Rightarrow> string \<Rightarrow> nat \<Rightarrow> nat \<Rightarrow> 'a blocking_FIFO_queue result" where
  "blocking_FIFO_queue_new g name init_size max_size =
     bindE (fifo_queue_new g init_size (init_size < max_size)) (\<lambda>q.
     bindE (guardE (init_size \<le> max_size) assert_failure) (\<lambda>_.
     Inr (fifo_queue.extend q
       \<lparr>num_empty = 0, num_full = 0, bq_max_size = max_size, interrupted = False, bq_name = name\<rparr>)))"

text \<open>
  One pass of the loop of \<^verbatim>\<open>add_partial\<close> under the lock: how many entries are in, whether the
  condition was broadcast, and whether the thread waits for the condition.
\<close>

definition bq_grow :: "'a \<Rightarrow> nat \<Rightarrow> 'a blocking_FIFO_queue \<Rightarrow> 'a blocking_FIFO_queue result" where
  "bq_grow g num q =
     bindE (fifo_get_size q) (\<lambda>sz.
     if sz - fifo_get_num_entries q < num \<and> sz < bq_max_size q
     then expand_queue g (min (max (sz * 2) (fifo_get_num_entries q + num)) (bq_max_size q)) q
     else Inr q)"

definition add_round ::
  "'a \<Rightarrow> ('a, 'y) fifo_queue_scheme \<Rightarrow> 'a blocking_FIFO_queue
    \<Rightarrow> (nat \<times> bool \<times> ('a, 'y) fifo_queue_scheme \<times> 'a blocking_FIFO_queue) result" where
  "add_round g queue q =
     (let empty = fifo_is_empty q in
      bindE (bq_grow g (fifo_get_num_entries queue) q) (\<lambda>q.
      bindE (fifo_add_queue queue q) (\<lambda>(ret, queue, q). Inr (ret, empty, queue, q))))"

datatype 'a wait = Waits 'a | Done 'a

partial_function (option) add_partial ::
  "'a \<Rightarrow> nat \<Rightarrow> nat \<Rightarrow> ('a, 'y) fifo_queue_scheme \<Rightarrow> 'a blocking_FIFO_queue
    \<Rightarrow> (nat \<times> ('a, 'y) fifo_queue_scheme \<times> 'a blocking_FIFO_queue) wait exec" where
  "add_partial g min_added num_added queue q =
     (if fifo_is_empty queue then Some (Inr (Done (num_added, queue, q)))
      else bindX (Some (add_round g queue q)) (\<lambda>(ret, _, queue, q).
           if num_added + ret < min_added
           then bindX (Some (fifo_is_full q)) (\<lambda>full.
                if full \<and> \<not> fifo_is_empty queue
                then Some (Inr (Waits (num_added + ret, queue, q\<lparr>num_full := num_full q + 1\<rparr>)))
                else add_partial g min_added (num_added + ret) queue q)
           else Some (Inr (Done (num_added + ret, queue, q)))))"

definition non_blocking_add ::
  "'a \<Rightarrow> ('a, 'y) fifo_queue_scheme \<Rightarrow> 'a blocking_FIFO_queue
    \<Rightarrow> (nat \<times> ('a, 'y) fifo_queue_scheme \<times> 'a blocking_FIFO_queue) wait exec" where
  "non_blocking_add g queue q = add_partial g 0 0 queue q"

definition non_blocking_add_entries ::
  "'a \<Rightarrow> 'a list \<Rightarrow> 'a blocking_FIFO_queue \<Rightarrow> (nat \<times> 'a fifo_queue \<times> 'a blocking_FIFO_queue) wait exec" where
  "non_blocking_add_entries g entries q = non_blocking_add g (fifo_queue_of entries (length entries)) q"

definition bq_add_queue ::
  "'a \<Rightarrow> ('a, 'y) fifo_queue_scheme \<Rightarrow> 'a blocking_FIFO_queue
    \<Rightarrow> (nat \<times> ('a, 'y) fifo_queue_scheme \<times> 'a blocking_FIFO_queue) wait exec" where
  "bq_add_queue g queue q = add_partial g INT_MAX 0 queue q"

definition bq_add_entries ::
  "'a \<Rightarrow> 'a list \<Rightarrow> 'a blocking_FIFO_queue \<Rightarrow> (nat \<times> 'a fifo_queue \<times> 'a blocking_FIFO_queue) wait exec" where
  "bq_add_entries g entries q = bq_add_queue g (fifo_queue_of entries (length entries)) q"

text \<open>A fetch, up to the point where it waits or returns; the flag tells whether it broadcasts.\<close>

definition bq_fetch ::
  "nat \<Rightarrow> bool \<Rightarrow> bool \<Rightarrow> 'a blocking_FIFO_queue \<Rightarrow> ('a list \<times> bool \<times> 'a blocking_FIFO_queue) wait result" where
  "bq_fetch num blocking interruptible q =
     (if blocking \<and> fifo_is_empty q \<and> \<not> (interruptible \<and> interrupted q)
      then Inr (Waits ([], False, q\<lparr>num_empty := num_empty q + 1\<rparr>))
      else let q = (if blocking \<and> fifo_is_empty q then q\<lparr>num_empty := num_empty q + 1, interrupted := False\<rparr> else q) in
           bindE (fifo_is_full q) (\<lambda>full.
           bindE (fifo_fetch num q) (\<lambda>(xs, q). Inr (Done (xs, full, q)))))"

definition non_blocking_fetch ::
  "nat \<Rightarrow> 'a blocking_FIFO_queue \<Rightarrow> ('a list \<times> bool \<times> 'a blocking_FIFO_queue) wait result" where
  "non_blocking_fetch num q = bq_fetch num False False q"

definition bq_wakeup :: "'a blocking_FIFO_queue \<Rightarrow> 'a blocking_FIFO_queue" where
  "bq_wakeup q = (if fifo_is_empty q then q\<lparr>interrupted := True\<rparr> else q)"

section \<open>Arrays\<close>

text \<open>An array that moves from its inline buffer to the heap when it grows.\<close>

record 'a embedded_array =
  ea_buf :: "'a list"
  ea_heap :: "'a list option"
  ea_capacity :: nat

definition embedded_array_new :: "'a \<Rightarrow> nat \<Rightarrow> 'a embedded_array" where
  "embedded_array_new g n = \<lparr>ea_buf = replicate n g, ea_heap = None, ea_capacity = n\<rparr>"

definition ea_real_buf :: "'a embedded_array \<Rightarrow> 'a list" where
  "ea_real_buf a = (case ea_heap a of None \<Rightarrow> ea_buf a | Some b \<Rightarrow> b)"

definition ea_nth :: "nat \<Rightarrow> 'a embedded_array \<Rightarrow> 'a result" where
  "ea_nth idx a = bindE (guardE (idx < ea_capacity a) assert_failure) (\<lambda>_. read_at (ea_real_buf a) idx)"

definition ea_resize :: "'a \<Rightarrow> nat \<Rightarrow> 'a embedded_array \<Rightarrow> 'a embedded_array" where
  "ea_resize g new_size a =
     (if new_size \<le> ea_capacity a then a
      else a\<lparr>ea_heap := Some (take (ea_capacity a) (ea_real_buf a) @ replicate (new_size - ea_capacity a) g),
             ea_capacity := new_size\<rparr>)"

definition ea_clear :: "'a embedded_array \<Rightarrow> 'a embedded_array" where
  "ea_clear a =
     (if ea_heap a \<noteq> None then a\<lparr>ea_heap := None, ea_capacity := length (ea_buf a)\<rparr> else a)"

text \<open>Assignment moves the entries; \<open>d\<close> is the default value left behind. The result has both arrays.\<close>

definition ea_assign :: "'a \<Rightarrow> 'a embedded_array \<Rightarrow> 'a embedded_array \<Rightarrow> 'a embedded_array \<times> 'a embedded_array" where
  "ea_assign d arr a =
     (let a = ea_clear a in
      case ea_heap arr of
        None \<Rightarrow> (a\<lparr>ea_buf := ea_buf arr, ea_capacity := length (ea_buf a)\<rparr>,
                 arr\<lparr>ea_buf := replicate (length (ea_buf arr)) d\<rparr>)
      | Some b \<Rightarrow> (a\<lparr>ea_heap := Some b, ea_capacity := ea_capacity arr\<rparr>,
                   arr\<lparr>ea_heap := None, ea_capacity := length (ea_buf arr)\<rparr>))"

record 'a stack_array =
  sa_real_buf :: "'a list"
  sa_capacity :: nat

definition stack_array_new :: "'a \<Rightarrow> nat \<Rightarrow> nat \<Rightarrow> 'a stack_array" where
  "stack_array_new g n cap =
     (if cap \<le> n then \<lparr>sa_real_buf = replicate n g, sa_capacity = n\<rparr>
      else \<lparr>sa_real_buf = replicate cap g, sa_capacity = cap\<rparr>)"

definition stack_array_nth :: "nat \<Rightarrow> 'a stack_array \<Rightarrow> 'a result" where
  "stack_array_nth idx a = bindE (guardE (idx < sa_capacity a) assert_failure) (\<lambda>_. read_at (sa_real_buf a) idx)"

section \<open>The entries of a queue\<close>

definition ring_size :: "('a, 'z) fifo_queue_scheme \<Rightarrow> nat" where
  "ring_size q = size_mask q + 1"

definition entries :: "('a, 'z) fifo_queue_scheme \<Rightarrow> 'a list" where
  "entries q = map (\<lambda>i. qbuf q ! (i mod ring_size q)) [qstart q..<qend q]"

text \<open>A queue that can be read, and a queue with a buffer of its own.\<close>

definition readable :: "('a, 'z) fifo_queue_scheme \<Rightarrow> bool" where
  "readable q \<longleftrightarrow> (\<exists>j. size_mask q = 2 ^ j - 1) \<and> qstart q \<le> qend q
     \<and> (\<forall>i. qstart q \<le> i \<and> i < qend q \<longrightarrow> i mod ring_size q < length (qbuf q))"

definition fifo_ok :: "('a, 'z) fifo_queue_scheme \<Rightarrow> bool" where
  "fifo_ok q \<longleftrightarrow> allocated q \<and> (\<exists>j. size_mask q = 2 ^ j - 1) \<and> length (qbuf q) = ring_size q
     \<and> qstart q \<le> qend q \<and> qend q - qstart q \<le> ring_size q"

lemma and_low_bits: "i AND (2 ^ j - 1) = i mod 2 ^ j" for i :: nat
  by (metis mask_eq_exp_minus_1 take_bit_eq_mask take_bit_eq_mod)

lemma loc_mod:
  assumes "\<exists>j. size_mask q = 2 ^ j - 1"
  shows "loc_in_queue q i = i mod ring_size q"
proof -
  from assms obtain j where j: "size_mask q = 2 ^ j - 1" by blast
  then have "ring_size q = 2 ^ j" by (simp add: ring_size_def)
  then show ?thesis unfolding loc_in_queue_def j and_low_bits by simp
qed

lemma ring_size_pos: "0 < ring_size q"
  by (simp add: ring_size_def)

lemma fifo_ok_readable: "fifo_ok q \<Longrightarrow> readable q"
  by (simp add: fifo_ok_def readable_def ring_size_pos)

lemma fifo_queue_of_readable:
  assumes "n \<le> length xs" "n \<le> 2 ^ 31"
  shows "readable (fifo_queue_of xs n)" "entries (fifo_queue_of xs n) = take n xs"
proof -
  have "ring_size (fifo_queue_of xs n) = 2 ^ 31" by (simp add: ring_size_def fifo_queue_of_def INT_MAX_def)
  then show "readable (fifo_queue_of xs n)" "entries (fifo_queue_of xs n) = take n xs"
    using assms by (auto simp: readable_def entries_def fifo_queue_of_def INT_MAX_def intro!: exI [of _ 31] nth_equalityI)
qed

lemma length_entries [simp]: "length (entries q) = qend q - qstart q"
  by (simp add: entries_def)

lemma entries_Nil_iff: "entries q = [] \<longleftrightarrow> fifo_is_empty q"
  by (auto simp: entries_def fifo_is_empty_def)

lemma read_front:
  assumes "readable q" "\<not> fifo_is_empty q"
  shows "read_at (qbuf q) (loc_in_queue q (qstart q)) = Inr (hd (entries q))"
    and "readable (q\<lparr>qstart := qstart q + 1\<rparr>)" "entries (q\<lparr>qstart := qstart q + 1\<rparr>) = tl (entries q)"
proof -
  have lt: "qstart q < qend q" using assms(2) by (simp add: fifo_is_empty_def)
  have loc: "loc_in_queue q (qstart q) = qstart q mod ring_size q" using assms(1) by (intro loc_mod) (simp add: readable_def)
  have e: "entries q = qbuf q ! (qstart q mod ring_size q) # entries (q\<lparr>qstart := qstart q + 1\<rparr>)"
    using lt by (simp add: entries_def upt_conv_Cons ring_size_def)
  have "qstart q mod ring_size q < length (qbuf q)" using assms(1) lt by (simp add: readable_def)
  then show "read_at (qbuf q) (loc_in_queue q (qstart q)) = Inr (hd (entries q))" by (simp add: loc e)
  show "readable (q\<lparr>qstart := qstart q + 1\<rparr>)" using assms(1) lt by (auto simp: readable_def ring_size_def)
  show "entries (q\<lparr>qstart := qstart q + 1\<rparr>) = tl (entries q)" by (simp add: e)
qed

lemma fetch_ok:
  assumes "readable q"
  shows "fifo_fetch n q = Inr (take n (entries q), q\<lparr>qstart := qstart q + min n (length (entries q))\<rparr>)"
    and "readable (q\<lparr>qstart := qstart q + min n (length (entries q))\<rparr>)"
    and "entries (q\<lparr>qstart := qstart q + min n (length (entries q))\<rparr>) = drop n (entries q)"
  using assms
proof (induction n arbitrary: q)
  case (Suc n)
  {
    case 1
    show ?case
    proof (cases "fifo_is_empty q")
      case False
      note f = read_front [OF 1 False]
      let ?q = "q\<lparr>qstart := qstart q + 1\<rparr>"
      have ne: "entries q \<noteq> []" "qstart q < qend q" using False by (simp_all add: entries_Nil_iff) (simp add: fifo_is_empty_def)
      have "qstart q + 1 + min n (length (entries ?q)) = qstart q + min (Suc n) (length (entries q))"
        using ne(2) by (cases "n \<le> qend q - Suc (qstart q)") (simp_all add: min_def, linarith+)
      then show ?thesis using False f Suc.IH(1) [OF f(2)] ne by (simp add: take_Suc)
    qed (simp add: entries_Nil_iff [symmetric] fifo_is_empty_def)
  next
    case 2
    then show ?case by (auto simp: readable_def ring_size_def)
  next
    case 3
    then show ?case by (auto simp: entries_def ring_size_def min_def drop_map)
  }
qed simp_all

section \<open>Adding entries\<close>

lemma mod_ring_neq:
  fixes i j n :: nat
  assumes "i < j" "j - i < n"
  shows "i mod n \<noteq> j mod n"
proof
  assume "i mod n = j mod n"
  then have "n dvd j - i" using assms(1) by (metis mod_eq_dvd_iff_nat less_imp_le)
  with assms show False by (auto dest: dvd_imp_le)
qed

lemma nth_outside_splice:
  assumes "i + length xs \<le> length ys" "k < i \<or> i + length xs \<le> k" "k < length ys"
  shows "(take i ys @ xs @ drop (i + length xs) ys) ! k = ys ! k"
  using assms by (auto simp: nth_append min_def)

lemma splice_ok:
  assumes ok: "fifo_ok q" and idx: "idx = qend q mod ring_size q"
    and room: "idx + length xs \<le> ring_size q" "length (entries q) + length xs \<le> ring_size q"
  shows "fifo_ok (buf_splice idx xs q)" "entries (buf_splice idx xs q) = entries q @ xs"
proof -
  let ?q = "buf_splice idx xs q" and ?n = "ring_size q"
  have n: "ring_size ?q = ?n" by (simp add: buf_splice_def ring_size_def)
  have len: "length (qbuf q) = ?n" and le: "qstart q \<le> qend q" using ok by (simp_all add: fifo_ok_def)
  have f: "qend ?q = qend q + length xs" "qstart ?q = qstart q" "length (qbuf ?q) = ?n" "allocated ?q = allocated q"
    "size_mask ?q = size_mask q" using len room(1) by (simp_all add: buf_splice_def)
  show "fifo_ok ?q" using ok room(2) by (simp add: fifo_ok_def n f)
  have pos: "(qend q + j) mod ?n = idx + j" if "j < length xs" for j
  proof -
    have "(qend q + j) mod ?n = (idx + j) mod ?n" unfolding idx by (rule mod_add_left_eq [symmetric])
    also have "\<dots> = idx + j" using that room(1) by simp
    finally show ?thesis .
  qed
  have old: "qbuf ?q ! (i mod ?n) = qbuf q ! (i mod ?n)" if i: "qstart q \<le> i" "i < qend q" for i
  proof (rule ccontr)
    assume neq: "qbuf ?q ! (i mod ?n) \<noteq> qbuf q ! (i mod ?n)"
    have "idx \<le> i mod ?n \<and> i mod ?n < idx + length xs"
    proof (rule ccontr)
      assume "\<not> (idx \<le> i mod ?n \<and> i mod ?n < idx + length xs)"
      then have "i mod ?n < idx \<or> idx + length xs \<le> i mod ?n" by linarith
      from nth_outside_splice [OF _ this, of "qbuf q"] neq len room(1) ring_size_pos [of q]
      show False by (simp add: buf_splice_def)
    qed
    then obtain j where j: "i mod ?n = idx + j" "j < length xs" using le_Suc_ex [of idx "i mod ?n"] by auto
    have "qend q + j - i < ?n" "i < qend q + j" using i j(2) room(2) by simp_all
    with mod_ring_neq [of i "qend q + j" ?n] pos [OF j(2)] j(1) show False by argo
  qed
  have new: "qbuf ?q ! ((qend q + j) mod ?n) = xs ! j" if "j < length xs" for j
    using that room(1) len by (simp add: pos buf_splice_def nth_append)
  have "[qstart ?q..<qend ?q] = [qstart q..<qend q] @ [qend q..<qend q + length xs]"
    unfolding f(1,2) by (rule upt_add_eq_append [OF le])
  then have "entries ?q = map (\<lambda>i. qbuf ?q ! (i mod ?n)) [qstart q..<qend q]
      @ map (\<lambda>i. qbuf ?q ! (i mod ?n)) [qend q..<qend q + length xs]"
    by (simp add: entries_def n)
  moreover have "map (\<lambda>i. qbuf ?q ! (i mod ?n)) [qstart q..<qend q] = entries q"
    using old by (simp add: entries_def)
  moreover have "map (\<lambda>i. qbuf ?q ! (i mod ?n)) [qend q..<qend q + length xs] = xs"
    using new by (intro nth_equalityI) simp_all
  ultimately show "entries ?q = entries q @ xs" by simp
qed

lemma write_splice:
  assumes "fifo_ok q"
  shows "bindE (buf_write (loc_in_queue q (qend q)) x q) (\<lambda>q. f (q\<lparr>qend := qend q + 1\<rparr>))
    = f (buf_splice (qend q mod ring_size q) [x] q)"
proof -
  have "loc_in_queue q (qend q) = qend q mod ring_size q" using assms by (intro loc_mod) (simp add: fifo_ok_def)
  moreover have "qend q mod ring_size q < length (qbuf q)" using assms by (simp add: fifo_ok_def ring_size_pos)
  ultimately show ?thesis by (simp add: buf_write_def buf_splice_def upd_conv_take_nth_drop)
qed

lemma splice_one:
  assumes "fifo_ok q" "length (entries q) < ring_size q"
  shows "fifo_ok (buf_splice (qend q mod ring_size q) [x] q)"
    "entries (buf_splice (qend q mod ring_size q) [x] q) = entries q @ [x]"
  using splice_ok [OF assms(1) refl, of "[x]"] assms(2) ring_size_pos [of q] by (simp_all add: Suc_le_eq)

text \<open>What stays the same when entries are added.\<close>

definition same_ring :: "('a, 'z) fifo_queue_scheme \<Rightarrow> ('a, 'z) fifo_queue_scheme \<Rightarrow> bool" where
  "same_ring q q' \<longleftrightarrow> size_mask q' = size_mask q \<and> allocated q' = allocated q \<and> resizable q' = resizable q
     \<and> fifo_queue.more q' = fifo_queue.more q"

lemma splice_same: "same_ring q (buf_splice idx xs q)"
  by (simp add: same_ring_def buf_splice_def)

lemma same_ring_trans: "same_ring q q' \<Longrightarrow> same_ring q' q'' \<Longrightarrow> same_ring q q''"
  by (simp add: same_ring_def)

lemma same_ring_size: "same_ring q q' \<Longrightarrow> ring_size q' = ring_size q"
  by (simp add: same_ring_def ring_size_def)

lemma fifo_is_full_eq: "fifo_ok q \<Longrightarrow> fifo_is_full q = Inr (ring_size q \<le> length (entries q))"
  by (simp add: fifo_is_full_def fifo_get_size_def fifo_ok_def ring_size_def)

lemma add_ok:
  assumes "fifo_ok q"
  shows "\<exists>q'. fifo_add xs q = Inr (min (length xs) (ring_size q - length (entries q)), q') \<and> fifo_ok q'
    \<and> entries q' = entries q @ take (ring_size q - length (entries q)) xs \<and> same_ring q q'"
  using assms
proof (induction xs arbitrary: q)
  case Nil
  then show ?case by (simp add: fifo_is_full_eq same_ring_def)
next
  case (Cons x xs)
  let ?e = "entries q"
  show ?case
  proof (cases "ring_size q \<le> length ?e")
    case True
    with Cons.prems show ?thesis by (simp add: fifo_is_full_eq same_ring_def)
  next
    case False
    let ?q = "buf_splice (qend q mod ring_size q) [x] q"
    have s: "fifo_ok ?q" "entries ?q = ?e @ [x]" using splice_one [OF Cons.prems, of x] False by simp_all
    have n: "ring_size ?q = ring_size q" by (rule same_ring_size [OF splice_same])
    from Cons.IH [OF s(1)] obtain q' where
      q': "fifo_add xs ?q = Inr (min (length xs) (ring_size q - length ?e - 1), q')" "fifo_ok q'"
      "entries q' = ?e @ x # take (ring_size q - length ?e - 1) xs" "same_ring ?q q'"
      unfolding n s(2) by auto
    have "fifo_add (x # xs) q = bindE (fifo_add xs ?q) (\<lambda>(n, q). Inr (n + 1, q))"
      using False write_splice [OF Cons.prems, of x "\<lambda>q. bindE (fifo_add xs q) (\<lambda>(n, q). Inr (n + 1, q))"] Cons.prems
      by (simp add: fifo_is_full_eq)
    moreover have "take (ring_size q - length ?e) (x # xs) = x # take (ring_size q - length ?e - 1) xs"
      using False by (simp add: take_Cons' )
    moreover have "min (length xs) (ring_size q - length ?e - 1) + 1 = min (length (x # xs)) (ring_size q - length ?e)"
      using False by simp
    ultimately show ?thesis using q' same_ring_trans [OF splice_same q'(4)] by simp
  qed
qed

section \<open>Adding another queue\<close>

lemma get_num_remaining_eq: "fifo_ok q \<Longrightarrow> get_num_remaining q = Inr (ring_size q - length (entries q))"
  by (simp add: get_num_remaining_def fifo_get_size_def fifo_get_num_entries_def fifo_ok_def ring_size_def)

lemma fifo_get_size_eq: "fifo_ok q \<Longrightarrow> fifo_get_size q = Inr (ring_size q)"
  by (simp add: fifo_get_size_def fifo_ok_def ring_size_def)

text \<open>What is taken from the other queue: as much as there is room for.\<close>

definition taken :: "nat \<Rightarrow> ('a, 'y) fifo_queue_scheme \<Rightarrow> ('a, 'y) fifo_queue_scheme" where
  "taken n p = p\<lparr>qstart := qstart p + min n (length (entries p))\<rparr>"

lemma taken_readable: "readable p \<Longrightarrow> readable (taken n p)"
  unfolding taken_def by (rule fetch_ok(2))

lemma taken_entries: "readable p \<Longrightarrow> entries (taken n p) = drop n (entries p)"
  unfolding taken_def by (rule fetch_ok(3))

lemma fetch_taken: "readable p \<Longrightarrow> fifo_fetch n p = Inr (take n (entries p), taken n p)"
  unfolding taken_def by (rule fetch_ok(1))

lemma taken_taken:
  assumes "readable p"
  shows "taken m (taken n p) = taken (n + m) p"
proof -
  have "length (entries (taken n p)) = length (entries p) - n" using taken_entries [OF assms] by simp
  then show ?thesis unfolding taken_def [of m] by (simp add: taken_def min_def)
qed

lemma mod_ring_end:
  fixes e n :: nat
  assumes "0 < n"
  shows "(e + (n - e mod n)) mod n = 0"
proof -
  have "e mod n < n" using assms by simp
  then have "e + (n - e mod n) = n + e div n * n" using div_mult_mod_eq [of e n] by linarith
  then show ?thesis by (simp only: mod_mult_self1 mod_self)
qed

lemma add_queue_ok:
  assumes ok: "fifo_ok q" and p: "readable p" and k: "k = ring_size q - length (entries q)"
  shows "\<exists>q'. fifo_add_queue p q = Inr (min k (length (entries p)), taken k p, q') \<and> fifo_ok q'
    \<and> entries q' = entries q @ take k (entries p) \<and> same_ring q q'"
proof -
  let ?n = "ring_size q" and ?e = "entries p"
  define idx where "idx = qend q mod ?n"
  define len where "len = min (?n - idx) k"
  let ?xs = "take len ?e" let ?q1 = "buf_splice idx ?xs q"
  have le: "length (entries q) \<le> ?n" using ok by (simp add: fifo_ok_def)
  have idx: "idx < ?n" using ring_size_pos [of q] by (simp add: idx_def)
  have room: "idx + length ?xs \<le> ?n" "length (entries q) + length ?xs \<le> ?n"
    using idx le by (auto simp: len_def k min_def)
  have loc: "loc_in_queue r x = x mod ring_size r" if "fifo_ok r" for r :: "('a, 'b) fifo_queue_scheme" and x
    using that by (intro loc_mod) (simp add: fifo_ok_def)
  have q1: "fifo_ok ?q1" "entries ?q1 = entries q @ ?xs" using splice_ok [OF ok idx_def room] by simp_all
  have n1: "ring_size ?q1 = ?n" by (rule same_ring_size [OF splice_same])
  have rem: "get_num_remaining ?q1 = Inr (k - length ?xs)"
    using get_num_remaining_eq [OF q1(1)] unfolding n1 q1(2) by (simp add: k)
  have step: "fifo_add_queue p q = (if length ?xs < len \<or> k - length ?xs = 0 then Inr (length ?xs, taken len p, ?q1)
      else bindE (guardE (loc_in_queue ?q1 (qend ?q1) = 0) assert_failure) (\<lambda>_.
           bindE (fifo_fetch (k - length ?xs) (taken len p)) (\<lambda>(ys, queue).
           Inr (length ?xs + length ys, queue, buf_splice 0 ys ?q1))))"
    unfolding fifo_add_queue_def Let_def fifo_get_size_eq [OF ok] get_num_remaining_eq [OF ok] loc [OF ok, of "qend q"]
      k [symmetric] idx_def [symmetric] bindE_simps len_def [symmetric] fetch_taken [OF p, of len] prod.case rem ..
  show ?thesis
  proof (cases "length ?xs < len \<or> k - length ?xs = 0")
    case True
    have "len \<le> k" by (simp add: len_def)
    moreover from True have "length ?e < len \<or> k \<le> len" by (simp only: length_take) linarith
    ultimately consider "length ?e \<le> len" "length ?e \<le> k" | "len = k" by linarith
    then have eq: "take k ?e = ?xs" "min k (length ?e) = length ?xs" "taken k p = taken len p"
      by (cases; simp add: taken_def min_absorb1 min_absorb2 min.commute del: length_entries)+
    have "fifo_add_queue p q = Inr (min k (length ?e), taken k p, ?q1)" using step True unfolding eq by simp
    then show ?thesis using q1 splice_same [of q idx ?xs] eq(1) by auto
  next
    case False
    then have "length ?xs = len" by (simp only: length_take) linarith
    moreover from this False have "len < k" by linarith
    moreover from this have "len = ?n - idx" by (simp add: len_def min_def split: if_splits)
    ultimately have len: "length ?xs = len" "len < k" "len = ?n - idx" by blast+
    let ?ys = "take (k - len) (drop len ?e)" let ?q2 = "buf_splice 0 ?ys ?q1"
    have "qend ?q1 = qend q + (?n - idx)" using len(1,3) by (simp add: buf_splice_def)
    then have z: "qend ?q1 mod ?n = 0" using mod_ring_end [OF ring_size_pos, of "qend q" q] by (simp add: idx_def)
    have ly: "length ?ys \<le> k - len" "len \<le> length ?e" using len(1) by (simp_all del: length_entries)
    have fe: "fifo_fetch (k - len) (taken len p) = Inr (?ys, taken k p)"
      using fetch_taken [OF taken_readable [OF p], of "k - len" len] taken_taken [OF p, of "k - len" len] len(2)
      by (simp add: taken_entries [OF p])
    have lq: "loc_in_queue ?q1 (qend ?q1) = 0" using loc [OF q1(1), of "qend ?q1"] z n1 by metis
    have "fifo_add_queue p q = Inr (len + length ?ys, taken k p, ?q2)"
      using step len(2) unfolding len(1) lq fe by simp
    moreover have "fifo_ok ?q2" "entries ?q2 = entries ?q1 @ ?ys"
    proof -
      have "length (entries ?q1) = length (entries q) + len" unfolding q1(2) length_append len(1) ..
      then have "0 + length ?ys \<le> ring_size ?q1" "length (entries ?q1) + length ?ys \<le> ring_size ?q1"
        unfolding n1 using ly(1) le len(2) k by linarith+
      from splice_ok [OF q1(1) _ this] show "fifo_ok ?q2" "entries ?q2 = entries ?q1 @ ?ys" using z n1 by simp_all
    qed
    moreover have "same_ring q ?q2" by (rule same_ring_trans [OF splice_same splice_same])
    moreover have "?xs @ ?ys = take k ?e" using len(2) by (metis le_add_diff_inverse less_imp_le take_add)
    moreover have "len + length ?ys = min k (length ?e)"
      unfolding length_take length_drop using ly(2) len(2) by linarith
    ultimately show ?thesis using q1(2) by (intro exI [of _ ?q2]) simp
  qed
qed

section \<open>Growing\<close>

lemma ceil_log2_le: "n \<le> 2 ^ ceil_log2 n"
proof (induction n rule: ceil_log2.induct)
  case (1 n)
  show ?case
  proof (cases "n \<le> 1")
    case False
    have "n \<le> 2 * ((n + 1) div 2)" by simp
    also have "\<dots> \<le> 2 * 2 ^ ceil_log2 ((n + 1) div 2)" using 1 [OF False] by simp
    finally show ?thesis using False by (simp add: ceil_log2.simps [of n])
  qed (simp add: ceil_log2.simps [of n])
qed

lemma ceil_log2_least: "n \<le> 2 ^ i \<Longrightarrow> ceil_log2 n \<le> i"
proof (induction n arbitrary: i rule: ceil_log2.induct)
  case (1 n)
  show ?case
  proof (cases "n \<le> 1")
    case False
    with "1.prems" obtain k where k: "i = Suc k" by (cases i) auto
    have "(n + 1) div 2 \<le> 2 ^ k" using "1.prems" by (simp add: k)
    from "1.IH" [OF False this] show ?thesis using False by (simp add: ceil_log2.simps [of n] k)
  qed (simp add: ceil_log2.simps [of n])
qed

lemma ceil_log2_power [simp]: "ceil_log2 (2 ^ j) = j"
proof (rule antisym)
  show "j \<le> ceil_log2 (2 ^ j)"
    using ceil_log2_le [of "2 ^ j"] by (simp add: power_increasing_iff)
qed (simp add: ceil_log2_least)

lemma copy_entries_ok:
  assumes "fifo_ok q" "i + n = length (entries q)"
  shows "copy_entries q i n = Inr (drop i (entries q))"
  using assms(2)
proof (induction n arbitrary: i)
  case (Suc n)
  let ?m = "(qstart q + i) mod ring_size q"
  have "loc_in_queue q (qstart q + i) = ?m" using assms(1) by (intro loc_mod) (simp add: fifo_ok_def)
  moreover have "?m < length (qbuf q)" using assms(1) ring_size_pos [of q] by (simp add: fifo_ok_def)
  moreover have i: "i < length (entries q)" using Suc.prems by simp
  then have "entries q ! i = qbuf q ! ?m" by (simp add: entries_def)
  moreover have "copy_entries q (i + 1) n = Inr (drop (i + 1) (entries q))" using Suc.prems by (intro Suc.IH) simp
  ultimately show ?case using Cons_nth_drop_Suc [OF i] by simp
qed simp

definition same_queue :: "('a, 'z) fifo_queue_scheme \<Rightarrow> ('a, 'z) fifo_queue_scheme \<Rightarrow> bool" where
  "same_queue q q' \<longleftrightarrow> allocated q' = allocated q \<and> resizable q' = resizable q \<and> fifo_queue.more q' = fifo_queue.more q"

lemma same_ring_queue: "same_ring q q' \<Longrightarrow> same_queue q q'"
  by (simp add: same_ring_def same_queue_def)

lemma same_queue_trans: "same_queue q q' \<Longrightarrow> same_queue q' q'' \<Longrightarrow> same_queue q q''"
  by (simp add: same_queue_def)

lemma expand_ok:
  assumes ok: "fifo_ok q" "resizable q" and sz: "0 < sz" "ceil_log2 sz < 31" "ring_size q < 2 ^ ceil_log2 sz"
  shows "\<exists>q'. expand_queue g sz q = Inr q' \<and> fifo_ok q' \<and> entries q' = entries q
    \<and> ring_size q' = 2 ^ ceil_log2 sz \<and> same_queue q q'"
proof -
  let ?n = "2 ^ ceil_log2 sz :: nat" and ?e = "entries q"
  let ?q = "q\<lparr>qbuf := ?e @ replicate (?n - length ?e) g, size_mask := ?n - 1, qstart := 0, qend := length ?e\<rparr>"
  have le: "length ?e \<le> ring_size q" using ok by (simp add: fifo_ok_def)
  have "copy_entries q 0 (length ?e) = Inr ?e" using copy_entries_ok [OF ok(1), of 0] by simp
  then have "expand_queue g sz q = Inr ?q"
    using assms fifo_get_size_eq [OF ok(1)] by (simp add: expand_queue_def Let_def fifo_get_num_entries_def)
  moreover have n: "ring_size ?q = ?n" by (simp add: ring_size_def)
  have "fifo_ok ?q"
    unfolding fifo_ok_def n using ok(1) le sz(3) by (auto simp: fifo_ok_def)
  moreover have "entries ?q = ?e"
  proof (rule nth_equalityI)
    fix i assume "i < length (entries ?q)"
    then have i: "i < length ?e" by simp
    then have "i mod ?n = i" using le sz(3) by simp
    then show "entries ?q ! i = ?e ! i" using i unfolding entries_def [of ?q] n by (simp add: nth_append)
  qed simp
  ultimately show ?thesis using n by (intro exI [of _ ?q]) (simp add: same_queue_def)
qed

lemma double_until_power:
  assumes "s = 2 ^ j" "s < r" "s < m"
  shows "\<exists>i. double_until r m s = 2 ^ i \<and> j < i \<and> i \<le> ceil_log2 m \<and> (r \<le> 2 ^ i \<longleftrightarrow> r \<le> 2 ^ ceil_log2 m)"
  using assms
proof (induction "m - s" arbitrary: s j rule: less_induct)
  case less
  let ?s = "s * 2"
  have step: "double_until r m s = double_until r m ?s" using less.prems(2,3) less.prems(1) [THEN arg_cong, of "\<lambda>x. 0 < x"]
    by (subst double_until.simps) simp
  have s: "?s = 2 ^ Suc j" using less.prems(1) by simp
  have "2 ^ j < (2 :: nat) ^ ceil_log2 m" using less.prems(1,3) ceil_log2_le [of m] by linarith
  then have jc: "Suc j \<le> ceil_log2 m" by (simp add: Suc_le_eq)
  show ?case
  proof (cases "?s < r \<and> ?s < m")
    case True
    have "0 < s" using less.prems(1) by simp
    then have "m - ?s < m - s" using True by linarith
    from less.hyps [OF this s] True step show ?thesis by auto
  next
    case False
    then have "double_until r m ?s = ?s" by (subst double_until.simps) auto
    then have d: "double_until r m s = 2 ^ Suc j" unfolding step s .
    have "r \<le> 2 ^ Suc j \<longleftrightarrow> r \<le> 2 ^ ceil_log2 m"
    proof (cases "r \<le> ?s")
      case True
      moreover have "(2 :: nat) ^ Suc j \<le> 2 ^ ceil_log2 m" using jc by (rule power_increasing) simp
      ultimately show ?thesis using s by linarith
    next
      case rs: False
      with False have "m \<le> 2 ^ Suc j" using s by linarith
      then have "ceil_log2 m = Suc j" using ceil_log2_least [of m "Suc j"] jc by simp
      then show ?thesis by simp
    qed
    with d jc show ?thesis by (intro exI [of _ "Suc j"]) simp
  qed
qed

section \<open>A queue as a bounded list\<close>

text \<open>The operations of a queue, what they return, and what they do to a list of bounded length.\<close>

datatype 'a ring_op = Push 'a | Pop | Fetch nat | Add "'a list"
datatype 'a ring_out = Pushed | Popped 'a | Fetched "'a list" | Added nat

primrec ring_step ::
  "'a ring_op \<Rightarrow> ('a, 'z) fifo_queue_scheme \<Rightarrow> ('a ring_out \<times> ('a, 'z) fifo_queue_scheme) result" where
  "ring_step (Push x) q = bindE (fifo_push_back x q) (\<lambda>q. Inr (Pushed, q))"
| "ring_step Pop q = bindE (fifo_pop_front q) (\<lambda>(x, q). Inr (Popped x, q))"
| "ring_step (Fetch n) q = bindE (fifo_fetch n q) (\<lambda>(xs, q). Inr (Fetched xs, q))"
| "ring_step (Add xs) q = bindE (fifo_add xs q) (\<lambda>(n, q). Inr (Added n, q))"

primrec list_step :: "nat \<Rightarrow> 'a ring_op \<Rightarrow> 'a list \<Rightarrow> ('a ring_out \<times> 'a list) result" where
  "list_step cap (Push x) xs = (if length xs < cap then Inr (Pushed, xs @ [x]) else Inl assert_failure)"
| "list_step cap Pop xs = (case xs of [] \<Rightarrow> Inl assert_failure | x # xs \<Rightarrow> Inr (Popped x, xs))"
| "list_step cap (Fetch n) xs = Inr (Fetched (take n xs), drop n xs)"
| "list_step cap (Add ys) xs = Inr (Added (min (length ys) (cap - length xs)), xs @ take (cap - length xs) ys)"

fun run_ops :: "('o \<Rightarrow> 's \<Rightarrow> ('r \<times> 's) result) \<Rightarrow> 'o list \<Rightarrow> 's \<Rightarrow> ('r list \<times> 's) result" where
  "run_ops step [] s = Inr ([], s)"
| "run_ops step (op # ops) s =
     bindE (step op s) (\<lambda>(r, s). bindE (run_ops step ops s) (\<lambda>(rs, s). Inr (r # rs, s)))"

text \<open>One step that agrees with the specification, and then any number of them.\<close>

locale step_refinement =
  fixes step :: "'o \<Rightarrow> 's \<Rightarrow> ('r \<times> 's) result" and spec :: "'o \<Rightarrow> 'a \<Rightarrow> ('r \<times> 'a) result"
    and abs :: "'s \<Rightarrow> 'a" and inv :: "'s \<Rightarrow> bool"
  assumes step_spec: "inv s \<Longrightarrow> map_sum id (map_prod id abs) (step op s) = spec op (abs s)"
    and step_inv: "inv s \<Longrightarrow> step op s = Inr (r, s') \<Longrightarrow> inv s'"
begin

lemma run_inv: "inv s \<Longrightarrow> run_ops step ops s = Inr (rs, s') \<Longrightarrow> inv s'"
  by (induction ops arbitrary: s rs) (auto simp: res_simps dest: step_inv)

lemma run_spec: "inv s \<Longrightarrow> map_sum id (map_prod id abs) (run_ops step ops s) = run_ops spec ops (abs s)"
proof (induction ops arbitrary: s)
  case (Cons op ops)
  note st = step_spec [OF Cons.prems, of op]
  show ?case
  proof (cases "step op s")
    case (Inl e)
    then have "spec op (abs s) = Inl e" using st by simp
    with Inl show ?thesis by simp
  next
    case (Inr rs)
    then obtain r s' where s': "step op s = Inr (r, s')" by (cases rs) simp
    then have sp: "spec op (abs s) = Inr (r, abs s')" using st by simp
    have "map_sum id (map_prod id abs) (run_ops step ops s') = run_ops spec ops (abs s')"
      using step_inv [OF Cons.prems s'] by (rule Cons.IH)
    then show ?thesis using s' sp by (cases "run_ops step ops s'"; cases "run_ops spec ops (abs s')") auto
  qed
qed simp

end

definition ring_inv :: "nat \<Rightarrow> ('a, 'z) fifo_queue_scheme \<Rightarrow> bool" where
  "ring_inv cap q \<longleftrightarrow> fifo_ok q \<and> ring_size q = cap"

lemma push_back_eq:
  assumes "fifo_ok q"
  shows "fifo_push_back x q = (if length (entries q) < ring_size q then Inr (buf_splice (qend q mod ring_size q) [x] q)
    else Inl assert_failure)"
  using write_splice [OF assms, of x Inr] fifo_get_size_eq [OF assms] by (simp add: fifo_push_back_def)

lemma pop_front_eq:
  assumes "fifo_ok q"
  shows "fifo_pop_front q = (if entries q = [] then Inl assert_failure else Inr (hd (entries q), taken 1 q))"
proof (cases "entries q = []")
  case False
  then have lt: "qstart q < qend q" by (simp add: entries_Nil_iff fifo_is_empty_def)
  have "\<not> fifo_is_empty q" using False by (simp add: entries_Nil_iff)
  from read_front(1) [OF fifo_ok_readable [OF assms] this] lt show ?thesis
    using False by (simp add: fifo_pop_front_def taken_def Suc_le_eq min_def)
qed (simp add: entries_Nil_iff fifo_is_empty_def fifo_pop_front_def)

lemma taken_ok: "fifo_ok q \<Longrightarrow> fifo_ok (taken n q)" "ring_size (taken n q) = ring_size q"
  by (auto simp: fifo_ok_def taken_def ring_size_def)

interpretation ring: step_refinement ring_step "list_step cap" entries "ring_inv cap" for cap
proof
  fix q :: "('a, 'b) fifo_queue_scheme" and op
  assume "ring_inv cap q"
  then have ok: "fifo_ok q" and n: "ring_size q = cap" by (simp_all add: ring_inv_def)
  note fetch = fetch_taken [OF fifo_ok_readable [OF ok]] and te = taken_entries [OF fifo_ok_readable [OF ok]]
  show "map_sum id (map_prod id entries) (ring_step op q) = list_step cap op (entries q)"
  proof (cases op)
    case (Push x)
    then show ?thesis using push_back_eq [OF ok, of x] splice_one [OF ok, of x] n by auto
  next
    case Pop
    then show ?thesis using pop_front_eq [OF ok] te [of 1] by (auto split: list.splits)
  next
    case (Fetch k)
    then show ?thesis using fetch te by simp
  next
    case (Add xs)
    then show ?thesis using add_ok [OF ok, of xs] n by auto
  qed
next
  fix q :: "('a, 'b) fifo_queue_scheme" and op r q'
  assume "ring_inv cap q" and s: "ring_step op q = Inr (r, q')"
  then have ok: "fifo_ok q" and n: "ring_size q = cap" by (simp_all add: ring_inv_def)
  note fetch = fetch_taken [OF fifo_ok_readable [OF ok]]
  show "ring_inv cap q'"
  proof (cases op)
    case (Push x)
    then show ?thesis
      using s push_back_eq [OF ok, of x] splice_one [OF ok, of x] n same_ring_size [OF splice_same]
      by (auto simp: ring_inv_def split: if_splits)
  next
    case Pop
    then show ?thesis using s pop_front_eq [OF ok] taken_ok(1) [OF ok] taken_ok(2) [of _ q] n by (auto simp: ring_inv_def split: if_splits)
  next
    case (Fetch k)
    then show ?thesis using s fetch taken_ok(1) [OF ok] taken_ok(2) [of _ q] n by (auto simp: ring_inv_def)
  next
    case (Add xs)
    then show ?thesis using s add_ok [OF ok, of xs] n by (auto simp: ring_inv_def dest: same_ring_size)
  qed
qed

section \<open>Properties\<close>

lemma fifo_queue_new_ok:
  assumes "0 < sz" "ceil_log2 sz < 31"
  shows "\<exists>q. fifo_queue_new g sz r = Inr q \<and> ring_inv (2 ^ ceil_log2 sz) q \<and> entries q = [] \<and> resizable q = r"
proof -
  let ?n = "2 ^ ceil_log2 sz :: nat"
  let ?q = "\<lparr>size_mask = ?n - 1, qbuf = replicate ?n g, allocated = True, qstart = 0, qend = 0, resizable = r\<rparr>"
  have "fifo_queue_new g sz r = Inr ?q" using assms by (simp add: fifo_queue_new_def Let_def)
  moreover have "ring_size ?q = ?n" by (simp add: ring_size_def)
  moreover from this have "fifo_ok ?q" unfolding fifo_ok_def by (simp, blast)
  ultimately show ?thesis by (simp add: ring_inv_def entries_def)
qed

text \<open>
  C5. The circular queue is a list of bounded length: whatever operations a client performs on
  a new queue, they return the same values, and fail at the same point with the same error, as
  on a list whose capacity is the requested size rounded up to a power of two.
\<close>

theorem fifo_queue_refines_list:
  assumes "0 < sz" "ceil_log2 sz < 31"
  shows "\<exists>q. fifo_queue_new g sz r = Inr q
    \<and> map_sum id (map_prod id entries) (run_ops ring_step ops q) = run_ops (list_step (2 ^ ceil_log2 sz)) ops []"
proof -
  from fifo_queue_new_ok [OF assms, of g r] obtain q where
    q: "fifo_queue_new g sz r = Inr q" "ring_inv (2 ^ ceil_log2 sz) q" "entries q = []" by blast
  from ring.run_spec [OF q(2), of ops] show ?thesis unfolding q(3) using q(1) by blast
qed

theorem fifo_queue_refines_list_witness:
  "\<exists>q outs q'. fifo_queue_new (0 :: nat) 3 False = Inr q
    \<and> run_ops ring_step [Push 1, Push 2, Fetch 1, Add [3, 4, 5, 6], Pop] q = Inr (outs, q')
    \<and> outs = [Pushed, Pushed, Fetched [1], Added 3, Popped 2] \<and> entries q' = [3, 4, 5]"
proof -
  let ?ops = "[Push 1, Push 2, Fetch 1, Add [3, 4, 5, 6], Pop] :: nat ring_op list"
  have l: "ceil_log2 3 = 2" by code_simp
  obtain q where q: "fifo_queue_new (0 :: nat) 3 False = Inr q"
    "map_sum id (map_prod id entries) (run_ops ring_step ?ops q) = run_ops (list_step (2 ^ ceil_log2 3)) ?ops []"
    using fifo_queue_refines_list [of 3 0 False ?ops] l by auto
  have "run_ops (list_step (2 ^ ceil_log2 3)) ?ops [] = Inr ([Pushed, Pushed, Fetched [1], Added 3, Popped 2], [3, 4, 5])"
    by (simp add: l)
  with q show ?thesis by (cases "run_ops ring_step ?ops q") auto
qed



lemma fifo_ok_power: "fifo_ok q \<Longrightarrow> \<exists>j. ring_size q = 2 ^ j"
  by (auto simp: fifo_ok_def ring_size_def)

lemma same_queue_max: "same_queue q q' \<Longrightarrow> ts_max_size q' = ts_max_size q" "same_queue q q' \<Longrightarrow> resizable q' = resizable q"
  for q :: "'a thread_safe_FIFO_queue"
  by (cases q; cases q'; simp add: same_queue_def)+


definition demo_ts_queue :: "nat thread_safe_FIFO_queue" where
  "demo_ts_queue = \<lparr>size_mask = 1, qbuf = [0, 0], allocated = True, qstart = 1, qend = 2, resizable = True,
     ts_max_size = 3, ts_name = ''q''\<rparr>"


section \<open>The blocking queue without blocking\<close>

lemma bq_grow_ok:
  fixes q :: "'a blocking_FIFO_queue"
  assumes ok: "fifo_ok q" and rs: "ring_size q < bq_max_size q \<longrightarrow> resizable q" and mx: "bq_max_size q \<le> 2 ^ 30"
  shows "\<exists>q'. bq_grow g num q = Inr q' \<and> fifo_ok q' \<and> entries q' = entries q \<and> bq_max_size q' = bq_max_size q
    \<and> (length (entries q) + num \<le> ring_size q' \<or> bq_max_size q \<le> ring_size q')"
proof (cases "ring_size q - length (entries q) < num \<and> ring_size q < bq_max_size q")
  case False
  moreover have "length (entries q) \<le> ring_size q" using ok by (simp add: fifo_ok_def)
  ultimately have "length (entries q) + num \<le> ring_size q \<or> bq_max_size q \<le> ring_size q" by linarith
  with False show ?thesis using ok fifo_get_size_eq [OF ok]
    by (intro exI [of _ q]) (auto simp: bq_grow_def fifo_get_num_entries_def)
next
  case True
  let ?new = "min (max (ring_size q * 2) (length (entries q) + num)) (bq_max_size q)"
  have new: "ring_size q < ?new" "?new \<le> 2 ^ 30" using True mx ring_size_pos [of q] by auto
  have pos: "0 < ?new" using new(1) by linarith
  have "ceil_log2 ?new < 31" using ceil_log2_least [OF new(2)] by simp
  moreover have lt: "ring_size q < 2 ^ ceil_log2 ?new" "?new \<le> 2 ^ ceil_log2 ?new" using new(1) ceil_log2_le [of ?new] by linarith+
  ultimately obtain q' where q': "expand_queue g ?new q = Inr q'" "fifo_ok q'" "entries q' = entries q"
    "ring_size q' = 2 ^ ceil_log2 ?new" "same_queue q q'" using expand_ok [OF ok, of ?new g] True rs pos by blast
  have "bq_max_size q' = bq_max_size q" using q'(5) by (cases q; cases q'; simp add: same_queue_def)
  moreover have "bq_grow g num q = Inr q'"
    using True q'(1) fifo_get_size_eq [OF ok] by (simp add: bq_grow_def fifo_get_num_entries_def)
  moreover have "length (entries q) + num \<le> ring_size q' \<or> bq_max_size q \<le> ring_size q'"
    using lt(2) unfolding q'(4) by linarith
  ultimately show ?thesis using q'(2,3) by blast
qed


definition demo_bq_queue :: "nat blocking_FIFO_queue" where
  "demo_bq_queue = \<lparr>size_mask = 1, qbuf = [0, 5], allocated = True, qstart = 1, qend = 2, resizable = False,
     num_empty = 0, num_full = 0, bq_max_size = 2, interrupted = False, bq_name = ''q''\<rparr>"


end
