(* ===== verification/Safs_Common.thy ===== *)
theory Safs_Common
  imports Monya_Prelude
begin

text \<open>
  The helpers of \<^verbatim>\<open>src/SAFS/libsafs/common.h\<close>, \<^verbatim>\<open>common_c.h\<close> and \<^verbatim>\<open>common.cpp\<close> that compute: rounding,
  numbers as text and back, powers of two, and splitting of strings. The functions of the C library
  they call are written out for the plain locale; a number that does not fit a \<^verbatim>\<open>long\<close> is
  undefined behaviour there.
\<close>

unbundle bit_operations_syntax

section \<open>Rounding and powers of two\<close>

text \<open>\<^verbatim>\<open>ROUNDUP(off, base)\<close> for a base that is a power of two, as the bit mask computes it.\<close>

definition ROUNDUP :: "nat \<Rightarrow> nat \<Rightarrow> nat" where
  "ROUNDUP off base = nat (((int off + int base) - 1) AND (NOT (int base - 1)))"

fun halves :: "nat \<Rightarrow> bool" where
  "halves alignment =
     (if alignment \<le> 1 then True else if alignment mod 2 \<noteq> 0 then False else halves (alignment div 2))"

declare halves.simps [simp del]

definition align_check :: "nat \<Rightarrow> bool" where
  "align_check alignment = (if alignment = 0 \<or> alignment = 1 then False else halves alignment)"

section \<open>Numbers as text\<close>

definition isspace :: "char \<Rightarrow> bool" where
  "isspace c \<longleftrightarrow> c \<in> {CHR '' '', CHR 0x09, CHR 0x0A, CHR 0x0B, CHR 0x0C, CHR 0x0D}"

definition isdigit :: "char \<Rightarrow> bool" where
  "isdigit c \<longleftrightarrow> 48 \<le> (of_char c :: nat) \<and> (of_char c :: nat) \<le> 57"

text \<open>What \<^verbatim>\<open>c_str\<close> or a C function sees of a string: the characters in front of the first zero.\<close>

definition c_str :: "string \<Rightarrow> string" where
  "c_str s = takeWhile (\<lambda>c. c \<noteq> CHR 0x00) s"

definition isnumeric :: "string \<Rightarrow> bool" where
  "isnumeric str = list_all isdigit (c_str str)"

text \<open>\<^verbatim>\<open>itoa\<close> of a number that is not negative.\<close>

fun itoa :: "nat \<Rightarrow> string" where
  "itoa n = (if n < 10 then [char_of (48 + n)] else itoa (n div 10) @ [char_of (48 + n mod 10)])"

declare itoa.simps [simp del]

fun digits_val :: "string \<Rightarrow> int \<Rightarrow> int" where
  "digits_val [] acc = acc"
| "digits_val (c # cs) acc = (if isdigit c then digits_val cs (acc * 10 + (of_char c - 48)) else acc)"

definition long_result :: "int \<Rightarrow> int result" where
  "long_result x = (if - (2 ^ 63) \<le> x \<and> x < 2 ^ 63 then Inr x else Inl undefined_behaviour)"

definition atol :: "string \<Rightarrow> int result" where
  "atol s =
     (case dropWhile isspace (c_str s) of
        [] \<Rightarrow> Inr 0
      | c # cs \<Rightarrow>
          if c = CHR ''-'' then long_result (- digits_val cs 0)
          else if c = CHR ''+'' then long_result (digits_val cs 0)
          else long_result (digits_val (c # cs) 0))"

definition str2size :: "string \<Rightarrow> int result" where
  "str2size str =
     (if str = [] then Inl undefined_behaviour
      else let c = last str; cut = butlast str @ [CHR 0x00];
               (multiply, str) =
                 (if c = CHR ''M'' \<or> c = CHR ''m'' then (1024 * 1024, cut)
                  else if c = CHR ''K'' \<or> c = CHR ''k'' then (1024, cut)
                  else if c = CHR ''G'' \<or> c = CHR ''g'' then (1024 * 1024 * 1024, cut)
                  else (1, str))
           in bindE (atol str) (\<lambda>n. long_result (n * multiply)))"

section \<open>Splitting strings\<close>

text \<open>\<^verbatim>\<open>std::getline\<close> until it fails: no item follows a delimiter at the end.\<close>

function split_string :: "char \<Rightarrow> string \<Rightarrow> string list" where
  "split_string delim str =
     (if str = [] then []
      else takeWhile (\<lambda>c. c \<noteq> delim) str # split_string delim (drop 1 (dropWhile (\<lambda>c. c \<noteq> delim) str)))"
  by auto
termination
proof (relation "measure (\<lambda>(d, s). length s)")
  fix delim :: char and str :: string assume "str \<noteq> []"
  then have "length (drop 1 (dropWhile (\<lambda>c. c \<noteq> delim) str)) < length str"
    using length_dropWhile_le [of "\<lambda>c. c \<noteq> delim" str] by (cases str) (auto simp: le_imp_less_Suc split: if_splits)
  then show "((delim, drop 1 (dropWhile (\<lambda>c. c \<noteq> delim) str)), delim, str) \<in> measure (\<lambda>(d, s). length s)" by simp
qed simp

declare split_string.simps [simp del]

section \<open>Correctness\<close>

lemma ROUNDUP_div: "ROUNDUP n (2 ^ k) = (n + 2 ^ k - 1) div 2 ^ k * 2 ^ k"
proof -
  have "x AND NOT (2 ^ k - 1) = x div 2 ^ k * 2 ^ k" for x :: int
  proof -
    have "x AND NOT (2 ^ k - 1) = push_bit k (drop_bit k x)"
      unfolding mask_eq_exp_minus_1 [symmetric] by (rule bit_eqI) (auto simp: bit_simps)
    then show ?thesis by (simp add: push_bit_eq_mult drop_bit_eq_div)
  qed
  moreover have "1 \<le> n + 2 ^ k" by (simp add: Suc_le_eq)
  then have e: "int n + int (2 ^ k) - 1 = int (n + 2 ^ k - 1)" by (simp only: of_nat_diff of_nat_add of_nat_1)
  ultimately have "(int n + int (2 ^ k) - 1) AND NOT (int (2 ^ k) - 1) = int ((n + 2 ^ k - 1) div 2 ^ k * 2 ^ k)"
    unfolding e by (simp add: zdiv_int)
  then show ?thesis unfolding ROUNDUP_def by (simp only: nat_int)
qed

lemma ROUNDUP_least:
  "n \<le> ROUNDUP n (2 ^ k)" "ROUNDUP n (2 ^ k) < n + 2 ^ k" "2 ^ k dvd ROUNDUP n (2 ^ k)"
proof -
  have "(n + 2 ^ k - 1) div 2 ^ k * 2 ^ k + (n + 2 ^ k - 1) mod 2 ^ k = n + 2 ^ k - 1" by (rule div_mult_mod_eq)
  moreover have "(n + 2 ^ k - 1) mod 2 ^ k < 2 ^ k" "0 < (2 :: nat) ^ k" by simp_all
  ultimately show "n \<le> ROUNDUP n (2 ^ k)" "ROUNDUP n (2 ^ k) < n + 2 ^ k" unfolding ROUNDUP_div by linarith+
  show "2 ^ k dvd ROUNDUP n (2 ^ k)" unfolding ROUNDUP_div by simp
qed

lemma halves_power: "0 < n \<Longrightarrow> halves n \<longleftrightarrow> (\<exists>k. n = 2 ^ k)"
proof (induction n rule: halves.induct)
  case (1 n)
  consider "n = 1" | "1 < n" "odd n" | "1 < n" "even n" using 1(2) by linarith
  then show ?case
  proof cases
    case 1
    then show ?thesis by (subst halves.simps) (auto intro: exI [of _ 0])
  next
    case 2
    then have "n \<noteq> 2 ^ k" for k by (cases k) auto
    with 2 show ?thesis by (subst halves.simps) (auto simp: odd_iff_mod_2_eq_one)
  next
    case 3
    then have n: "n = 2 * (n div 2)" "0 < n div 2" by auto
    have "(\<exists>k. n = 2 ^ k) \<longleftrightarrow> (\<exists>k. n div 2 = 2 ^ k)"
    proof
      assume "\<exists>k. n = 2 ^ k"
      then obtain k where "n = 2 ^ k" by blast
      with 3(1) show "\<exists>k. n div 2 = 2 ^ k" by (cases k) auto
    next
      assume "\<exists>k. n div 2 = 2 ^ k"
      then obtain k where "n div 2 = 2 ^ k" by blast
      with n(1) have "n = 2 ^ Suc k" by simp
      then show "\<exists>k. n = 2 ^ k" by blast
    qed
    moreover have "halves n = halves (n div 2)" using 3 by (subst halves.simps) auto
    ultimately show ?thesis using 1(1) 3 n(2) by auto
  qed
qed

lemma align_check_power: "align_check n \<longleftrightarrow> (\<exists>k > 0. n = 2 ^ k)"
proof (cases "n \<le> 1")
  case True
  then have "n \<noteq> 2 ^ k" if "0 < k" for k using one_less_power [of "2 :: nat" k] that by auto
  with True show ?thesis by (auto simp: align_check_def)
next
  case False
  then have "(\<exists>k > 0. n = 2 ^ k) \<longleftrightarrow> (\<exists>k. n = 2 ^ k)" by (metis gr0I power_0 le_refl)
  with False halves_power [of n] show ?thesis by (auto simp: align_check_def)
qed

lemma digit_char:
  assumes "n < 10"
  shows "isdigit (char_of (48 + n))" "of_char (char_of (48 + n)) = (48 + int n)"
proof -
  have e: "of_char (char_of (48 + n) :: char) = 48 + n" using assms by (simp add: of_char_of)
  then show "isdigit (char_of (48 + n))" using assms by (simp add: isdigit_def)
  show "of_char (char_of (48 + n)) = (48 + int n)"
    using arg_cong [OF e, of int] unfolding of_nat_of_char by simp
qed

lemma isdigit_plain:
  assumes "isdigit c"
  shows "c \<noteq> CHR 0x00" "\<not> isspace c" "c \<noteq> CHR ''-''" "c \<noteq> CHR ''+''"
  using assms by (auto simp: isdigit_def isspace_def)

lemma itoa_digits: "list_all isdigit (itoa n) \<and> itoa n \<noteq> []"
  by (induction n rule: itoa.induct) (subst (1 2) itoa.simps, simp add: digit_char(1))

lemma digits_itoa: "digits_val (itoa n @ cs) acc = digits_val cs (acc * 10 ^ length (itoa n) + int n)"
proof (induction n arbitrary: cs acc rule: itoa.induct)
  case (1 n)
  show ?case
  proof (cases "n < 10")
    case True
    then show ?thesis using digit_char [OF True] by (simp add: itoa.simps [of n])
  next
    case False
    have d: "n mod 10 < 10" by simp
    have e: "int (n div 10) * 10 + int (n mod 10) = int n" by (metis div_mult_mod_eq of_nat_add of_nat_mult of_nat_numeral)
    have l: "length (itoa n) = Suc (length (itoa (n div 10)))" using False by (simp add: itoa.simps [of n])
    have "digits_val (itoa n @ cs) acc
        = digits_val (char_of (48 + n mod 10) # cs) (acc * 10 ^ length (itoa (n div 10)) + int (n div 10))"
      using False 1 [OF False] by (simp add: itoa.simps [of n] del: digits_val.simps)
    also have "\<dots> = digits_val cs ((acc * 10 ^ length (itoa (n div 10)) + int (n div 10)) * 10 + int (n mod 10))"
      using digit_char [OF d] by simp
    also have "(acc * 10 ^ length (itoa (n div 10)) + int (n div 10)) * 10 + int (n mod 10) = acc * 10 ^ length (itoa n) + int n"
      unfolding l e [symmetric] by (simp add: ring_distribs)
    finally show ?thesis .
  qed
qed

lemma atol_itoa:
  assumes "int n < 2 ^ 63" "cs = [] \<or> hd cs = CHR 0x00"
  shows "atol (itoa n @ cs) = Inr (int n)"
proof -
  have dg: "list_all isdigit (itoa n)" "itoa n \<noteq> []" using itoa_digits by blast+
  then have "takeWhile (\<lambda>c. c \<noteq> CHR 0x00) (itoa n @ cs) = itoa n @ takeWhile (\<lambda>c. c \<noteq> CHR 0x00) cs"
    using isdigit_plain(1) by (intro takeWhile_append2) (auto simp: list_all_iff)
  moreover have "takeWhile (\<lambda>c. c \<noteq> CHR 0x00) cs = []" using assms(2) by (cases cs) auto
  ultimately have c: "c_str (itoa n @ cs) = itoa n" by (simp add: c_str_def)
  obtain d ds where d: "itoa n = d # ds" "isdigit d" using dg by (cases "itoa n") auto
  have "digits_val (d # ds) 0 = int n" using digits_itoa [of n "[]" 0] d(1) by simp
  then show ?thesis using assms(1) isdigit_plain [OF d(2)] unfolding atol_def c unfolding d(1)
    by (simp add: long_result_def del: digits_val.simps)
qed

text \<open>A size written with a suffix is read back as that many units.\<close>

definition size_unit :: "char \<Rightarrow> int option" where
  "size_unit c =
     (if c \<in> {CHR ''K'', CHR ''k''} then Some (2 ^ 10) else if c \<in> {CHR ''M'', CHR ''m''} then Some (2 ^ 20)
      else if c \<in> {CHR ''G'', CHR ''g''} then Some (2 ^ 30) else None)"

lemma str2size_itoa:
  assumes "size_unit c = Some m" "int n * m < 2 ^ 63"
  shows "str2size (itoa n @ [c]) = Inr (int n * m)"
proof -
  have m: "1 \<le> m" using assms(1) by (auto simp: size_unit_def split: if_splits)
  have "int n \<le> int n * m" using mult_left_mono [OF m, of "int n"] by simp
  then have "atol (itoa n @ [CHR 0x00]) = Inr (int n)" using assms(2) by (intro atol_itoa) auto
  moreover have "0 \<le> int n * m" using m by simp
  then have "long_result (int n * m) = Inr (int n * m)" using assms(2) by (simp add: long_result_def)
  ultimately show ?thesis using assms(1) by (auto simp: str2size_def size_unit_def split: if_splits)
qed

end
