(* ===== verification/Slab_Allocator.thy ===== *)
theory Slab_Allocator
  imports Safs_Queue Safs_Common
begin

text \<open>
  \<^verbatim>\<open>src/SAFS/libsafs/slab_allocator.h\<close> and \<^verbatim>\<open>slab_allocator.cpp\<close>: objects of one size are carved
  out of page-aligned buffers and kept in a list linked through the objects themselves; each
  thread caches some of them in a queue of its own. An object is its address; the memory of the
  model is the first word of every object, which the list uses. The system's allocator is a
  parameter that sees the buffers in use and the size. An array of \<open>nobjs\<close> objects the caller
  passes is the list of the objects in it, and the calls that take the lock are atomic.
\<close>

unbundle bit_operations_syntax

section \<open>The list of free objects\<close>

record linked_obj =
  lo_next :: ptr

definition linked_obj_new :: linked_obj where
  "linked_obj_new = \<lparr>lo_next = None\<rparr>"

definition linked_obj_add :: "addr \<Rightarrow> linked_obj \<Rightarrow> linked_obj heap \<Rightarrow> (linked_obj \<times> linked_obj heap) result" where
  "linked_obj_add obj this h =
     bindE (mutate (\<lambda>n. n\<lparr>lo_next := lo_next this\<rparr>) (Some obj) h) (\<lambda>h. Inr (this\<lparr>lo_next := Some obj\<rparr>, h))"

record linked_obj_list =
  lhead :: linked_obj
  lend :: ptr
  lsize :: int

definition linked_obj_list_new :: linked_obj_list where
  "linked_obj_list_new = \<lparr>lhead = linked_obj_new, lend = None, lsize = 0\<rparr>"

definition list_add :: "addr \<Rightarrow> linked_obj_list \<Rightarrow> linked_obj heap \<Rightarrow> (linked_obj_list \<times> linked_obj heap) result" where
  "list_add obj l h =
     bindE (if lsize l = 0
            then bindE (guardE (lo_next (lhead l) = None) assert_failure) (\<lambda>_. Inr (l\<lparr>lend := Some obj\<rparr>))
            else Inr l) (\<lambda>l.
     bindE (linked_obj_add obj (lhead l) h) (\<lambda>(hd, h). Inr (l\<lparr>lhead := hd, lsize := lsize l + 1\<rparr>, h)))"

definition list_emptied :: "linked_obj_list \<Rightarrow> linked_obj_list" where
  "list_emptied l = l\<lparr>lhead := (lhead l)\<lparr>lo_next := None\<rparr>, lend := None, lsize := 0\<rparr>"

text \<open>The objects of \<open>from\<close> are moved to the front of \<open>l\<close>; the result has both lists.\<close>

definition list_add_list ::
  "linked_obj_list \<Rightarrow> linked_obj_list \<Rightarrow> linked_obj heap \<Rightarrow> (linked_obj_list \<times> linked_obj_list \<times> linked_obj heap) result" where
  "list_add_list from l h =
     (if lsize from = 0 then Inr (from, l, h)
      else if lsize l = 0
      then Inr (list_emptied from, l\<lparr>lsize := lsize from, lhead := lhead from, lend := lend from\<rparr>, h)
      else bindE (mutate (\<lambda>n. n\<lparr>lo_next := lo_next (lhead l)\<rparr>) (lend from) h) (\<lambda>h.
           Inr (list_emptied from, l\<lparr>lhead := lhead from, lsize := lsize l + lsize from\<rparr>, h)))"

fun pop_walk :: "nat \<Rightarrow> ptr \<Rightarrow> ptr \<Rightarrow> nat \<Rightarrow> linked_obj heap \<Rightarrow> (ptr \<times> ptr \<times> nat) result" where
  "pop_walk (Suc n) (Some obj) prev_obj num_pop h =
     bindE (deref h (Some obj)) (\<lambda>x. pop_walk n (lo_next x) (Some obj) (num_pop + 1) h)"
| "pop_walk n obj prev_obj num_pop h = Inr (obj, prev_obj, num_pop)"

definition list_pop ::
  "nat \<Rightarrow> linked_obj_list \<Rightarrow> linked_obj heap \<Rightarrow> (ptr \<times> linked_obj_list \<times> linked_obj heap) result" where
  "list_pop num l h =
     bindE (pop_walk num (lo_next (lhead l)) None 0 h) (\<lambda>(obj, prev_obj, num_pop).
     bindE (if prev_obj = None then Inr h else mutate (\<lambda>n. n\<lparr>lo_next := None\<rparr>) prev_obj h) (\<lambda>h.
     let ret = lo_next (lhead l);
         l = l\<lparr>lhead := (lhead l)\<lparr>lo_next := obj\<rparr>, lsize := lsize l - int num_pop\<rparr> in
     bindE (guardE (0 \<le> lsize l) assert_failure) (\<lambda>_.
     Inr (ret, if lsize l = 0 then l\<lparr>lend := None\<rparr> else l, h))))"

section \<open>The allocator\<close>

text \<open>
  \<open>local_buf\<close> is the queue a thread finds under \<^verbatim>\<open>local_buf_key\<close>; in \<open>per_thread_queues\<close> a queue is
  named by its thread. \<open>nodes\<close> is the memory and \<open>tot_slab_size\<close> the counter of all allocators.
\<close>

record slab_allocator =
  obj_size :: nat
  increase_size :: nat
  max_size :: nat
  node_id :: int
  local_buf_size :: nat
  thread_safe :: bool
  slist :: linked_obj_list
  curr_size :: nat
  init :: bool
  pinned :: bool
  alloc_bufs :: "addr list"
  local_buf :: "nat \<rightharpoonup> addr fifo_queue"
  per_thread_queues :: "nat thread_safe_FIFO_queue"
  slab_name :: string
  nodes :: "linked_obj heap"
  tot_slab_size :: nat

definition SLAB_PAGE_SIZE :: nat where
  "SLAB_PAGE_SIZE = 4096"

definition SLAB_LOCAL_BUF_SIZE :: nat where
  "SLAB_LOCAL_BUF_SIZE = 100"

definition linked_obj_bytes :: nat where
  "linked_obj_bytes = 8"

definition slab_allocator_new ::
  "string \<Rightarrow> nat \<Rightarrow> linked_obj heap \<Rightarrow> nat \<Rightarrow> nat \<Rightarrow> nat \<Rightarrow> nat \<Rightarrow> int \<Rightarrow> bool \<Rightarrow> bool \<Rightarrow> nat \<Rightarrow> bool
    \<Rightarrow> (slab_allocator \<times> nat) result" where
  "slab_allocator_new name alloc_counter mem tot obj_sz increase_sz max_sz node ini pin local_sz safe =
     bindE (thread_safe_FIFO_queue_new 0 ''per-thread-queue-queue'' 1000 1000) (\<lambda>ptq.
     bindE (guardE (linked_obj_bytes \<le> obj_sz) assert_failure) (\<lambda>_.
     Inr (\<lparr>obj_size = obj_sz, increase_size = ROUNDUP increase_sz SLAB_PAGE_SIZE, max_size = max_sz, node_id = node,
           local_buf_size = (if safe then local_sz else 0), thread_safe = safe, slist = linked_obj_list_new,
           curr_size = 0, init = ini, pinned = pin, alloc_bufs = [], local_buf = Map.empty, per_thread_queues = ptq,
           slab_name = name @ ''-'' @ itoa (alloc_counter + 1), nodes = mem, tot_slab_size = tot\<rparr>, alloc_counter + 1)))"

text \<open>The loop that writes a fresh header to each of the objects and adds it to a temporary list.\<close>

fun add_new :: "addr list \<Rightarrow> linked_obj_list \<Rightarrow> linked_obj heap \<Rightarrow> (linked_obj_list \<times> linked_obj heap) result" where
  "add_new [] l h = Inr (l, h)"
| "add_new (obj # objs) l h =
     bindE (list_add obj l (h(obj \<mapsto> linked_obj_new))) (\<lambda>(l, h). add_new objs l h)"

definition slab_free_objs :: "addr list \<Rightarrow> slab_allocator \<Rightarrow> slab_allocator result" where
  "slab_free_objs objs s =
     bindE (add_new objs linked_obj_list_new (nodes s)) (\<lambda>(tmp_list, h).
     bindE (list_add_list tmp_list (slist s) h) (\<lambda>(_, l, h). Inr (s\<lparr>slist := l, nodes := h\<rparr>)))"

text \<open>The objects of the popped chain are written to the array behind the \<open>num\<close> objects in it.\<close>

function take_objs :: "nat \<Rightarrow> addr list \<Rightarrow> ptr \<Rightarrow> linked_obj heap \<Rightarrow> addr list result" where
  "take_objs nobjs objs None h = Inr objs"
| "take_objs nobjs objs (Some obj) h =
     (if length objs < nobjs
      then bindE (deref h (Some obj)) (\<lambda>x. take_objs nobjs (objs @ [obj]) (lo_next x) h)
      else Inl undefined_behaviour)"
  by pat_completeness auto
termination by (relation "measure (\<lambda>(n, objs, _). n - length objs)") auto

definition alloc_pop :: "nat \<Rightarrow> addr list \<Rightarrow> slab_allocator \<Rightarrow> (addr list \<times> slab_allocator) result" where
  "alloc_pop nobjs objs s =
     bindE (list_pop (nobjs - length objs) (slist s) (nodes s)) (\<lambda>(obj, l, h).
     bindE (take_objs nobjs objs obj h) (\<lambda>objs. Inr (objs, s\<lparr>slist := l, nodes := h\<rparr>)))"

definition alloc_grow :: "(addr list \<Rightarrow> nat \<Rightarrow> addr) \<Rightarrow> slab_allocator \<Rightarrow> slab_allocator result" where
  "alloc_grow malloc s =
     (let s = s\<lparr>curr_size := curr_size s + increase_size s, tot_slab_size := tot_slab_size s + increase_size s\<rparr>;
          objs = malloc (alloc_bufs s) (increase_size s) in
      bindE (guardE (objs \<noteq> 0) assert_failure) (\<lambda>_.
      bindE (guardE (objs mod SLAB_PAGE_SIZE = 0) assert_failure) (\<lambda>_.
      bindE (add_new (map (\<lambda>i. objs + obj_size s * i) [0..<increase_size s div obj_size s]) linked_obj_list_new (nodes s))
        (\<lambda>(tmp_list, h).
      let s = s\<lparr>alloc_bufs := alloc_bufs s @ [objs]\<rparr> in
      bindE (list_add_list tmp_list (slist s) h) (\<lambda>(_, l, h). Inr (s\<lparr>slist := l, nodes := h\<rparr>))))))"

text \<open>The number of objects is \<open>nobjs\<close> or 0; the result has the objects that are in the array.\<close>

partial_function (option) alloc_loop ::
  "(addr list \<Rightarrow> nat \<Rightarrow> addr) \<Rightarrow> nat \<Rightarrow> addr list \<Rightarrow> slab_allocator \<Rightarrow> (addr list \<times> slab_allocator) exec" where
  "alloc_loop malloc nobjs objs s =
     bindX (Some (alloc_pop nobjs objs s)) (\<lambda>(objs, s).
     if length objs = nobjs then Some (Inr (objs, s))
     else if curr_size s < max_size s
     then bindX (Some (alloc_grow malloc s)) (alloc_loop malloc nobjs objs)
     else bindX (Some (slab_free_objs objs s)) (\<lambda>s. Some (Inr ([], s))))"

definition slab_alloc_objs ::
  "(addr list \<Rightarrow> nat \<Rightarrow> addr) \<Rightarrow> nat \<Rightarrow> slab_allocator \<Rightarrow> (addr list \<times> slab_allocator) exec" where
  "slab_alloc_objs malloc nobjs s = alloc_loop malloc nobjs [] s"

definition slab_contains :: "addr \<Rightarrow> slab_allocator \<Rightarrow> bool" where
  "slab_contains addr s \<longleftrightarrow> (\<exists>b \<in> set (alloc_bufs s). b \<le> addr \<and> addr < b + increase_size s)"

section \<open>The queues of the threads\<close>

definition get_local_buf :: "nat \<Rightarrow> slab_allocator \<Rightarrow> (addr fifo_queue \<times> slab_allocator) result" where
  "get_local_buf t s =
     (case local_buf s t of
        Some q \<Rightarrow> Inr (q, s)
      | None \<Rightarrow>
          bindE (fifo_queue_new 0 (local_buf_size s) False) (\<lambda>q.
          bindE (ts_add 0 [t] (per_thread_queues s)) (\<lambda>(_, ptq).
          Inr (q, s\<lparr>per_thread_queues := ptq, local_buf := (local_buf s)(t \<mapsto> q)\<rparr>))))"

definition slab_free :: "nat \<Rightarrow> addr \<Rightarrow> slab_allocator \<Rightarrow> slab_allocator result" where
  "slab_free t obj s =
     (if local_buf_size s = 0 then slab_free_objs [obj] s
      else bindE (get_local_buf t s) (\<lambda>(q, s).
           bindE (fifo_is_full q) (\<lambda>full.
           bindE (if full
                  then bindE (fifo_fetch (local_buf_size s) q) (\<lambda>(objs, q).
                       bindE (slab_free_objs objs s) (\<lambda>s. Inr (q, s)))
                  else Inr (q, s)) (\<lambda>(q, s).
           bindE (fifo_push_back obj q) (\<lambda>q. Inr (s\<lparr>local_buf := (local_buf s)(t \<mapsto> q)\<rparr>))))))"

definition local_pop :: "nat \<Rightarrow> addr fifo_queue \<Rightarrow> slab_allocator \<Rightarrow> (ptr \<times> slab_allocator) result" where
  "local_pop t q s =
     bindE (fifo_pop_front q) (\<lambda>(obj, q). Inr (Some obj, s\<lparr>local_buf := (local_buf s)(t \<mapsto> q)\<rparr>))"

definition slab_alloc ::
  "(addr list \<Rightarrow> nat \<Rightarrow> addr) \<Rightarrow> nat \<Rightarrow> slab_allocator \<Rightarrow> (ptr \<times> slab_allocator) exec" where
  "slab_alloc malloc t s =
     (if local_buf_size s = 0
      then bindX (slab_alloc_objs malloc 1 s) (\<lambda>(objs, s).
           case objs of [] \<Rightarrow> Some (Inr (None, s)) | obj # _ \<Rightarrow> Some (Inr (Some obj, s)))
      else bindX (Some (get_local_buf t s)) (\<lambda>(q, s).
           if fifo_is_empty q
           then bindX (slab_alloc_objs malloc (local_buf_size s) s) (\<lambda>(objs, s).
                if objs = [] then Some (Inr (None, s))
                else Some (bindE (fifo_add objs q) (\<lambda>(n, q).
                     bindE (guardE (n = length objs) assert_failure) (\<lambda>_. local_pop t q s))))
           else Some (local_pop t q s)))"

text \<open>
  The destructor. Where NUMA is not used the call \<^verbatim>\<open>free(alloc_bufs[i])\<close> is the method of the
  class. The result has the buffers that went back to the system.
\<close>

fun dtor_bufs :: "bool \<Rightarrow> nat \<Rightarrow> addr list \<Rightarrow> slab_allocator \<Rightarrow> (addr list \<times> slab_allocator) result" where
  "dtor_bufs use_numa t [] s = Inr ([], s)"
| "dtor_bufs use_numa t (b # bs) s =
     (if use_numa then bindE (dtor_bufs use_numa t bs s) (\<lambda>(freed, s). Inr (b # freed, s))
      else bindE (slab_free t b s) (dtor_bufs use_numa t bs))"

partial_function (option) dtor_queues :: "slab_allocator \<Rightarrow> slab_allocator exec" where
  "dtor_queues s =
     (if fifo_is_empty (per_thread_queues s) then Some (Inr s)
      else bindX (Some (ts_fetch 128 (per_thread_queues s))) (\<lambda>(ts, ptq).
           dtor_queues (s\<lparr>per_thread_queues := ptq, local_buf := (local_buf s) |` (- set ts)\<rparr>)))"

definition slab_allocator_dtor :: "bool \<Rightarrow> nat \<Rightarrow> slab_allocator \<Rightarrow> (addr list \<times> slab_allocator) exec" where
  "slab_allocator_dtor use_numa t s =
     bindX (Some (dtor_bufs use_numa t (alloc_bufs s) s)) (\<lambda>(freed, s).
     bindX (dtor_queues s) (\<lambda>s. Some (Inr (freed, s))))"

section \<open>Typed objects\<close>

text \<open>
  \<^verbatim>\<open>obj_allocator<T>\<close>: a header in front of every object. \<^verbatim>\<open>alloc_objs\<close> computes its pointers from
  \<open>stack\<close>, the address of its local array of pointers, which have eight bytes each.
\<close>

definition alloc_objs ::
  "(addr list \<Rightarrow> nat \<Rightarrow> addr) \<Rightarrow> addr \<Rightarrow> nat \<Rightarrow> slab_allocator \<Rightarrow> (addr list \<times> slab_allocator) exec" where
  "alloc_objs malloc stack num s =
     bindX (slab_alloc_objs malloc num s) (\<lambda>(addrs, s).
     Some (Inr (map (\<lambda>i. stack + 8 * linked_obj_bytes) [0..<length addrs], s)))"

definition alloc_obj ::
  "(addr list \<Rightarrow> nat \<Rightarrow> addr) \<Rightarrow> nat \<Rightarrow> slab_allocator \<Rightarrow> (ptr \<times> slab_allocator) exec" where
  "alloc_obj malloc t s =
     bindX (slab_alloc malloc t s) (\<lambda>(p, s).
     case p of None \<Rightarrow> Some (Inr (None, s)) | Some addr \<Rightarrow> Some (Inr (Some (addr + linked_obj_bytes), s)))"

definition free_objs :: "addr list \<Rightarrow> slab_allocator \<Rightarrow> slab_allocator result" where
  "free_objs objs s = slab_free_objs (map (\<lambda>obj. obj - linked_obj_bytes) objs) s"

definition free_obj :: "nat \<Rightarrow> addr \<Rightarrow> slab_allocator \<Rightarrow> slab_allocator result" where
  "free_obj t obj s = slab_free t (obj - linked_obj_bytes) s"

section \<open>What the list holds\<close>

fun chain :: "linked_obj heap \<Rightarrow> ptr \<Rightarrow> addr list \<Rightarrow> bool" where
  "chain h p [] \<longleftrightarrow> p = None"
| "chain h p (x # xs) \<longleftrightarrow> p = Some x \<and> (\<exists>n. h x = Some n \<and> chain h (lo_next n) xs)"

definition list_ok :: "linked_obj heap \<Rightarrow> linked_obj_list \<Rightarrow> addr list \<Rightarrow> bool" where
  "list_ok h l xs \<longleftrightarrow> chain h (lo_next (lhead l)) xs \<and> distinct xs \<and> lsize l = int (length xs)
     \<and> lend l = (if xs = [] then None else Some (last xs))"

lemma chain_cong: "\<forall>a \<in> set xs. h' a = h a \<Longrightarrow> chain h' p xs \<longleftrightarrow> chain h p xs"
  by (induction xs arbitrary: p) auto

lemma chain_upd [simp]: "x \<notin> set xs \<Longrightarrow> chain (h(x \<mapsto> n)) p xs \<longleftrightarrow> chain h p xs"
  by (rule chain_cong) auto

lemma chain_dom: "chain h p xs \<Longrightarrow> a \<in> set xs \<Longrightarrow> \<exists>n. h a = Some n"
  by (induction xs arbitrary: p) auto

lemma chain_append:
  assumes "chain h p ys" "distinct (ys @ xs)" "ys \<noteq> []" "chain h q xs" "h (last ys) = Some n"
  shows "chain (h(last ys \<mapsto> n\<lparr>lo_next := q\<rparr>)) p (ys @ xs)"
  using assms
proof (induction ys arbitrary: p)
  case (Cons y ys)
  show ?case
  proof (cases "ys = []")
    case False
    then have "y \<noteq> last ys" using Cons.prems(2) by auto
    with False Cons show ?thesis by auto
  next
    case True
    with Cons.prems have "chain (h(y \<mapsto> n\<lparr>lo_next := q\<rparr>)) q xs" "p = Some y" by auto
    with True show ?thesis by (simp add: fun_upd_def)
  qed
qed simp

lemma chain_take:
  assumes "chain h p xs" "distinct xs" "ys = take m xs" "ys \<noteq> []" "h (last ys) = Some n"
  shows "chain (h(last ys \<mapsto> n\<lparr>lo_next := None\<rparr>)) p ys"
  using assms
proof (induction xs arbitrary: p m ys)
  case (Cons x xs)
  obtain m' where m: "m = Suc m'" using Cons.prems(3,4) by (cases m) auto
  obtain x' where x: "h x = Some x'" "p = Some x" "chain h (lo_next x') xs" using Cons.prems(1) by auto
  show ?case
  proof (cases "take m' xs = []")
    case False
    then have ne: "x \<noteq> last (take m' xs)" using Cons.prems(2) by (metis distinct.simps(2) in_set_takeD last_in_set)
    from Cons.prems(2-5) m False have "distinct xs" "h (last (take m' xs)) = Some n" by auto
    from Cons.IH [OF x(3) this(1) refl False this(2)] False ne x show ?thesis
      unfolding Cons.prems(3) m by (simp add: fun_upd_def)
  qed (use Cons.prems m x in auto)
qed simp

lemma pop_walk_ok:
  assumes "chain h p xs"
  shows "\<exists>p'. pop_walk n p prev k h = Inr (p', if take n xs = [] then prev else Some (last (take n xs)), k + length (take n xs))
    \<and> chain h p' (drop n xs)"
  using assms
proof (induction xs arbitrary: n p prev k)
  case (Cons x xs)
  show ?case
  proof (cases n)
    case (Suc m)
    obtain x' where x: "h x = Some x'" "p = Some x" "chain h (lo_next x') xs" using Cons.prems by auto
    with Cons.IH [OF x(3), of m "Some x" "k + 1"] Suc show ?thesis by (auto simp: deref_def)
  qed (use Cons.prems in auto)
qed (cases n; simp)

lemma list_pop_ok:
  assumes "list_ok h l xs" "0 < n"
  shows "\<exists>p l' h'. list_pop n l h = Inr (p, l', h') \<and> chain h' p (take n xs) \<and> list_ok h' l' (drop n xs)"
proof -
  let ?ys = "take n xs"
  have ok: "chain h (lo_next (lhead l)) xs" "distinct xs" "lsize l = int (length xs)" using assms by (auto simp: list_ok_def)
  obtain p' where w: "pop_walk n (lo_next (lhead l)) None 0 h
      = Inr (p', if ?ys = [] then None else Some (last ?ys), length ?ys)" "chain h p' (drop n xs)"
    using pop_walk_ok [OF ok(1), of n None 0] by auto
  let ?l = "l\<lparr>lhead := (lhead l)\<lparr>lo_next := p'\<rparr>, lsize := int (length (drop n xs)),
    lend := (if drop n xs = [] then None else lend l)\<rparr>"
  have sz: "lsize l - int (length ?ys) = int (length (drop n xs))" using ok(3) by (simp add: min_def)
  have l: "list_ok h ?l (drop n xs)" using assms w(2) by (auto simp: list_ok_def last_drop)
  show ?thesis
  proof (cases "?ys = []")
    case True
    then have "list_pop n l h = Inr (lo_next (lhead l), ?l, h)"
      using w(1) sz unfolding list_pop_def by (simp add: Let_def)
    with True l ok assms(2) show ?thesis by auto
  next
    case False
    have in_ys: "last ?ys \<in> set ?ys" using False by (rule last_in_set)
    then obtain m where m: "h (last ?ys) = Some m" using chain_dom [OF ok(1)] in_set_takeD by metis
    let ?h = "h(last ?ys \<mapsto> m\<lparr>lo_next := None\<rparr>)"
    have "last ?ys \<notin> set (drop n xs)" using in_ys set_take_disj_set_drop_if_distinct [OF ok(2), of n n] by auto
    then have "list_ok ?h ?l (drop n xs)" using l by (simp add: list_ok_def)
    moreover have "list_pop n l h = Inr (lo_next (lhead l), ?l, ?h)"
      using w(1) sz False m unfolding list_pop_def by (simp add: Let_def mutate_def deref_def)
    ultimately show ?thesis using chain_take [OF ok(1,2) refl False m] by blast
  qed
qed

lemma take_objs_ok:
  "chain h p xs \<Longrightarrow> length objs + length xs \<le> nobjs \<Longrightarrow> take_objs nobjs objs p h = Inr (objs @ xs)"
  by (induction xs arbitrary: p objs) (auto simp: deref_def)

lemma list_add_ok:
  assumes "list_ok h l xs" "obj \<notin> set xs" "h obj = Some n"
  shows "\<exists>l'. list_add obj l h = Inr (l', h(obj \<mapsto> n\<lparr>lo_next := lo_next (lhead l)\<rparr>))
    \<and> list_ok (h(obj \<mapsto> n\<lparr>lo_next := lo_next (lhead l)\<rparr>)) l' (obj # xs)"
  using assms by (cases "xs = []") (auto simp: list_ok_def list_add_def linked_obj_add_def mutate_def deref_def)

lemma add_new_ok:
  assumes "list_ok h l xs" "distinct objs" "set objs \<inter> set xs = {}"
  shows "\<exists>l' h'. add_new objs l h = Inr (l', h') \<and> list_ok h' l' (rev objs @ xs) \<and> (\<forall>a. a \<notin> set objs \<longrightarrow> h' a = h a)"
  using assms
proof (induction objs arbitrary: l h xs)
  case (Cons obj objs)
  have "list_ok (h(obj \<mapsto> linked_obj_new)) l xs" using Cons.prems by (simp add: list_ok_def)
  from list_add_ok [OF this, of obj linked_obj_new] obtain l1 h1 where
    l1: "list_add obj l (h(obj \<mapsto> linked_obj_new)) = Inr (l1, h1)" "list_ok h1 l1 (obj # xs)" "\<forall>a. a \<noteq> obj \<longrightarrow> h1 a = h a"
    using Cons.prems by auto
  from Cons.IH [OF l1(2)] Cons.prems obtain l' h' where "add_new objs l1 h1 = Inr (l', h')"
    "list_ok h' l' (rev objs @ obj # xs)" "\<forall>a. a \<notin> set objs \<longrightarrow> h' a = h1 a" by auto
  with l1 show ?case by auto
qed simp

lemma add_list_ok:
  assumes "list_ok h from ys" "list_ok h l xs" "set ys \<inter> set xs = {}"
  shows "\<exists>from' l' h'. list_add_list from l h = Inr (from', l', h') \<and> list_ok h' l' (ys @ xs)"
proof -
  consider "ys = []" | "ys \<noteq> []" "xs = []" | "ys \<noteq> []" "xs \<noteq> []" by blast
  then show ?thesis
  proof cases
    case 3
    then obtain n where n: "h (last ys) = Some n" using assms(1) chain_dom last_in_set unfolding list_ok_def by metis
    have "chain (h(last ys \<mapsto> n\<lparr>lo_next := lo_next (lhead l)\<rparr>)) (lo_next (lhead from)) (ys @ xs)"
      using assms n 3 by (intro chain_append) (auto simp: list_ok_def)
    with 3 assms n show ?thesis by (auto simp: list_ok_def list_add_list_def mutate_def deref_def)
  qed (use assms in \<open>auto simp: list_ok_def list_add_list_def\<close>)
qed

lemma list_ok_frame:
  assumes "list_ok h l xs" "\<forall>a. a \<notin> A \<longrightarrow> h' a = h a" "A \<inter> set xs = {}"
  shows "list_ok h' l xs"
proof -
  have "\<forall>a \<in> set xs. h' a = h a" using assms(2,3) by blast
  from chain_cong [OF this] assms(1) show ?thesis by (simp add: list_ok_def)
qed

text \<open>New objects gathered in a temporary list and moved to the front.\<close>

lemma put_objs_ok:
  assumes "list_ok h l xs" "distinct objs" "set objs \<inter> set xs = {}"
  shows "\<exists>tmp h1 tmp' l' h'. add_new objs linked_obj_list_new h = Inr (tmp, h1)
    \<and> list_add_list tmp l h1 = Inr (tmp', l', h') \<and> list_ok h' l' (rev objs @ xs)"
proof -
  have "list_ok h linked_obj_list_new []" by (simp add: list_ok_def linked_obj_list_new_def linked_obj_new_def)
  from add_new_ok [OF this assms(2)] obtain tmp h1 where tmp: "add_new objs linked_obj_list_new h = Inr (tmp, h1)"
    "list_ok h1 tmp (rev objs)" "\<forall>a. a \<notin> set objs \<longrightarrow> h1 a = h a" by auto
  from add_list_ok [OF tmp(2) list_ok_frame [OF assms(1) tmp(3) assms(3)]] assms(3) tmp(1) show ?thesis by auto
qed

section \<open>Who owns an object\<close>

text \<open>Two blocks of \<open>n\<close> bytes that do not overlap.\<close>

definition apart :: "nat \<Rightarrow> addr \<Rightarrow> addr \<Rightarrow> bool" where
  "apart n a b \<longleftrightarrow> a + n \<le> b \<or> b + n \<le> a"

text \<open>
  What the system's allocator promises: a block that is not null, starts on a page and overlaps
  none of those in use.
\<close>

definition malloc_ok :: "(addr list \<Rightarrow> nat \<Rightarrow> addr) \<Rightarrow> nat \<Rightarrow> bool" where
  "malloc_ok malloc sz \<longleftrightarrow> (\<forall>bufs. malloc bufs sz \<noteq> 0 \<and> malloc bufs sz mod SLAB_PAGE_SIZE = 0
     \<and> (\<forall>b \<in> set bufs. apart sz b (malloc bufs sz)))"

definition buf_slots :: "nat \<Rightarrow> nat \<Rightarrow> addr \<Rightarrow> addr list" where
  "buf_slots osz sz b = map (\<lambda>i. b + osz * i) [0..<sz div osz]"

definition slots :: "slab_allocator \<Rightarrow> addr list" where
  "slots s = concat (map (buf_slots (obj_size s) (increase_size s)) (alloc_bufs s))"

definition bufs_ok :: "slab_allocator \<Rightarrow> bool" where
  "bufs_ok s \<longleftrightarrow> 0 < obj_size s \<and> 0 < increase_size s \<and> sorted_wrt (apart (increase_size s)) (alloc_bufs s)"

text \<open>Every object is in the list or, once, among those that have been given out.\<close>

definition slab_ok :: "slab_allocator \<Rightarrow> addr multiset \<Rightarrow> bool" where
  "slab_ok s out \<longleftrightarrow> bufs_ok s \<and> (\<exists>xs. list_ok (nodes s) (slist s) xs \<and> mset xs + out = mset (slots s))"

definition same_config :: "slab_allocator \<Rightarrow> slab_allocator \<Rightarrow> bool" where
  "same_config s s' \<longleftrightarrow> obj_size s' = obj_size s \<and> increase_size s' = increase_size s \<and> max_size s' = max_size s
     \<and> local_buf_size s' = local_buf_size s"

definition same_threads :: "slab_allocator \<Rightarrow> slab_allocator \<Rightarrow> bool" where
  "same_threads s s' \<longleftrightarrow> same_config s s' \<and> local_buf s' = local_buf s \<and> per_thread_queues s' = per_thread_queues s"

lemma apart_sym: "apart n a b \<longleftrightarrow> apart n b a"
  by (auto simp: apart_def)

lemma buf_slots_bounds:
  assumes "a \<in> set (buf_slots osz sz b)"
  shows "b \<le> a" "a + osz \<le> b + sz"
proof -
  obtain i where i: "i < sz div osz" "a = b + osz * i" using assms by (auto simp: buf_slots_def)
  have "osz * (i + 1) \<le> osz * (sz div osz)" using i(1) by (intro mult_le_mono2) simp
  also have "\<dots> \<le> sz" by simp
  finally show "b \<le> a" "a + osz \<le> b + sz" using i(2) by simp_all
qed

lemma buf_slots_apart: "sorted_wrt (apart osz) (buf_slots osz sz b)"
proof -
  have "osz * i + osz \<le> osz * j" if "i < j" for i j
    using mult_le_mono2 [of "i + 1" j osz] that by (simp add: algebra_simps)
  then show ?thesis by (auto simp: buf_slots_def sorted_wrt_iff_nth_less apart_def)
qed

lemma bufs_slots_apart:
  assumes "sorted_wrt (apart sz) bufs"
  shows "sorted_wrt (apart osz) (concat (map (buf_slots osz sz) bufs))"
  using assms
proof (induction bufs)
  case (Cons b bufs)
  have "apart osz x y" if "x \<in> set (buf_slots osz sz b)" "c \<in> set bufs" "y \<in> set (buf_slots osz sz c)" for x y c
    using buf_slots_bounds [OF that(1)] buf_slots_bounds [OF that(3)] Cons.prems that(2) by (fastforce simp: apart_def)
  then show ?case using Cons buf_slots_apart [of osz sz b] by (auto simp: sorted_wrt_append)
qed simp

lemma apart_distinct:
  assumes "sorted_wrt (apart n) xs" "0 < n"
  shows "distinct xs"
  using assms by (induction xs) (auto simp: apart_def)

lemma slots_distinct: "bufs_ok s \<Longrightarrow> distinct (slots s)"
  unfolding slots_def bufs_ok_def using apart_distinct bufs_slots_apart by blast

lemma sorted_apart:
  "sorted_wrt (apart n) xs \<Longrightarrow> a \<in> set xs \<Longrightarrow> b \<in> set xs \<Longrightarrow> a \<noteq> b \<Longrightarrow> apart n a b"
  by (induction xs) (auto simp: apart_sym)

lemma slots_apart: "bufs_ok s \<Longrightarrow> a \<in> set (slots s) \<Longrightarrow> b \<in> set (slots s) \<Longrightarrow> a \<noteq> b \<Longrightarrow> apart (obj_size s) a b"
  using bufs_slots_apart sorted_apart unfolding slots_def bufs_ok_def by blast

lemma slab_ok_distinct:
  assumes "slab_ok s out" "list_ok (nodes s) (slist s) xs" "mset xs + out = mset (slots s)"
  shows "distinct xs" "set xs \<inter> set_mset out = {}" "\<And>objs. mset objs \<subseteq># out \<Longrightarrow> distinct objs"
proof -
  obtain ys where ys: "mset ys = out" using ex_mset by blast
  have "mset (xs @ ys) = mset (slots s)" using assms(3) ys by simp
  then have d: "distinct (xs @ ys)" using slots_distinct assms(1) mset_eq_imp_distinct_iff unfolding slab_ok_def by blast
  then show "distinct xs" "set xs \<inter> set_mset out = {}" using ys [symmetric] by simp_all
  fix objs assume "mset objs \<subseteq># out"
  then obtain r where "out = mset objs + r" by (auto simp: mset_subset_eq_exists_conv)
  moreover obtain rs where "mset rs = r" using ex_mset by blast
  ultimately have "mset (objs @ rs) = mset ys" using ys by simp
  then have "distinct (objs @ rs)" using d mset_eq_imp_distinct_iff [of "objs @ rs" ys] by simp
  then show "distinct objs" by simp
qed

lemma same_threads_refl [simp]: "same_threads s s"
  by (simp add: same_threads_def same_config_def)

lemma same_threads_trans: "same_threads a b \<Longrightarrow> same_threads b c \<Longrightarrow> same_threads a c"
  by (simp add: same_threads_def same_config_def)

lemma slab_free_objs_ok:
  assumes "slab_ok s (out + mset objs)"
  shows "\<exists>s'. slab_free_objs objs s = Inr s' \<and> slab_ok s' out \<and> same_threads s s' \<and> slots s' = slots s
    \<and> curr_size s' = curr_size s"
proof -
  obtain xs where xs: "list_ok (nodes s) (slist s) xs" "mset xs + (out + mset objs) = mset (slots s)"
    using assms by (auto simp: slab_ok_def)
  note d = slab_ok_distinct [OF assms xs]
  have "set objs \<inter> set xs = {}" using d(2) by auto
  from put_objs_ok [OF xs(1) d(3) this] obtain tmp h1 tmp' l' h' where
    p: "add_new objs linked_obj_list_new (nodes s) = Inr (tmp, h1)" "list_add_list tmp (slist s) h1 = Inr (tmp', l', h')"
    and l': "list_ok h' l' (rev objs @ xs)" by auto
  let ?s = "s\<lparr>slist := l', nodes := h'\<rparr>"
  have "mset (rev objs @ xs) + out = mset (slots ?s)" using xs(2) by (simp add: slots_def ac_simps)
  then have "slab_ok ?s out" using assms l' by (auto simp: slab_ok_def bufs_ok_def)
  moreover have "slab_free_objs objs s = Inr ?s" using p by (simp add: slab_free_objs_def)
  ultimately show ?thesis by (auto simp: same_threads_def same_config_def slots_def)
qed

lemma alloc_grow_ok:
  assumes "slab_ok s out" "malloc_ok malloc (increase_size s)"
  shows "\<exists>s'. alloc_grow malloc s = Inr s' \<and> slab_ok s' out \<and> same_threads s s'
    \<and> curr_size s' = curr_size s + increase_size s"
proof -
  obtain xs where xs: "list_ok (nodes s) (slist s) xs" "mset xs + out = mset (slots s)" using assms by (auto simp: slab_ok_def)
  let ?b = "malloc (alloc_bufs s) (increase_size s)"
  let ?new = "buf_slots (obj_size s) (increase_size s) ?b"
  let ?s = "s\<lparr>curr_size := curr_size s + increase_size s, tot_slab_size := tot_slab_size s + increase_size s,
    alloc_bufs := alloc_bufs s @ [?b]\<rparr>"
  have ok: "bufs_ok ?s" using assms by (auto simp: bufs_ok_def slab_ok_def malloc_ok_def sorted_wrt_append)
  have sl: "slots ?s = slots s @ ?new" by (simp add: slots_def)
  have d: "distinct ?new" "set ?new \<inter> set (slots s) = {}" using slots_distinct [OF ok] unfolding sl by auto
  have "set_mset (mset xs) \<subseteq> set_mset (mset (slots s))" unfolding xs(2) [symmetric] by simp
  with d(2) have dx: "set ?new \<inter> set xs = {}" by auto
  from put_objs_ok [OF xs(1) d(1) dx] obtain tmp h1 tmp' l' h' where
    p: "add_new ?new linked_obj_list_new (nodes s) = Inr (tmp, h1)" "list_add_list tmp (slist s) h1 = Inr (tmp', l', h')"
    and l': "list_ok h' l' (rev ?new @ xs)" by auto
  let ?t = "?s\<lparr>slist := l', nodes := h'\<rparr>"
  have st: "slots ?t = slots ?s" by (simp add: slots_def)
  have "mset (rev ?new @ xs) + out = mset (slots ?t)" using xs(2) unfolding st sl by (simp add: ac_simps)
  then have "slab_ok ?t out" using ok l' by (auto simp: slab_ok_def bufs_ok_def)
  moreover have "alloc_grow malloc s = Inr ?t"
    using assms(2) p by (simp add: alloc_grow_def Let_def malloc_ok_def buf_slots_def)
  ultimately show ?thesis by (auto simp: same_threads_def same_config_def)
qed

lemma alloc_pop_ok:
  assumes "slab_ok s (out + mset objs)" "length objs < nobjs"
  shows "\<exists>objs' s'. alloc_pop nobjs objs s = Inr (objs', s') \<and> slab_ok s' (out + mset objs') \<and> same_threads s s'
    \<and> length objs' \<le> nobjs \<and> curr_size s' = curr_size s \<and> slots s' = slots s
    \<and> (length objs' < nobjs \<longrightarrow> length (slots s') = size out + length objs')"
proof -
  obtain xs where xs: "list_ok (nodes s) (slist s) xs" "mset xs + (out + mset objs) = mset (slots s)"
    using assms(1) by (auto simp: slab_ok_def)
  let ?n = "nobjs - length objs"
  obtain p l' h' where p: "list_pop ?n (slist s) (nodes s) = Inr (p, l', h')" "chain h' p (take ?n xs)" "list_ok h' l' (drop ?n xs)"
    using list_pop_ok [OF xs(1), of ?n] assms(2) by auto
  let ?s = "s\<lparr>slist := l', nodes := h'\<rparr>" and ?o = "objs @ take ?n xs"
  have sl: "slots ?s = slots s" by (simp add: slots_def)
  have "length objs + length (take ?n xs) \<le> nobjs" using assms(2) by simp
  then have r: "alloc_pop nobjs objs s = Inr (?o, ?s)" using p(1) take_objs_ok [OF p(2)] by (simp add: alloc_pop_def)
  have m: "mset (drop ?n xs) + (out + mset ?o) = mset (slots ?s)"
    unfolding sl xs(2) [symmetric] by (simp add: ac_simps) (metis append_take_drop_id mset_append union_commute)
  then have "slab_ok ?s (out + mset ?o)" using assms(1) p(3) by (auto simp: slab_ok_def bufs_ok_def)
  moreover have "length (slots ?s) = size out + length ?o" if "length ?o < nobjs"
  proof -
    have "drop ?n xs = []" using that by auto
    with arg_cong [OF m, of size] show ?thesis by simp
  qed
  ultimately show ?thesis using r assms(2) by (auto simp: same_threads_def same_config_def slots_def)
qed

definition refused :: "nat \<Rightarrow> addr multiset \<Rightarrow> slab_allocator \<Rightarrow> bool" where
  "refused nobjs out s \<longleftrightarrow> max_size s \<le> curr_size s \<and> length (slots s) < size out + nobjs"

lemma alloc_loop_ok:
  assumes "slab_ok s (out + mset objs)" "length objs < nobjs" "malloc_ok malloc (increase_size s)"
  shows "\<exists>objs' s'. alloc_loop malloc nobjs objs s = Some (Inr (objs', s')) \<and> slab_ok s' (out + mset objs')
    \<and> same_threads s s' \<and> (length objs' = nobjs \<or> objs' = [] \<and> refused nobjs out s')"
  using assms
proof (induction "max_size s - curr_size s" arbitrary: s objs rule: less_induct)
  case less
  obtain o1 s1 where p: "alloc_pop nobjs objs s = Inr (o1, s1)" "slab_ok s1 (out + mset o1)" "same_threads s s1"
    "length o1 \<le> nobjs" "curr_size s1 = curr_size s" "length o1 < nobjs \<longrightarrow> length (slots s1) = size out + length o1"
    using alloc_pop_ok [OF less.prems(1,2)] by blast
  have c: "max_size s1 = max_size s" "increase_size s1 = increase_size s" "0 < increase_size s1"
    using p(2,3) by (auto simp: same_threads_def same_config_def slab_ok_def bufs_ok_def)
  consider "length o1 = nobjs" | "length o1 < nobjs" "curr_size s1 < max_size s1" | "length o1 < nobjs" "max_size s1 \<le> curr_size s1"
    using p(4) by linarith
  then show ?case
  proof cases
    case 1
    then show ?thesis using p(1-3) by (subst alloc_loop.simps) auto
  next
    case 2
    obtain s2 where g: "alloc_grow malloc s1 = Inr s2" "slab_ok s2 (out + mset o1)" "same_threads s1 s2"
      "curr_size s2 = curr_size s1 + increase_size s1" using alloc_grow_ok [OF p(2), of malloc] less.prems(3) c by auto
    have c2: "max_size s2 = max_size s" "increase_size s2 = increase_size s"
      using g(3) c by (auto simp: same_threads_def same_config_def)
    have "max_size s2 - curr_size s2 < max_size s - curr_size s" using g(4) c c2 p(5) 2(2) by linarith
    from less.hyps [OF this g(2) 2(1)] less.prems(3) c2 obtain o3 s3 where
      r: "alloc_loop malloc nobjs o1 s2 = Some (Inr (o3, s3))" "slab_ok s3 (out + mset o3)" "same_threads s2 s3"
      "length o3 = nobjs \<or> o3 = [] \<and> refused nobjs out s3" by auto
    have "alloc_loop malloc nobjs objs s = Some (Inr (o3, s3))"
      using p(1) g(1) r(1) 2 by (subst alloc_loop.simps) simp
    with r p(3) g(3) show ?thesis using same_threads_trans by blast
  next
    case 3
    from slab_free_objs_ok [OF p(2)] obtain s2 where f: "slab_free_objs o1 s1 = Inr s2" "slab_ok s2 out" "same_threads s1 s2"
      "slots s2 = slots s1" "curr_size s2 = curr_size s1" by blast
    have "alloc_loop malloc nobjs objs s = Some (Inr ([], s2))" using p(1) f(1) 3 by (subst alloc_loop.simps) simp
    moreover have "refused nobjs out s2"
      using 3 p(6) f(3-5) by (auto simp: refused_def same_threads_def same_config_def)
    ultimately show ?thesis using f p(3) same_threads_trans by fastforce
  qed
qed

lemma slab_alloc_objs_ok:
  assumes "slab_ok s out" "0 < nobjs" "malloc_ok malloc (increase_size s)"
  shows "\<exists>objs s'. slab_alloc_objs malloc nobjs s = Some (Inr (objs, s')) \<and> slab_ok s' (out + mset objs)
    \<and> same_threads s s' \<and> (length objs = nobjs \<or> objs = [] \<and> refused nobjs out s')"
  unfolding slab_alloc_objs_def using alloc_loop_ok [of s out "[]" nobjs malloc] assms by simp

section \<open>The objects the threads cache\<close>

definition cached :: "(nat \<rightharpoonup> addr fifo_queue) \<Rightarrow> addr multiset" where
  "cached m = (\<Sum>t \<in> dom m. mset (entries (the (m t))))"

definition threads_ok :: "slab_allocator \<Rightarrow> bool" where
  "threads_ok s \<longleftrightarrow> finite (dom (local_buf s)) \<and> local_buf_size s \<le> 2 ^ 30
     \<and> (\<forall>t q. local_buf s t = Some q \<longrightarrow> fifo_ok q \<and> local_buf_size s \<le> ring_size q)
     \<and> fifo_ok (per_thread_queues s) \<and> ts_max_size (per_thread_queues s) \<le> ring_size (per_thread_queues s)"

text \<open>The objects that are with the users are \<open>out\<close>.\<close>

definition slab_inv :: "slab_allocator \<Rightarrow> addr multiset \<Rightarrow> bool" where
  "slab_inv s out \<longleftrightarrow> threads_ok s \<and> slab_ok s (out + cached (local_buf s))"

text \<open>The queue of thread \<open>t\<close> is held by the operation that is running.\<close>

definition slab_inv_at :: "nat \<Rightarrow> addr fifo_queue \<Rightarrow> slab_allocator \<Rightarrow> addr multiset \<Rightarrow> bool" where
  "slab_inv_at t q s out \<longleftrightarrow> threads_ok s \<and> t \<in> dom (local_buf s) \<and> fifo_ok q \<and> local_buf_size s \<le> ring_size q
     \<and> slab_ok s (out + mset (entries q) + cached ((local_buf s)(t := None)))"

lemma cached_split:
  assumes "finite (dom m)" "m t = Some q"
  shows "cached m = mset (entries q) + cached (m(t := None))"
proof -
  have "cached m = mset (entries (the (m t))) + (\<Sum>t' \<in> dom m - {t}. mset (entries (the (m t'))))"
    unfolding cached_def using assms by (intro sum.remove) auto
  moreover have "cached (m(t := None)) = (\<Sum>t' \<in> dom m - {t}. mset (entries (the (m t'))))"
    unfolding cached_def by (rule sum.cong) auto
  ultimately show ?thesis using assms(2) by simp
qed

lemma cached_upd:
  assumes "finite (dom m)"
  shows "cached (m(t \<mapsto> q)) = mset (entries q) + cached (m(t := None))"
  using cached_split [of "m(t \<mapsto> q)" t q] assms by simp

lemma slab_inv_store:
  assumes "slab_inv_at t q s out"
  shows "slab_inv (s\<lparr>local_buf := (local_buf s)(t \<mapsto> q)\<rparr>) out"
proof -
  have "slab_ok (s\<lparr>local_buf := m\<rparr>) o' = slab_ok s o'" for m o' by (simp add: slab_ok_def bufs_ok_def slots_def)
  then show ?thesis using assms cached_upd [of "local_buf s" t q]
    by (auto simp: slab_inv_def slab_inv_at_def threads_ok_def add.assoc)
qed

lemma local_queue_new:
  assumes "0 < n" "n \<le> 2 ^ 30"
  shows "\<exists>q. fifo_queue_new (g :: 'a) n b = Inr q \<and> fifo_ok q \<and> entries q = [] \<and> n \<le> ring_size q"
proof -
  have "ceil_log2 n \<le> 30" using assms(2) by (rule ceil_log2_least)
  moreover have "n \<le> 2 ^ ceil_log2 n" by (rule ceil_log2_le)
  ultimately show ?thesis using assms(1)
    by (auto simp: fifo_queue_new_def Let_def fifo_ok_def entries_def ring_size_def)
qed

lemma ts_add_fixed:
  assumes "fifo_ok q" "ts_max_size q \<le> ring_size q"
  shows "\<exists>n q'. ts_add g xs q = Inr (n, q') \<and> fifo_ok q' \<and> ts_max_size q' \<le> ring_size q'"
proof -
  from add_ok [OF assms(1), of xs] obtain q' where q': "fifo_add xs q = Inr (min (length xs) (ring_size q - length (entries q)), q')"
    "fifo_ok q'" "same_ring q q'" by blast
  have sz: "ring_size q' = ring_size q" "ts_max_size q' = ts_max_size q"
    using same_ring_size [OF q'(3)] q'(3) by (cases q; cases q'; simp add: same_ring_def)+
  then have "\<not> ring_size q' < ts_max_size q'" using assms(2) by simp
  then show ?thesis using q'(1,2) assms(2) fifo_get_size_eq [OF q'(2)] sz by (auto simp: ts_add_def simp del: length_entries)
qed

lemma get_local_buf_ok:
  assumes "slab_inv s out" "0 < local_buf_size s"
  shows "\<exists>q s'. get_local_buf t s = Inr (q, s') \<and> slab_inv_at t q s' out \<and> same_config s s'
    \<and> local_buf s' t = Some q"
proof (cases "local_buf s t")
  case (Some q)
  then show ?thesis using assms cached_split [of "local_buf s" t q]
    by (auto simp: get_local_buf_def slab_inv_def slab_inv_at_def threads_ok_def same_config_def add.assoc)
next
  case None
  from local_queue_new [OF assms(2), of 0 False] assms(1) obtain q where
    q: "fifo_queue_new (0 :: addr) (local_buf_size s) False = Inr q" "fifo_ok q" "entries q = []" "local_buf_size s \<le> ring_size q"
    by (auto simp: slab_inv_def threads_ok_def)
  from ts_add_fixed [of "per_thread_queues s" 0 "[t]"] assms(1) obtain n ptq where
    p: "ts_add 0 [t] (per_thread_queues s) = Inr (n, ptq)" "fifo_ok ptq" "ts_max_size ptq \<le> ring_size ptq"
    by (auto simp: slab_inv_def threads_ok_def)
  let ?s = "s\<lparr>per_thread_queues := ptq, local_buf := (local_buf s)(t \<mapsto> q)\<rparr>"
  have "get_local_buf t s = Inr (q, ?s)" using None q(1) p(1) by (simp add: get_local_buf_def)
  moreover have "(local_buf s)(t := None) = local_buf s" using None by auto
  then have "slab_inv_at t q ?s out" using assms(1) q p None
    by (auto simp: slab_inv_def slab_inv_at_def threads_ok_def slab_ok_def bufs_ok_def slots_def)
  ultimately show ?thesis by (auto simp: same_config_def slots_def)
qed

lemma slab_inv_at_moved:
  assumes "slab_inv_at t q s out" "same_threads s s'" "fifo_ok q'" "ring_size q' = ring_size q"
    "slab_ok s' (out' + mset (entries q') + cached ((local_buf s)(t := None)))"
  shows "slab_inv_at t q' s' out'"
  using assms by (simp add: slab_inv_at_def threads_ok_def same_threads_def same_config_def)

lemma ring_size_taken [simp]: "ring_size (taken n q) = ring_size q"
  by (simp add: taken_def ring_size_def)

lemma taken_fifo_ok: "fifo_ok q \<Longrightarrow> fifo_ok (taken n q)"
  by (auto simp: fifo_ok_def taken_def ring_size_def min_def)

lemma local_pop_ok:
  assumes "slab_inv_at t q s out" "entries q \<noteq> []"
  shows "\<exists>a s'. local_pop t q s = Inr (Some a, s') \<and> slab_inv s' (add_mset a out) \<and> same_config s s'"
proof -
  have ok: "fifo_ok q" using assms(1) by (simp add: slab_inv_at_def)
  have e: "entries (taken 1 q) = tl (entries q)" using taken_entries [OF fifo_ok_readable [OF ok], of 1] by (simp add: drop_Suc)
  have "mset (entries q) = add_mset (hd (entries q)) (mset (tl (entries q)))"
    using assms(2) by (cases "entries q") auto
  then have "slab_inv_at t (taken 1 q) s (add_mset (hd (entries q)) out)"
    using assms(1) taken_fifo_ok [OF ok, of 1] e by (simp add: slab_inv_at_def)
  from slab_inv_store [OF this] show ?thesis using pop_front_eq [OF ok] assms(2)
    by (auto simp: local_pop_def same_config_def)
qed

lemma slab_alloc_ok:
  assumes inv: "slab_inv s out" and m: "malloc_ok malloc (increase_size s)"
  shows "\<exists>p s'. slab_alloc malloc t s = Some (Inr (p, s')) \<and> same_config s s'
    \<and> slab_inv s' (case p of None \<Rightarrow> out | Some a \<Rightarrow> add_mset a out)"
proof (cases "local_buf_size s = 0")
  case True
  have ok: "slab_ok s (out + cached (local_buf s))" using inv by (simp add: slab_inv_def)
  obtain objs s' where r: "slab_alloc_objs malloc 1 s = Some (Inr (objs, s'))" "slab_ok s' (out + cached (local_buf s) + mset objs)"
    "same_threads s s'" "length objs = 1 \<or> objs = []" using slab_alloc_objs_ok [OF ok, of 1 malloc] m by auto
  have t: "threads_ok s'" "local_buf s' = local_buf s" "same_config s s'"
    using inv r(3) by (auto simp: slab_inv_def threads_ok_def same_threads_def same_config_def)
  from r(4) consider a where "objs = [a]" | "objs = []" by (cases objs) auto
  then show ?thesis by cases (use True r(1,2) t in \<open>auto simp: slab_alloc_def slab_inv_def\<close>)
next
  case False
  obtain q s1 where q: "get_local_buf t s = Inr (q, s1)" "slab_inv_at t q s1 out" "same_config s s1"
    "local_buf s1 t = Some q" using get_local_buf_ok [OF inv, of t] False by auto
  have c1: "local_buf_size s1 = local_buf_size s" "increase_size s1 = increase_size s" using q(3) by (simp_all add: same_config_def)
  show ?thesis
  proof (cases "entries q = []")
    case ne: False
    from local_pop_ok [OF q(2) ne] q(1,3) False ne show ?thesis
      by (auto simp: slab_alloc_def entries_Nil_iff same_config_def)
  next
    case em: True
    let ?c = "cached ((local_buf s1)(t := None))"
    have ok: "slab_ok s1 (out + ?c)" using q(2) em by (simp add: slab_inv_at_def)
    obtain objs s2 where r: "slab_alloc_objs malloc (local_buf_size s) s1 = Some (Inr (objs, s2))" "slab_ok s2 (out + ?c + mset objs)"
      "same_threads s1 s2" "length objs = local_buf_size s \<or> objs = []" using slab_alloc_objs_ok [OF ok, of "local_buf_size s" malloc] m False c1 by auto
    have q1: "fifo_ok q" "length objs \<le> ring_size q" using q(2) r(4) c1 by (auto simp: slab_inv_at_def)
    show ?thesis
    proof (cases "objs = []")
      case True
      have "slab_inv_at t q s2 out" using slab_inv_at_moved [OF q(2) r(3) q1(1) refl] r(2) em True by simp
      moreover have "s2\<lparr>local_buf := (local_buf s2)(t \<mapsto> q)\<rparr> = s2"
        using q(4) r(3) by (simp add: same_threads_def fun_upd_idem)
      ultimately have "slab_inv s2 out" using slab_inv_store by metis
      then show ?thesis using True False q(1,3) r(1,3) c1 em
        by (auto simp: slab_alloc_def entries_Nil_iff same_config_def same_threads_def)
    next
      case ne: False
      from add_ok [OF q1(1), of objs] obtain q2 where q2: "fifo_add objs q = Inr (length objs, q2)" "fifo_ok q2" "entries q2 = objs"
        "ring_size q2 = ring_size q" using q1(2) unfolding em by (auto simp: min_absorb1 dest: same_ring_size)
      have "slab_inv_at t q2 s2 out" using slab_inv_at_moved [OF q(2) r(3) q2(2,4)] r(2) q2(3) by (simp add: ac_simps)
      from local_pop_ok [OF this] ne q2 r(1,3) q(1,3) False c1 em show ?thesis
        by (auto simp: slab_alloc_def entries_Nil_iff same_config_def same_threads_def)
    qed
  qed
qed

lemma local_push_ok:
  assumes "slab_inv_at t q s (add_mset obj out)" "length (entries q) < ring_size q"
  shows "\<exists>q'. fifo_push_back obj q = Inr q' \<and> slab_inv_at t q' s out"
proof -
  have ok: "fifo_ok q" using assms(1) by (simp add: slab_inv_at_def)
  define q' where "q' = buf_splice (qend q mod ring_size q) [obj] q"
  have q': "fifo_ok q'" "entries q' = entries q @ [obj]" "ring_size q' = ring_size q"
    using splice_one [OF ok assms(2), of obj] same_ring_size [OF splice_same] by (simp_all add: q'_def)
  have "slab_inv_at t q' s out"
    using assms(1) q' by (simp add: slab_inv_at_def)
  moreover have "fifo_push_back obj q = Inr q'" using push_back_eq [OF ok, of obj] assms(2) by (simp add: q'_def)
  ultimately show ?thesis by blast
qed

lemma local_spill_ok:
  assumes "slab_inv_at t q s out"
  shows "\<exists>s'. slab_free_objs (take n (entries q)) s = Inr s' \<and> slab_inv_at t (taken n q) s' out \<and> same_threads s s'"
proof -
  let ?c = "cached ((local_buf s)(t := None))"
  have ok: "fifo_ok q" using assms by (simp add: slab_inv_at_def)
  have te: "entries (taken n q) = drop n (entries q)" by (rule taken_entries [OF fifo_ok_readable [OF ok]])
  have "mset (entries q) = mset (take n (entries q)) + mset (drop n (entries q))" by (metis append_take_drop_id mset_append)
  then have "slab_ok s (out + mset (drop n (entries q)) + ?c + mset (take n (entries q)))"
    using assms by (simp add: slab_inv_at_def ac_simps)
  from slab_free_objs_ok [OF this] obtain s2 where s2: "slab_free_objs (take n (entries q)) s = Inr s2"
    "slab_ok s2 (out + mset (drop n (entries q)) + ?c)" "same_threads s s2" by blast
  from slab_inv_at_moved [OF assms s2(3) taken_fifo_ok [OF ok] ring_size_taken] s2 te show ?thesis by simp
qed

lemma slab_free_ok:
  assumes inv: "slab_inv s (add_mset obj out)"
  shows "\<exists>s'. slab_free t obj s = Inr s' \<and> slab_inv s' out \<and> same_config s s'"
proof (cases "local_buf_size s = 0")
  case True
  have "slab_ok s (out + cached (local_buf s) + mset [obj])" using inv by (simp add: slab_inv_def)
  from slab_free_objs_ok [OF this] inv True show ?thesis
    by (auto simp: slab_free_def slab_inv_def threads_ok_def same_threads_def same_config_def)
next
  case False
  obtain q s1 where q: "get_local_buf t s = Inr (q, s1)" "slab_inv_at t q s1 (add_mset obj out)" "same_config s s1"
    using get_local_buf_ok [OF inv, of t] False by auto
  have ok: "fifo_ok q" "length (entries q) \<le> ring_size q" using q(2) by (simp_all add: slab_inv_at_def fifo_ok_def)
  have lb: "local_buf_size s1 = local_buf_size s" using q(3) by (simp add: same_config_def)
  note rd = fifo_ok_readable [OF ok(1)] and full = fifo_is_full_eq [OF ok(1)]
  show ?thesis
  proof (cases "length (entries q) < ring_size q")
    case True
    from local_push_ok [OF q(2) True] obtain q' where q': "fifo_push_back obj q = Inr q'" "slab_inv_at t q' s1 out" by blast
    from slab_inv_store [OF q'(2)] True False q(1,3) q'(1) full show ?thesis
      by (auto simp: slab_free_def same_config_def)
  next
    case nf: False
    from local_spill_ok [OF q(2), of "local_buf_size s"] obtain s2 where
      s2: "slab_free_objs (take (local_buf_size s) (entries q)) s1 = Inr s2"
      "slab_inv_at t (taken (local_buf_size s) q) s2 (add_mset obj out)" "same_threads s1 s2" by blast
    have "length (entries (taken (local_buf_size s) q)) < ring_size (taken (local_buf_size s) q)"
      using nf False ok(2) ring_size_pos [of q] unfolding taken_entries [OF rd] by simp
    from local_push_ok [OF s2(2) this] obtain q' where q': "fifo_push_back obj (taken (local_buf_size s) q) = Inr q'"
      "slab_inv_at t q' s2 out" by blast
    have "slab_free t obj s = Inr (s2\<lparr>local_buf := (local_buf s2)(t \<mapsto> q')\<rparr>)"
      using nf False q(1) q'(1) full s2(1) fetch_taken [OF rd, of "local_buf_size s"] lb by (simp add: slab_free_def)
    with slab_inv_store [OF q'(2)] q(3) s2(3) show ?thesis by (auto simp: same_threads_def same_config_def)
  qed
qed

section \<open>A pool of objects\<close>

text \<open>
  What a client relies on: taking an object adds it to those that are out, and giving back one
  that is out always works. The operations get the thread.
\<close>

datatype pool_op = Get nat | Put nat nat

text \<open>A client that takes objects and gives back the one at a position of those it holds.\<close>

fun pool_run ::
  "(nat \<Rightarrow> 's \<Rightarrow> (ptr \<times> 's) exec) \<Rightarrow> (nat \<Rightarrow> addr \<Rightarrow> 's \<Rightarrow> 's result) \<Rightarrow> pool_op list \<Rightarrow> addr list \<Rightarrow> 's \<Rightarrow> (addr list \<times> 's) exec" where
  "pool_run al fr [] held s = Some (Inr (held, s))"
| "pool_run al fr (Get t # ops) held s =
     bindX (al t s) (\<lambda>(p, s). pool_run al fr ops (case p of None \<Rightarrow> held | Some a \<Rightarrow> held @ [a]) s)"
| "pool_run al fr (Put t k # ops) held s =
     (if k < length held
      then bindX (Some (fr t (held ! k) s)) (pool_run al fr ops (take k held @ drop (k + 1) held))
      else pool_run al fr ops held s)"

locale object_pool =
  fixes inv :: "'s \<Rightarrow> addr multiset \<Rightarrow> bool"
    and al :: "nat \<Rightarrow> 's \<Rightarrow> (ptr \<times> 's) exec"
    and fr :: "nat \<Rightarrow> addr \<Rightarrow> 's \<Rightarrow> 's result"
  assumes takes: "inv s out \<Longrightarrow> \<exists>p s'. al t s = Some (Inr (p, s')) \<and> inv s' (case p of None \<Rightarrow> out | Some a \<Rightarrow> add_mset a out)"
    and gives: "inv s (add_mset a out) \<Longrightarrow> \<exists>s'. fr t a s = Inr s' \<and> inv s' out"
begin

lemma run_keeps:
  assumes "inv s (mset held)"
  shows "\<exists>held' s'. pool_run al fr ops held s = Some (Inr (held', s')) \<and> inv s' (mset held')"
  using assms
proof (induction ops arbitrary: held s)
  case (Cons op ops)
  show ?case
  proof (cases op)
    case (Get t)
    obtain p s' where p: "al t s = Some (Inr (p, s'))" "inv s' (case p of None \<Rightarrow> mset held | Some a \<Rightarrow> add_mset a (mset held))"
      using takes [OF Cons.prems] by blast
    then have "inv s' (mset (case p of None \<Rightarrow> held | Some a \<Rightarrow> held @ [a]))" by (cases p) auto
    from Cons.IH [OF this] p(1) Get show ?thesis by simp
  next
    case (Put t k)
    show ?thesis
    proof (cases "k < length held")
      case True
      then have "mset held = add_mset (held ! k) (mset (take k held @ drop (k + 1) held))"
        using id_take_nth_drop [OF True] by (metis Suc_eq_plus1 mset.simps(2) mset_append union_mset_add_mset_right)
      with gives Cons.prems obtain s' where s': "fr t (held ! k) s = Inr s'" "inv s' (mset (take k held @ drop (k + 1) held))"
        by metis
      from Cons.IH [OF s'(2)] s'(1) True Put show ?thesis by simp
    qed (use Cons Put in auto)
  qed
qed simp

end

text \<open>Objects with a header in front are a pool again.\<close>

definition headed_al :: "nat \<Rightarrow> (nat \<Rightarrow> 's \<Rightarrow> (ptr \<times> 's) exec) \<Rightarrow> nat \<Rightarrow> 's \<Rightarrow> (ptr \<times> 's) exec" where
  "headed_al hdr al t s =
     bindX (al t s) (\<lambda>(p, s). case p of None \<Rightarrow> Some (Inr (None, s)) | Some a \<Rightarrow> Some (Inr (Some (a + hdr), s)))"

locale headed_pool = object_pool inv al fr
  for inv :: "'s \<Rightarrow> addr multiset \<Rightarrow> bool"
    and al :: "nat \<Rightarrow> 's \<Rightarrow> (ptr \<times> 's) exec"
    and fr :: "nat \<Rightarrow> addr \<Rightarrow> 's \<Rightarrow> 's result" +
  fixes hdr :: nat

sublocale headed_pool \<subseteq> typed: object_pool
  "\<lambda>s out. \<exists>raw. inv s raw \<and> out = image_mset (\<lambda>a. a + hdr) raw" "headed_al hdr al" "\<lambda>t a. fr t (a - hdr)"
proof unfold_locales
  fix s out t assume "\<exists>raw. inv s raw \<and> out = image_mset (\<lambda>a. a + hdr) raw"
  then obtain raw where raw: "inv s raw" "out = image_mset (\<lambda>a. a + hdr) raw" by blast
  from takes [OF raw(1), of t] obtain p s' where p: "al t s = Some (Inr (p, s'))"
    "inv s' (case p of None \<Rightarrow> raw | Some a \<Rightarrow> add_mset a raw)" by blast
  show "\<exists>p s'. headed_al hdr al t s = Some (Inr (p, s')) \<and> (\<exists>raw. inv s' raw
    \<and> (case p of None \<Rightarrow> out | Some a \<Rightarrow> add_mset a out) = image_mset (\<lambda>a. a + hdr) raw)"
  proof (cases p)
    case (Some a)
    with p raw(2) show ?thesis
      by (intro exI [of _ "Some (a + hdr)"] exI [of _ s'] conjI exI [of _ "add_mset a raw"]) (auto simp: headed_al_def)
  qed (use p raw in \<open>auto simp: headed_al_def\<close>)
next
  fix s a out t assume "\<exists>raw. inv s raw \<and> add_mset a out = image_mset (\<lambda>a. a + hdr) raw"
  then obtain raw where raw: "inv s raw" "image_mset (\<lambda>a. a + hdr) raw = add_mset a out" by metis
  from msed_map_invR [OF raw(2)] obtain raw' b where "raw = add_mset b raw'" "b + hdr = a" "image_mset (\<lambda>a. a + hdr) raw' = out"
    by blast
  with gives [of s b raw' t] raw(1) show "\<exists>s'. fr t (a - hdr) s = Inr s' \<and> (\<exists>raw. inv s' raw \<and> out = image_mset (\<lambda>a. a + hdr) raw)"
    by auto
qed

text \<open>The allocator is such a pool, and so is the allocator of typed objects.\<close>

definition slab_pool_inv :: "(addr list \<Rightarrow> nat \<Rightarrow> addr) \<Rightarrow> nat \<Rightarrow> slab_allocator \<Rightarrow> addr multiset \<Rightarrow> bool" where
  "slab_pool_inv malloc osz s out \<longleftrightarrow> slab_inv s out \<and> malloc_ok malloc (increase_size s) \<and> obj_size s = osz"

interpretation slab: headed_pool "slab_pool_inv malloc osz" "slab_alloc malloc" slab_free linked_obj_bytes
  for malloc osz
proof unfold_locales
  fix s out t assume "slab_pool_inv malloc osz s out"
  with slab_alloc_ok [of s out malloc t] show "\<exists>p s'. slab_alloc malloc t s = Some (Inr (p, s'))
    \<and> slab_pool_inv malloc osz s' (case p of None \<Rightarrow> out | Some a \<Rightarrow> add_mset a out)"
    by (auto simp: slab_pool_inv_def same_config_def)
next
  fix s a out t assume "slab_pool_inv malloc osz s (add_mset a out)"
  with slab_free_ok [of s a out t] show "\<exists>s'. slab_free t a s = Inr s' \<and> slab_pool_inv malloc osz s' out"
    by (auto simp: slab_pool_inv_def same_config_def)
qed

lemma slab_inv_held:
  assumes "slab_inv s (mset held)"
  shows "distinct held" "\<And>a. a \<in> set held \<Longrightarrow> a \<in> set (slots s)" "bufs_ok s"
proof -
  have ok: "slab_ok s (mset held + cached (local_buf s))" using assms by (simp add: slab_inv_def)
  then obtain xs where xs: "list_ok (nodes s) (slist s) xs" "mset xs + (mset held + cached (local_buf s)) = mset (slots s)"
    by (auto simp: slab_ok_def)
  show "distinct held" using slab_ok_distinct(3) [OF ok xs, of held] by simp
  show "bufs_ok s" using ok by (simp add: slab_ok_def)
  fix a assume "a \<in> set held"
  then have "a \<in># mset (slots s)" unfolding xs(2) [symmetric] by simp
  then show "a \<in> set (slots s)" by simp
qed

lemma slots_contained:
  assumes "a \<in> set (slots s)" "i < obj_size s"
  shows "slab_contains (a + i) s"
proof -
  obtain b where b: "b \<in> set (alloc_bufs s)" "a \<in> set (buf_slots (obj_size s) (increase_size s) b)"
    using assms(1) by (auto simp: slots_def)
  have "b \<le> a + i" "a + i < b + increase_size s" using buf_slots_bounds [OF b(2)] assms(2) by linarith+
  with b(1) show ?thesis unfolding slab_contains_def by blast
qed

lemma per_thread_queues_new:
  "\<exists>ptq. thread_safe_FIFO_queue_new (0 :: nat) ''per-thread-queue-queue'' 1000 1000 = Inr ptq \<and> fifo_ok ptq
    \<and> ring_size ptq = 1024 \<and> ts_max_size ptq = 1000"
proof -
  have l: "ceil_log2 1000 = 10" by code_simp
  have j: "\<exists>j. 2 ^ j - Suc 0 = 1023" by (rule exI [of _ 10]) simp
  show ?thesis
    by (auto simp: thread_safe_FIFO_queue_new_def fifo_queue_new_def Let_def l j fifo_ok_def ring_size_def fifo_queue.defs)
qed

lemma slab_new_ok:
  assumes "slab_allocator_new name c mem tot osz isz msz node ini pin lsz safe = Inr (s, c')" "0 < isz" "lsz \<le> 2 ^ 30"
  shows "slab_inv s {#}" "obj_size s = osz" "increase_size s = ROUNDUP isz SLAB_PAGE_SIZE" "max_size s = msz"
proof -
  obtain ptq where q: "thread_safe_FIFO_queue_new (0 :: nat) ''per-thread-queue-queue'' 1000 1000 = Inr ptq" "fifo_ok ptq"
    "ring_size ptq = 1024" "ts_max_size ptq = 1000" using per_thread_queues_new by blast
  have "(isz + 2 ^ 12 - 1) div 2 ^ 12 \<noteq> 0" using assms(2) by (simp add: div_eq_0_iff)
  then have r: "0 < ROUNDUP isz SLAB_PAGE_SIZE" using ROUNDUP_div [of isz 12] by (simp add: SLAB_PAGE_SIZE_def)
  from assms(1) have f: "obj_size s = osz" "increase_size s = ROUNDUP isz SLAB_PAGE_SIZE" "max_size s = msz"
    "local_buf_size s = (if safe then lsz else 0)" "slist s = linked_obj_list_new" "alloc_bufs s = []" "local_buf s = Map.empty"
    "per_thread_queues s = ptq" "8 \<le> osz"
    unfolding slab_allocator_new_def q(1) bindE_simps linked_obj_bytes_def guardE_def by (auto split: if_splits)
  then show "obj_size s = osz" "increase_size s = ROUNDUP isz SLAB_PAGE_SIZE" "max_size s = msz" by simp_all
  have "threads_ok s" using f(4,7,8) q(2-4) assms(3) by (simp add: threads_ok_def)
  moreover have "slab_ok s {#}"
    using f r by (simp add: slab_ok_def bufs_ok_def slots_def list_ok_def linked_obj_list_new_def linked_obj_new_def)
  ultimately show "slab_inv s {#}" by (simp add: slab_inv_def f(7) cached_def)
qed

lemma alloc_obj_headed: "alloc_obj malloc = headed_al linked_obj_bytes (slab_alloc malloc)"
  by (intro ext) (simp add: alloc_obj_def headed_al_def)

lemma free_obj_headed: "free_obj = (\<lambda>t a. slab_free t (a - linked_obj_bytes))"
  by (intro ext) (simp add: free_obj_def)

lemma image_mset_list:
  assumes "mset held = image_mset f raw"
  shows "\<exists>raws. mset raws = raw \<and> held = map f raws"
  using assms
proof (induction held arbitrary: raw)
  case (Cons a held)
  then obtain b raw' where b: "raw = add_mset b raw'" "f b = a" "image_mset f raw' = mset held"
    using msed_map_invR [of f raw a "mset held"] by auto
  from Cons.IH [OF b(3) [symmetric]] obtain raws where "mset raws = raw'" "held = map f raws" by blast
  with b show ?case by (intro exI [of _ "b # raws"]) auto
qed simp


definition demo_malloc :: "addr list \<Rightarrow> nat \<Rightarrow> addr" where
  "demo_malloc bufs sz = 4096 * (1 + sum_list bufs + sz)"

lemma demo_malloc_ok: "malloc_ok demo_malloc sz"
  using member_le_sum_list by (fastforce simp: malloc_ok_def demo_malloc_def SLAB_PAGE_SIZE_def apart_def)

lemma demo_slab_new:
  "\<exists>s. slab_allocator_new ''objs'' 0 Map.empty 0 (16 + linked_obj_bytes) 100 8192 (-1) True False 100 True = Inr (s, 1)"
proof -
  obtain ptq where "thread_safe_FIFO_queue_new (0 :: nat) ''per-thread-queue-queue'' 1000 1000 = Inr ptq"
    using per_thread_queues_new by blast
  then show ?thesis by (simp add: slab_allocator_new_def linked_obj_bytes_def)
qed






section \<open>The end of an allocator\<close>

lemma dtor_queues_ok:
  assumes "fifo_ok (per_thread_queues s)"
  shows "\<exists>s'. dtor_queues s = Some (Inr s') \<and> entries (per_thread_queues s') = []"
  using assms
proof (induction "length (entries (per_thread_queues s))" arbitrary: s rule: less_induct)
  case less
  let ?q = "per_thread_queues s"
  show ?case
  proof (cases "entries ?q = []")
    case True
    then show ?thesis by (subst dtor_queues.simps) (simp add: entries_Nil_iff)
  next
    case False
    note rd = fifo_ok_readable [OF less.prems]
    have f: "ts_fetch 128 ?q = Inr (take 128 (entries ?q), taken 128 ?q)" unfolding ts_fetch_def by (rule fetch_taken [OF rd])
    define s1 where "s1 = s\<lparr>per_thread_queues := taken 128 ?q, local_buf := (local_buf s) |` (- set (take 128 (entries ?q)))\<rparr>"
    have ptq: "per_thread_queues s1 = taken 128 ?q" by (simp add: s1_def)
    have "0 < length (entries ?q)" using False by (simp only: length_greater_0_conv not_False_eq_True)
    then have "length (entries (per_thread_queues s1)) < length (entries ?q)"
      unfolding ptq taken_entries [OF rd] length_drop by linarith
    moreover have "fifo_ok (per_thread_queues s1)" unfolding ptq by (rule taken_fifo_ok [OF less.prems])
    ultimately obtain s' where "dtor_queues s1 = Some (Inr s')" "entries (per_thread_queues s') = []" using less.hyps by blast
    then show ?thesis using False f by (subst dtor_queues.simps) (simp add: entries_Nil_iff s1_def)
  qed
qed

lemma dtor_bufs_numa: "dtor_bufs True t bs s = Inr (bs, s)"
  by (induction bs) auto

lemma dtor_bufs_no_numa: "dtor_bufs False t bs s = Inr (freed, s') \<Longrightarrow> freed = []"
  by (induction bs arbitrary: s) (auto simp: res_simps)



end
