(* ===== verification/Concurrency.thy ===== *)
theory Concurrency
  imports Monya_Prelude
begin

text \<open>
  \<^verbatim>\<open>src/SAFS/libsafs/concurrency.h\<close>: atomic numbers, atomic flags and the sequence lock. An atomic
  operation is one step. The sequence lock is modelled with the data it protects: a writer takes
  the spin lock, makes the count odd, writes, makes it even and releases the lock, each in a step
  of its own, while readers only look at the count.
\<close>

unbundle bit_operations_syntax

section \<open>Atomic numbers and flags\<close>

type_synonym 'w atomic_number = "'w word"

definition atomic_number_new :: "'w::len atomic_number" where
  "atomic_number_new = 0"

text \<open>The results are the new value and the number.\<close>

definition atomic_inc :: "'w::len word \<Rightarrow> 'w atomic_number \<Rightarrow> 'w word \<times> 'w atomic_number" where
  "atomic_inc n v = (v + n, v + n)"

definition atomic_dec :: "'w::len word \<Rightarrow> 'w atomic_number \<Rightarrow> 'w word \<times> 'w atomic_number" where
  "atomic_dec n v = (v - n, v - n)"

definition atomic_get :: "'w::len atomic_number \<Rightarrow> 'w word" where
  "atomic_get v = v"

definition atomic_CAS :: "'w::len word \<Rightarrow> 'w word \<Rightarrow> 'w atomic_number \<Rightarrow> bool \<times> 'w atomic_number" where
  "atomic_CAS expected v' v = (if v = expected then (True, v') else (False, v))"

text \<open>The flags of an \<^verbatim>\<open>int\<close>; each operation returns the flag as it was.\<close>

type_synonym atomic_flags = "32 word"

definition atomic_flags_new :: atomic_flags where
  "atomic_flags_new = 0"

definition set_flag :: "nat \<Rightarrow> atomic_flags \<Rightarrow> bool \<times> atomic_flags" where
  "set_flag flag flags = (flags AND push_bit flag 1 \<noteq> 0, flags OR push_bit flag 1)"

definition clear_flag :: "nat \<Rightarrow> atomic_flags \<Rightarrow> bool \<times> atomic_flags" where
  "clear_flag flag flags = (flags AND push_bit flag 1 \<noteq> 0, flags AND NOT (push_bit flag 1))"

definition test_flag :: "nat \<Rightarrow> atomic_flags \<Rightarrow> bool" where
  "test_flag flag flags \<longleftrightarrow> flags AND push_bit flag 1 \<noteq> 0"

definition get_num_tot_flags :: nat where
  "get_num_tot_flags = 4 * 8"

lemma and_push_bit_iff:
  assumes "n < 32"
  shows "(w :: 32 word) AND push_bit n 1 \<noteq> 0 \<longleftrightarrow> bit w n"
proof
  assume "bit w n"
  then have "bit (w AND push_bit n 1) n" using assms by (simp add: bit_simps)
  then show "w AND push_bit n 1 \<noteq> 0" by auto
next
  assume "w AND push_bit n 1 \<noteq> 0"
  then obtain m where "bit (w AND push_bit n 1) m" using bit_eqI [of "w AND push_bit n 1" 0] by auto
  then show "bit w n" using assms by (auto simp: bit_simps)
qed

text \<open>Setting or clearing a flag returns its old value, changes it and no other flag.\<close>

lemma flags_correct:
  assumes "i < get_num_tot_flags" "j < get_num_tot_flags"
  shows "fst (set_flag i fl) = test_flag i fl" "test_flag j (snd (set_flag i fl)) \<longleftrightarrow> j = i \<or> test_flag j fl"
    "fst (clear_flag i fl) = test_flag i fl" "test_flag j (snd (clear_flag i fl)) \<longleftrightarrow> j \<noteq> i \<and> test_flag j fl"
  using assms and_push_bit_iff [of i] and_push_bit_iff [of j]
  by (auto simp: set_flag_def clear_flag_def test_flag_def get_num_tot_flags_def bit_simps)

section \<open>The sequence lock\<close>

datatype writer = Free | Locked nat | Writing nat | Written nat

record 'd seq_lock =
  scount :: "64 word"
  swriter :: writer
  sdata :: 'd

definition seq_lock_new :: "'d \<Rightarrow> 'd seq_lock" where
  "seq_lock_new d = \<lparr>scount = 0, swriter = Free, sdata = d\<rparr>"

text \<open>One look of \<^verbatim>\<open>read_lock\<close> at the count: the loop goes on while it is odd.\<close>

definition read_lock :: "'d seq_lock \<Rightarrow> 64 word option" where
  "read_lock s = (if scount s AND 1 \<noteq> 0 then None else Some (scount s))"

definition read_unlock :: "64 word \<Rightarrow> 'd seq_lock \<Rightarrow> bool" where
  "read_unlock c s \<longleftrightarrow> scount s = c"

text \<open>The steps of a writer; a thread that does not get the spin lock does not move.\<close>

datatype 'd write_ev = Lock nat | Begin_Write nat | Store nat 'd | End_Write nat | Unlock nat

fun write_step :: "'d write_ev \<Rightarrow> 'd seq_lock \<Rightarrow> 'd seq_lock option" where
  "write_step (Lock t) s = (if swriter s = Free then Some (s\<lparr>swriter := Locked t\<rparr>) else None)"
| "write_step (Begin_Write t) s =
     (if swriter s = Locked t then Some (s\<lparr>swriter := Writing t, scount := scount s + 1\<rparr>) else None)"
| "write_step (Store t d) s = (if swriter s = Writing t then Some (s\<lparr>sdata := d\<rparr>) else None)"
| "write_step (End_Write t) s =
     (if swriter s = Writing t then Some (s\<lparr>swriter := Written t, scount := scount s + 1\<rparr>) else None)"
| "write_step (Unlock t) s = (if swriter s = Written t then Some (s\<lparr>swriter := Free\<rparr>) else None)"

definition write_lock :: "nat \<Rightarrow> 'd seq_lock \<Rightarrow> 'd seq_lock option" where
  "write_lock t s = Option.bind (write_step (Lock t) s) (write_step (Begin_Write t))"

definition write_unlock :: "nat \<Rightarrow> 'd seq_lock \<Rightarrow> 'd seq_lock option" where
  "write_unlock t s = Option.bind (write_step (End_Write t) s) (write_step (Unlock t))"

fun write_steps :: "'d write_ev list \<Rightarrow> 'd seq_lock \<Rightarrow> 'd seq_lock option" where
  "write_steps [] s = Some s"
| "write_steps (e # es) s = Option.bind (write_step e s) (write_steps es)"

definition is_writing :: "writer \<Rightarrow> bool" where
  "is_writing w \<longleftrightarrow> (case w of Writing t \<Rightarrow> True | _ \<Rightarrow> False)"

definition seq_inv :: "'d seq_lock \<Rightarrow> bool" where
  "seq_inv s \<longleftrightarrow> (odd (scount s) \<longleftrightarrow> is_writing (swriter s))"

fun counts :: "'d write_ev \<Rightarrow> nat" where
  "counts (Begin_Write t) = 1"
| "counts (End_Write t) = 1"
| "counts _ = 0"

lemma odd_and_one: "(c :: 64 word) AND 1 \<noteq> 0 \<longleftrightarrow> odd c"
  by (simp add: and_one_eq odd_iff_mod_2_eq_one even_iff_mod_2_eq_zero)

lemma write_step_inv: "write_step e s = Some s' \<Longrightarrow> seq_inv s \<Longrightarrow> seq_inv s'"
  by (cases e) (auto simp: seq_inv_def is_writing_def split: if_splits)

lemma write_steps_inv: "write_steps es s = Some s' \<Longrightarrow> seq_inv s \<Longrightarrow> seq_inv s'"
  by (induction es arbitrary: s) (auto simp: bind_eq_Some_conv dest: write_step_inv)

lemma seq_new_inv: "seq_inv (seq_lock_new d)"
  by (simp add: seq_inv_def seq_lock_new_def is_writing_def)

lemma write_step_count: "write_step e s = Some s' \<Longrightarrow> scount s' = scount s + word_of_nat (counts e)"
  by (cases e) (auto split: if_splits)

lemma write_steps_count:
  "write_steps es s = Some s' \<Longrightarrow> scount s' = scount s + word_of_nat (sum_list (map counts es))"
  by (induction es arbitrary: s) (auto simp: bind_eq_Some_conv dest!: write_step_count)

lemma counts_le: "sum_list (map counts es) \<le> length es"
proof (induction es)
  case (Cons e es)
  then show ?case by (cases e) auto
qed simp

text \<open>Without a change of the count nothing is stored.\<close>

lemma quiet_step:
  assumes "write_step e s = Some s'" "counts e = 0" "\<not> is_writing (swriter s)"
  shows "sdata s' = sdata s \<and> \<not> is_writing (swriter s')"
  using assms by (cases e) (auto simp: is_writing_def split: if_splits)

lemma quiet_steps:
  assumes "write_steps es s = Some s'" "sum_list (map counts es) = 0" "\<not> is_writing (swriter s)"
  shows "sdata s' = sdata s"
  using assms
proof (induction es arbitrary: s)
  case (Cons e es)
  then obtain s1 where s1: "write_step e s = Some s1" "write_steps es s1 = Some s'" by (auto simp: bind_eq_Some_conv)
  from quiet_step [OF s1(1)] Cons.prems Cons.IH [OF s1(2)] show ?case by auto
qed simp

lemma write_steps_append: "write_steps (es @ es') s = Option.bind (write_steps es s) (write_steps es')"
proof (induction es arbitrary: s)
  case (Cons e es)
  then show ?case by (cases "write_step e s") auto
qed simp

text \<open>
  C17. A reader that gets a count from \<^verbatim>\<open>read_lock\<close> and succeeds in \<^verbatim>\<open>read_unlock\<close> has looked at data that
  nobody changed in between: whatever the writers did since the lock was made, and at every moment
  between its two calls, the data is what it was at the first, unless the count has gone once
  through all its values.
\<close>

theorem seq_lock_consistent:
  assumes "write_steps before (seq_lock_new d) = Some s" "read_lock s = Some c"
    and "write_steps (es @ es') s = Some s'" "read_unlock c s'" "length (es @ es') < 2 ^ 64"
  shows "\<exists>m. write_steps es s = Some m \<and> sdata m = sdata s"
proof -
  have "seq_inv s" using write_steps_inv [OF assms(1) seq_new_inv] .
  moreover have "even (scount s)" "scount s = c" using assms(2) by (auto simp: read_lock_def odd_and_one split: if_splits)
  ultimately have nw: "\<not> is_writing (swriter s)" by (simp add: seq_inv_def)
  let ?n = "sum_list (map counts (es @ es'))"
  have "(word_of_nat ?n :: 64 word) = 0"
    using write_steps_count [OF assms(3)] assms(4) \<open>scount s = c\<close> by (simp add: read_unlock_def)
  moreover have "?n < 2 ^ 64" using counts_le [of "es @ es'"] assms(5) by linarith
  ultimately have "?n = 0" using nat_dvd_not_less [of ?n "2 ^ 64"] unfolding word_of_nat_eq_0_iff by (cases "?n = 0") auto
  then have z: "sum_list (map counts es) = 0" by simp
  obtain m where m: "write_steps es s = Some m" using assms(3) by (auto simp: write_steps_append bind_eq_Some_conv)
  from quiet_steps [OF m z nw] m show ?thesis by blast
qed

theorem seq_lock_consistent_witness:
  "\<exists>s m. write_steps [Lock 1, Begin_Write 1, Store 1 7, End_Write 1] (seq_lock_new (0 :: nat)) = Some s
    \<and> read_lock s = Some 2 \<and> write_steps [Unlock 1] s = Some m \<and> sdata m = 7"
proof -
  let ?s = "\<lparr>scount = 2, swriter = Written 1, sdata = 7 :: nat\<rparr>"
  have s: "write_steps [Lock 1, Begin_Write 1, Store 1 7, End_Write 1] (seq_lock_new (0 :: nat)) = Some ?s"
    by (simp add: seq_lock_new_def)
  have r: "read_lock ?s = Some 2" by (simp add: read_lock_def odd_and_one)
  have w: "write_steps ([Unlock 1] @ [Lock 2]) ?s = Some \<lparr>scount = 2, swriter = Locked 2, sdata = 7\<rparr>" by simp
  from seq_lock_consistent [OF s r w] show ?thesis using s r by (auto simp: read_unlock_def)
qed

end
