(* ===== verification/Config_Map.thy ===== *)
theory Config_Map
  imports Safs_Common
begin

text \<open>
  \<^verbatim>\<open>src/SAFS/libsafs/config_map.h\<close> and \<^verbatim>\<open>config_map.cpp\<close>: the options of SAFS, read from a file or from
  strings of the form \<open>key=value\<close>. The files of the system are a map from names to their bytes.
\<close>

type_synonym config_map = "string \<rightharpoonup> string"

definition config_map_new :: config_map where
  "config_map_new = Map.empty"

section \<open>Reading\<close>

text \<open>The lines \<^verbatim>\<open>getline\<close> returns, each with the line break that ends it.\<close>

function getlines :: "string \<Rightarrow> string list" where
  "getlines s =
     (if s = [] then []
      else (takeWhile (\<lambda>c. c \<noteq> CHR 0x0A) s @ take 1 (dropWhile (\<lambda>c. c \<noteq> CHR 0x0A) s))
           # getlines (drop 1 (dropWhile (\<lambda>c. c \<noteq> CHR 0x0A) s)))"
  by auto
termination
proof (relation "measure length")
  fix s :: string assume "s \<noteq> []"
  then have "length (drop 1 (dropWhile (\<lambda>c. c \<noteq> CHR 0x0A) s)) < length s"
    using length_dropWhile_le [of "\<lambda>c. c \<noteq> CHR 0x0A" s] by (cases s) (auto simp: le_imp_less_Suc split: if_splits)
  then show "(drop 1 (dropWhile (\<lambda>c. c \<noteq> CHR 0x0A) s), s) \<in> measure length" by simp
qed simp

declare getlines.simps [simp del]

definition no_space :: "string \<Rightarrow> string" where
  "no_space s = filter (\<lambda>c. \<not> isspace c) s"

text \<open>The text before and after the first \<open>=\<close>, if there is one, without its white space.\<close>

definition key_value :: "string \<Rightarrow> (string \<times> string) option" where
  "key_value str =
     (if CHR ''='' \<in> set str
      then Some (no_space (takeWhile (\<lambda>c. c \<noteq> CHR ''='') str), no_space (drop 1 (dropWhile (\<lambda>c. c \<noteq> CHR ''='') str)))
      else None)"

text \<open>The result is whether all lines were read, and what was read.\<close>

fun read_lines :: "string list \<Rightarrow> config_map \<Rightarrow> bool \<times> config_map" where
  "read_lines [] configs = (True, configs)"
| "read_lines (line # lines) configs =
     (let str = c_str line in
      if length str = 1 then read_lines lines configs
      else if str \<noteq> [] \<and> hd str = CHR ''#'' then read_lines lines configs
      else case key_value str of
        None \<Rightarrow> (False, configs)
      | Some (key, val) \<Rightarrow> read_lines lines (configs(key \<mapsto> val)))"

definition read_config_file :: "(string \<rightharpoonup> string) \<Rightarrow> string \<Rightarrow> config_map \<Rightarrow> bool \<times> config_map" where
  "read_config_file files conf_file configs =
     (case files conf_file of
        None \<Rightarrow> (False, configs)
      | Some bytes \<Rightarrow> read_lines (getlines bytes) configs)"

definition config_map_create :: "(string \<rightharpoonup> string) \<Rightarrow> string \<Rightarrow> config_map option" where
  "config_map_create files conf_file =
     (case read_config_file files conf_file config_map_new of (ok, m) \<Rightarrow> if \<not> ok then None else Some m)"

fun add_options :: "string list \<Rightarrow> config_map \<Rightarrow> config_map" where
  "add_options [] configs = configs"
| "add_options (arg # args) configs =
     (case key_value (c_str arg) of
        None \<Rightarrow> add_options args configs
      | Some (key, val) \<Rightarrow> add_options args (configs(key \<mapsto> val)))"

text \<open>
  Splitting at white space with \<^verbatim>\<open>>>\<close>: the loop ends when a word reaches the end of the string, and
  white space at the end gives an empty word.
\<close>

function split_words :: "string \<Rightarrow> string list" where
  "split_words str =
     (let s = dropWhile isspace str; rest = dropWhile (\<lambda>c. \<not> isspace c) s in
      takeWhile (\<lambda>c. \<not> isspace c) s # (if rest = [] then [] else split_words rest))"
  by auto
termination
proof (relation "measure length")
  fix str s rest :: string
  assume s: "s = dropWhile isspace str" and r: "rest = dropWhile (\<lambda>c. \<not> isspace c) s" "rest \<noteq> []"
  have "s \<noteq> []" using r by (cases s) auto
  then have "\<not> isspace (hd s)" using s hd_dropWhile by blast
  then have "length rest < length s"
    using r(1) \<open>s \<noteq> []\<close> length_dropWhile_le [of "\<lambda>c. \<not> isspace c"] by (cases s) (auto simp: le_imp_less_Suc)
  then show "(rest, str) \<in> measure length" using s length_dropWhile_le [of isspace str] by simp
qed simp

declare split_words.simps [simp del]

definition add_options_string :: "string \<Rightarrow> config_map \<Rightarrow> config_map" where
  "add_options_string opts configs = add_options (split_words opts) configs"

section \<open>Looking up\<close>

definition get_option :: "string \<Rightarrow> config_map \<Rightarrow> string result" where
  "get_option name configs = (case configs name of None \<Rightarrow> Inl assert_failure | Some v \<Rightarrow> Inr v)"

definition has_option :: "string \<Rightarrow> config_map \<Rightarrow> bool" where
  "has_option name configs \<longleftrightarrow> configs name \<noteq> None"

text \<open>The result is whether there is such an option, and the value the variable has afterwards.\<close>

definition read_option :: "string \<Rightarrow> string \<Rightarrow> config_map \<Rightarrow> (bool \<times> string) result" where
  "read_option name val configs =
     (if has_option name configs then bindE (get_option name configs) (\<lambda>v. Inr (True, v)) else Inr (False, val))"

definition read_option_long :: "string \<Rightarrow> int \<Rightarrow> config_map \<Rightarrow> (bool \<times> int) result" where
  "read_option_long name val configs =
     (if has_option name configs
      then bindE (get_option name configs) (\<lambda>s. bindE (atol s) (\<lambda>v. Inr (True, v)))
      else Inr (False, val))"

text \<open>\<^verbatim>\<open>atoi\<close> of a number that does not fit an \<^verbatim>\<open>int\<close> is undefined behaviour.\<close>

definition read_option_int :: "string \<Rightarrow> int \<Rightarrow> config_map \<Rightarrow> (bool \<times> int) result" where
  "read_option_int name val configs =
     (if has_option name configs
      then bindE (get_option name configs) (\<lambda>s. bindE (atol s) (\<lambda>v.
           bindE (guardE (- (2 ^ 31) \<le> v \<and> v < 2 ^ 31) undefined_behaviour) (\<lambda>_. Inr (True, v))))
      else Inr (False, val))"

definition read_option_bool :: "string \<Rightarrow> bool \<Rightarrow> config_map \<Rightarrow> bool \<times> bool" where
  "read_option_bool name val configs = (if has_option name configs then (True, True) else (False, val))"

section \<open>Round trip\<close>

text \<open>An option that survives being written as a line, and the line.\<close>

definition plain :: "string \<Rightarrow> bool" where
  "plain s \<longleftrightarrow> (\<forall>c \<in> set s. \<not> isspace c \<and> c \<noteq> CHR 0x00)"

definition plain_option :: "string \<times> string \<Rightarrow> bool" where
  "plain_option kv \<longleftrightarrow> plain (fst kv) \<and> plain (snd kv) \<and> CHR ''='' \<notin> set (fst kv) \<and> (fst kv = [] \<or> hd (fst kv) \<noteq> CHR ''#'')"

definition option_text :: "string \<times> string \<Rightarrow> string" where
  "option_text kv = fst kv @ ''='' @ snd kv"

lemma plain_no_space: "plain s \<Longrightarrow> no_space s = s"
  by (simp add: plain_def no_space_def)

lemma no_space_append [simp]: "no_space (s @ t) = no_space s @ no_space t"
  by (simp add: no_space_def)

lemma no_space_newline [simp]: "no_space [CHR 0x0A] = []" "no_space [] = []"
  by (simp_all add: no_space_def isspace_def)

lemma key_value_text:
  assumes "plain_option kv" "no_space r = []"
  shows "key_value (option_text kv @ r) = Some kv"
proof -
  have k: "\<forall>c \<in> set (fst kv). c \<noteq> CHR ''=''" using assms(1) by (auto simp: plain_option_def)
  then have "takeWhile (\<lambda>c. c \<noteq> CHR ''='') (option_text kv @ r) = fst kv"
    "dropWhile (\<lambda>c. c \<noteq> CHR ''='') (option_text kv @ r) = CHR ''='' # snd kv @ r"
    unfolding option_text_def append_assoc using takeWhile_append2 dropWhile_append2 by fastforce+
  then show ?thesis using assms by (auto simp: key_value_def plain_no_space plain_option_def option_text_def)
qed

lemma c_str_plain: "\<forall>c \<in> set s. c \<noteq> CHR 0x00 \<Longrightarrow> c_str s = s"
  by (simp add: c_str_def takeWhile_eq_all_conv)

lemma option_text_plain:
  assumes "plain_option kv"
  shows "\<forall>c \<in> set (option_text kv). c \<noteq> CHR 0x00 \<and> c \<noteq> CHR 0x0A"
  using assms by (auto simp: plain_option_def plain_def option_text_def isspace_def)

lemma getlines_text:
  assumes "plain_option kv"
  shows "getlines (option_text kv @ CHR 0x0A # rest) = (option_text kv @ [CHR 0x0A]) # getlines rest"
proof -
  have n: "\<forall>c \<in> set (option_text kv). c \<noteq> CHR 0x0A" using option_text_plain [OF assms] by blast
  then have "takeWhile (\<lambda>c. c \<noteq> CHR 0x0A) (option_text kv @ CHR 0x0A # rest) = option_text kv"
    "dropWhile (\<lambda>c. c \<noteq> CHR 0x0A) (option_text kv @ CHR 0x0A # rest) = CHR 0x0A # rest"
    using takeWhile_append2 dropWhile_append2 by fastforce+
  then show ?thesis by (subst getlines.simps) simp
qed

lemma read_lines_text:
  assumes "list_all plain_option kvs"
  shows "read_lines (getlines (concat (map (\<lambda>kv. option_text kv @ [CHR 0x0A]) kvs))) m = (True, m ++ map_of (rev kvs))"
  using assms
proof (induction kvs arbitrary: m)
  case Nil
  then show ?case by (simp add: getlines.simps)
next
  case (Cons kv kvs)
  let ?line = "option_text kv @ [CHR 0x0A]"
  have ok: "plain_option kv" using Cons.prems by simp
  have c: "c_str ?line = ?line" using option_text_plain [OF ok] by (intro c_str_plain) auto
  have l: "length ?line \<noteq> 1" "?line \<noteq> []" "hd ?line \<noteq> CHR ''#''" using ok by (auto simp: option_text_def plain_option_def hd_append)
  have kv: "key_value ?line = Some (fst kv, snd kv)" using key_value_text [OF ok, of "[CHR 0x0A]"] by simp
  have "read_lines (?line # ls) m = read_lines ls (m(fst kv \<mapsto> snd kv))" for ls
    unfolding read_lines.simps c Let_def kv using l by (simp add: case_prod_beta)
  then have "read_lines (getlines (concat (map (\<lambda>kv. option_text kv @ [CHR 0x0A]) (kv # kvs)))) m
      = read_lines (getlines (concat (map (\<lambda>kv. option_text kv @ [CHR 0x0A]) kvs))) (m(fst kv \<mapsto> snd kv))"
    using getlines_text [OF ok] by simp
  also have "\<dots> = (True, m(fst kv \<mapsto> snd kv) ++ map_of (rev kvs))" using Cons by simp
  also have "m(fst kv \<mapsto> snd kv) ++ map_of (rev kvs) = m ++ map_of (rev (kv # kvs))"
    by (cases kv) (simp add: map_of_append)
  finally show ?case .
qed

lemma add_options_text:
  "list_all plain_option kvs \<Longrightarrow> add_options (map option_text kvs) m = m ++ map_of (rev kvs)"
proof (induction kvs arbitrary: m)
  case (Cons kv kvs)
  have ok: "plain_option kv" using Cons.prems by simp
  have c: "c_str (option_text kv) = option_text kv" using option_text_plain [OF ok] by (intro c_str_plain) auto
  have "key_value (option_text kv) = Some (fst kv, snd kv)" using key_value_text [OF ok, of "[]"] by simp
  with Cons c show ?case by (cases kv) (simp add: map_of_append)
qed simp

text \<open>
  C39. Options written to a file, one \<open>key=value\<close> to a line, are read back as the map in which the last
  value of every key counts, and so are the same options passed as arguments.
\<close>

theorem config_roundtrip:
  assumes "list_all plain_option kvs"
    and "files f = Some (concat (map (\<lambda>kv. option_text kv @ [CHR 0x0A]) kvs))"
  shows "config_map_create files f = Some (map_of (rev kvs)) \<and> add_options (map option_text kvs) config_map_new = map_of (rev kvs)"
  using read_lines_text [OF assms(1), of config_map_new] add_options_text [OF assms(1), of config_map_new] assms(2)
  by (simp add: config_map_create_def read_config_file_def config_map_new_def)

theorem config_roundtrip_witness:
  "config_map_create [''conf'' \<mapsto> concat (map (\<lambda>kv. option_text kv @ [CHR 0x0A]) [(''threads'', ''4''), (''io'', ''a=b'')])] ''conf''
    = Some (map_of [(''io'', ''a=b''), (''threads'', ''4'')])"
proof -
  have "list_all plain_option [(''threads'', ''4''), (''io'', ''a=b'')]" by (simp add: plain_option_def plain_def isspace_def)
  from config_roundtrip [OF this, of "[''conf'' \<mapsto> concat (map (\<lambda>kv. option_text kv @ [CHR 0x0A]) [(''threads'', ''4''), (''io'', ''a=b'')])]" "''conf''"]
  show ?thesis by simp
qed

end
