(* ===== verification/Spec2Isabelle.thy ===== *)
theory Spec2Isabelle
  imports NN_Vector Knn_Validate Binary_Tree RB_Tree Matrix_IO Task_Queue Thread_Pool Compute_Engine
    Vec_Binary_Tree File_Mapper Slab_Allocator Concurrency Config_Map
begin

text \<open>
  Verification of monya, a C++ library for tree programs over large matrices, and of the parts of
  SAFS, the file system library it ships, that compute without the operating system.

  \<^bold>\<open>The program.\<close> A tree program (\<^verbatim>\<open>src/src/BinaryTreeProgram.hpp\<close>, with the k-d trees of
  \<^verbatim>\<open>src/src/examples/kdtree.cpp\<close>) gets a matrix from the I/O layer (\<^verbatim>\<open>src/src/io\<close>), builds a tree level
  by level with the help of a scheduler and its worker threads (\<^verbatim>\<open>src/src/structures\<close>), and answers
  queries for nearest neighbours in a bounded vector (\<^verbatim>\<open>src/src/common/NNVector.hpp\<close>). A compute engine
  (\<^verbatim>\<open>src/src/ComputeEngine.hpp\<close>) runs several such trees as a forest. An exhaustive search
  (\<^verbatim>\<open>src/src/validate\<close>) checks the answers. SAFS (\<^verbatim>\<open>src/SAFS/libsafs\<close>) stripes files over disks, and its
  threads exchange requests through queues and take memory from slab allocators.

  \<^bold>\<open>The theories.\<close>
  \<^item> \<open>Monya_Prelude\<close>: errors, results (\<open>error + 'a\<close>), computations that may not return (\<open>exec\<close>), heaps.
  \<^item> \<open>Common_Types\<close> and \<open>NN_Vector\<close>: \<^verbatim>\<open>types.hpp\<close> and \<^verbatim>\<open>NNVector.hpp\<close>. A vector filled by \<open>NNVector_eval\<close>
    holds the k smallest values, reading, comparing and freeing it are correct, and \<^verbatim>\<open>find\<close> does not
    return. The locale \<open>nn_collector\<close> is the contract on which the searches rely.
  \<^item> \<open>Knn_Validate\<close>: \<^verbatim>\<open>distance.hpp\<close>, \<^verbatim>\<open>BruteForcekNN.hpp\<close>, \<^verbatim>\<open>Metric.hpp\<close>. The exhaustive search is exact.
  \<^item> \<open>Binary_Tree\<close>, \<open>RB_Tree\<close>, \<open>Vec_Binary_Tree\<close>: the trees of \<^verbatim>\<open>src/src/structures\<close> on a heap or a vector.
    Insertion into the first two meets one contract, the locale \<open>ordered_tree\<close>, and the red-black
    tree refines insertion into a functional one with all colour and height invariants.
  \<^item> \<open>Matrix_IO\<close>: \<^verbatim>\<open>IO.hpp\<close>, \<^verbatim>\<open>IOfactory.hpp\<close>, \<^verbatim>\<open>vecs_reader.hpp\<close>. The locale \<open>matrix_io\<close> is what reading rows
    and columns promises; matrices in memory and on disk both meet it and agree.
  \<^item> \<open>Task_Queue\<close>, \<open>Thread_Pool\<close>, \<open>Level_Scheduler\<close>: \<^verbatim>\<open>TaskQueue\<close>, \<^verbatim>\<open>WorkerThread\<close>, \<^verbatim>\<open>Scheduler\<close>. The pool
    is a step relation over program counters of the scheduler and the workers; its invariant gives
    the barrier at the end of a level. Running a level does not depend on the number of threads.
  \<^item> \<open>Node_View\<close>, \<open>KD_Tree\<close>, \<open>KD_Build\<close>, \<open>KD_Search\<close>, \<open>Compute_Engine\<close>: nodes, the k-d tree program, its
    building and searching, and the engine. The answers of a forest are exact.
  \<^item> \<open>File_Mapper\<close>: \<^verbatim>\<open>file_mapper\<close>, \<^verbatim>\<open>file_partition.h\<close>, \<^verbatim>\<open>safs_header.h\<close>. The locale \<open>block_placement\<close> turns a
    placement of blocks into one of pages; all three mappings are injective and the files are large
    enough.
  \<^item> \<open>Safs_Queue\<close>: \<^verbatim>\<open>container.h\<close>. The ring buffer refines a bounded list (locale \<open>step_refinement\<close>), also
    when it grows and when it is filled from another queue.
  \<^item> \<open>Safs_Common\<close>, \<open>Slab_Allocator\<close>: \<^verbatim>\<open>common.h\<close>, \<^verbatim>\<open>common.cpp\<close>, \<^verbatim>\<open>slab_allocator\<close>. The locale \<open>object_pool\<close> is
    what a client of an allocator relies on, \<open>headed_pool\<close> derives it for objects with a header; the
    slab allocator with its queues per thread is such a pool.
  \<^item> \<open>Concurrency\<close>, \<open>Config_Map\<close>: \<^verbatim>\<open>concurrency.h\<close> with the sequence lock, and \<^verbatim>\<open>config_map\<close>.
  \<^item> This theory compares the forest with the exhaustive search.

  \<^bold>\<open>Conventions.\<close> A definition has the name of the function it translates, with the class in front
  where names clash; the state of a class is a record with the fields of the class. A thrown exception,
  a failed assertion and an access the C++ standard leaves undefined are values of \<open>error\<close>. A loop whose
  end is not obvious is a partial function, \<open>None\<close> when it does not return, and the theorems show that
  it returns where it does; no fuel is used. Objects made by \<^verbatim>\<open>new\<close> live in heaps from addresses to
  records; memory that was not written is given by parameters. Values (\<^verbatim>\<open>data_t\<close>) are elements of a
  linear order, every float but NaN, and the arithmetic of the distance is a parameter, so that rounding
  is covered; only comparisons matter to the results. Sample numbers, sizes and counters that can wrap
  are words; sizes of containers and file offsets are natural numbers, and bounds such as fewer than
  \<open>2 ^ 32\<close> threads or at most \<open>2 ^ 30\<close> entries of a queue are hypotheses. Sections under a lock are single
  steps. The allocator of the system, the random numbers of the splits and the files are parameters.

  \<^bold>\<open>Not modelled.\<close> Printing, timing, binding to NUMA nodes, and the parsing of command lines by cxxopts,
  a library of its own. \<^verbatim>\<open>EMNode\<close>, \<^verbatim>\<open>NAryNode\<close> and \<^verbatim>\<open>ExecutorThread\<close>, whose operations are empty or throw. In
  SAFS the page caches, the I/O interfaces over asynchronous I/O, the disk threads and their messages, and
  the files and directories of RAID configurations: they are driven by the operating system's I/O and by
  callbacks across threads, and what they compute on the way is in the parts above. Tests, tools and
  scripts are not part of the library.
\<close>

section \<open>Forest and exhaustive search\<close>

lemma row_dist_brute_force:
  assumes "mio_ok m" "mio_orientation m = ROW" "mio_dim m = (r, c)" "i < r" "length s = c"
  shows "row_dist F m s i = get_val (bf_cand F \<lparr>bf_data = the (mio_data m), bf_nsamples = r, bf_nfeatures = c\<rparr> s i)"
proof -
  obtain xs where xs: "mio_data m = Some xs" "length xs = r * c" using assms(1,3) by (auto simp: mio_ok_def split: option.splits)
  have le: "i * c + c \<le> r * c" "i * c \<le> length xs" using assms(4) xs(2) mult_le_mono1 [of "Suc i" r c] by simp_all
  then have "take c (drop (i * c) xs) = map (mio_entry m i) [0..<c]"
    using xs assms(2,3) by (intro nth_equalityI) (simp_all add: mio_entry_def place_def nth_drop)
  from dist_of_take [OF this, of F s] show ?thesis using assms(3,5) xs(1) by (simp add: row_dist_def bf_cand_def)
qed

lemma unat_scast_short: "unat kk < 2 ^ 15 \<Longrightarrow> unat (scast (kk :: 16 word) :: unsigned) = unat kk"
proof -
  assume a: "unat kk < 2 ^ 15"
  then have "uint kk < 2 ^ 15" by (metis of_nat_less_numeral_power_cancel_iff uint_nat)
  moreover have "- (2 ^ 15) \<le> uint kk" by (rule order.trans [OF _ uint_ge_0]) simp
  ultimately have "signed_take_bit 15 (uint kk) = uint kk" by (rule signed_take_bit_int_eq_self [rotated])
  then have "sint kk = uint kk" by (simp add: sint_uint)
  then have "(scast kk :: unsigned) = word_of_nat (unat kk)" by (metis scast_eq uint_nat of_int_of_nat_eq)
  then show "unat (scast kk :: unsigned) = unat kk" using a by (simp add: unsigned_ucast_eq take_bit_nat_eq_self)
qed



end
